(* ===== verification/Prelude.thy ===== *)
theory Prelude
  imports Main "HOL-Library.Word"
begin

unbundle bit_operations_syntax

text \<open>
  Shared vocabulary of the development: the C types of \<^verbatim>\<open>types.h\<close> as words, the outcome of
  kernel code that may not return, table scans, and byte-addressed memory with the
  little-endian 64-bit loads and stores the kernel does through \<^verbatim>\<open>addr_t *\<close> pointers.
\<close>

section \<open>Machine types\<close>

text \<open>
  \<^verbatim>\<open>types.h\<close>: \<^verbatim>\<open>uint\<close> and \<^verbatim>\<open>int\<close> are both 32 bits wide; a signed C comparison on a
  \<^typ>\<open>32 word\<close> is written with \<^const>\<open>word_sless\<close> or through \<^const>\<open>sint\<close>.
\<close>

type_synonym byte = "8 word"
type_synonym ushort = "16 word"
type_synonym uint = "32 word"
type_synonym cint = "32 word"
type_synonym addr = "64 word"
type_synonym mem = "addr \<Rightarrow> byte"

named_theorems run_simps \<open>what an operation returns once its guards are decided\<close>
named_theorems state_defs \<open>definitions of the state predicates\<close>

section \<open>Code that may not return\<close>

text \<open>
  A call of \<^verbatim>\<open>panic\<close> stops the machine with a message; \<^verbatim>\<open>acquire\<close> of a lock that another
  CPU holds spins; a read through a null pointer faults, and so does any other access outside
  the object the code means; after a panic every CPU that prints halts. The file system is
  followed one process at a time: where it would sleep until another process acts, it is
  \<open>Blocked\<close>.
\<close>

datatype stop = Panic string | Spin | NullDeref | Fault | Halt | Blocked

definition andthen :: "'e + 'a \<Rightarrow> ('a \<Rightarrow> 'e + 'b) \<Rightarrow> 'e + 'b" where
  "andthen m f = (case m of Inl e \<Rightarrow> Inl e | Inr x \<Rightarrow> f x)"

lemma andthen_simps [simp]:
  "andthen (Inl e) f = Inl e"
  "andthen (Inr x) f = f x"
  by (simp_all add: andthen_def)

lemma andthen_Inr_iff: "andthen m f = Inr y \<longleftrightarrow> (\<exists>x. m = Inr x \<and> f x = Inr y)"
  by (cases m) auto

lemma andthen_Inl_iff:
  "andthen m f = Inl e \<longleftrightarrow> m = Inl e \<or> (\<exists>x. m = Inr x \<and> f x = Inl e)"
  by (cases m) auto

lemma andthen_assoc: "andthen (andthen m f) g = andthen m (\<lambda>x. andthen (f x) g)"
  by (cases m) auto

lemma andthen_cong [fundef_cong]:
  "m = m' \<Longrightarrow> (\<And>x. m' = Inr x \<Longrightarrow> f x = g x) \<Longrightarrow> andthen m f = andthen m' g"
  by (cases m') auto

section \<open>Scanning a table\<close>

text \<open>
  Most tables of the kernel are fixed arrays searched from the first slot:
  \<open>scan P xs\<close> is the index of the first entry that satisfies \<open>P\<close>.
\<close>

fun scan :: "('a \<Rightarrow> bool) \<Rightarrow> 'a list \<Rightarrow> nat option" where
  "scan P [] = None"
| "scan P (x # xs) = (if P x then Some 0 else map_option Suc (scan P xs))"

lemma scan_None_iff: "scan P xs = None \<longleftrightarrow> (\<forall>x \<in> set xs. \<not> P x)"
  by (induction xs) auto

lemma scan_Some_iff:
  "scan P xs = Some i \<longleftrightarrow> i < length xs \<and> P (xs ! i) \<and> (\<forall>j < i. \<not> P (xs ! j))"
proof (induction xs arbitrary: i)
  case Nil
  show ?case by simp
next
  case (Cons x xs)
  show ?case
    by (cases i) (auto simp: Cons.IH less_Suc_eq_0_disj)
qed

lemma scan_SomeD:
  "scan P xs = Some i \<Longrightarrow> i < length xs"
  "scan P xs = Some i \<Longrightarrow> P (xs ! i)"
  "scan P xs = Some i \<Longrightarrow> j < i \<Longrightarrow> \<not> P (xs ! j)"
  by (auto simp: scan_Some_iff)

lemma scan_total: "(\<exists>x \<in> set xs. P x) \<Longrightarrow> \<exists>i. scan P xs = Some i"
  using scan_None_iff [of P xs] by (cases "scan P xs") auto

section \<open>Words\<close>

lemma unat_add_no_wrap:
  fixes a b :: "'a::len word"
  assumes "unat a + unat b < 2 ^ LENGTH('a)"
  shows "unat (a + b) = unat a + unat b"
  using assms by (simp add: unat_word_ariths)

lemma unat_of_nat_small:
  assumes "n < 2 ^ LENGTH('a)"
  shows "unat (of_nat n :: 'a::len word) = n"
  using assms by (simp add: unat_of_nat)

lemma of_nat_eq_small:
  assumes "i < 2 ^ LENGTH('a)" "j < 2 ^ LENGTH('a)"
  shows "(of_nat i :: 'a::len word) = of_nat j \<longleftrightarrow> i = j"
  using assms by (metis unat_of_nat_small)

lemma of_nat_offset_eq:
  fixes a :: "'a::len word"
  assumes "i < 2 ^ LENGTH('a)" "j < 2 ^ LENGTH('a)"
  shows "a + of_nat i = a + of_nat j \<longleftrightarrow> i = j"
  using assms by (simp add: of_nat_eq_small)

lemma unat_diff_offset:
  fixes a :: "'a::len word"
  assumes "i < 2 ^ LENGTH('a)"
  shows "unat (a + of_nat i - a) = i"
  using assms by (simp add: unat_of_nat_small)

lemma word_offset_eq: "(x :: 'a::len word) = a + of_nat (unat (x - a))"
  by simp

lemma unat_less: "unat (w :: 'a::len word) < 2 ^ LENGTH('a)"
  by (rule unsigned_less)

lemma unat_ucast_mod:
  "unat (ucast (w :: 'a::len word) :: 'b::len word) = unat w mod 2 ^ LENGTH('b)"
  by (metis of_nat_unat unat_of_nat)

lemma unat_ucast_small:
  "unat (w :: 'a::len word) < 2 ^ LENGTH('b) \<Longrightarrow> unat (ucast w :: 'b::len word) = unat w"
  by (simp add: unat_ucast_mod)

text \<open>Signed comparisons on small values.\<close>

lemma sint_small:
  fixes x :: cint
  assumes "unat x < 2 ^ 31"
  shows "sint x = int (unat x)"
proof -
  have "int (unat x) < int (2 ^ 31)" using assms by (simp only: of_nat_less_iff)
  then have "uint x < 2 ^ 31" by simp
  moreover have "0 \<le> uint x" by simp
  ultimately have "signed_take_bit 31 (uint x) = uint x"
    by (intro signed_take_bit_int_eq_self) linarith+
  then show ?thesis by (simp add: sint_uint)
qed

lemma signed_small:
  fixes x y :: cint
  assumes "unat x < 2 ^ 31" "unat y < 2 ^ 31"
  shows "(x <s y) = (unat x < unat y)" "(x \<le>s y) = (unat x \<le> unat y)"
  using assms by (simp_all only: word_sless_alt word_sle_eq sint_small of_nat_less_iff of_nat_le_iff)

section \<open>Byte memory\<close>

definition bytes_at :: "mem \<Rightarrow> addr \<Rightarrow> nat \<Rightarrow> byte list" where
  "bytes_at m a n = map (\<lambda>i. m (a + of_nat i)) [0..<n]"

lemma length_bytes_at [simp]: "length (bytes_at m a n) = n"
  by (simp add: bytes_at_def)

lemma nth_bytes_at [simp]: "i < n \<Longrightarrow> bytes_at m a n ! i = m (a + of_nat i)"
  by (simp add: bytes_at_def)

lemma bytes_at_0 [simp]: "bytes_at m a 0 = []"
  by (simp add: bytes_at_def)

lemma bytes_at_Suc: "bytes_at m a (Suc n) = m a # bytes_at m (a + 1) n"
  by (simp add: bytes_at_def upt_conv_Cons map_Suc_upt [symmetric] add.assoc del: upt_Suc)

text \<open>\<open>in_range a n x\<close>: the byte address \<open>x\<close> is one of the \<open>n\<close> bytes from \<open>a\<close> on.\<close>

definition in_range :: "addr \<Rightarrow> nat \<Rightarrow> addr \<Rightarrow> bool" where
  "in_range a n x \<longleftrightarrow> unat (x - a) < n"

lemma in_range_0 [simp]: "\<not> in_range a 0 x"
  by (simp add: in_range_def)

lemma in_range_offset [simp]:
  "i < n \<Longrightarrow> n \<le> 2 ^ 64 \<Longrightarrow> in_range a n (a + of_nat i)"
  by (simp add: in_range_def unat_of_nat_small)

lemma in_range_self [simp]: "in_range a n a \<longleftrightarrow> 0 < n"
  by (simp add: in_range_def)

lemma in_range_Suc:
  assumes "n < 2 ^ 64"
  shows "in_range a (Suc n) x \<longleftrightarrow> x = a \<or> in_range (a + 1) n x"
proof (cases "x = a")
  case False
  then have "x - a \<noteq> 0" by simp
  moreover have eq: "x - (a + 1) = (x - a) - 1" by simp
  ultimately have "Suc (unat (x - (a + 1))) = unat (x - a)"
    unfolding eq using unat_gt_0 [of "x - a"] unat_minus_one [of "x - a"] by simp
  with False show ?thesis by (auto simp: in_range_def)
qed simp

lemma not_in_range_pred: "n < 2 ^ 64 \<Longrightarrow> \<not> in_range (a + 1) n a"
  by (simp add: in_range_def unsigned_minus_1_eq_mask mask_eq_exp_minus_1)

lemma in_range_one [simp]: "in_range a (Suc 0) x \<longleftrightarrow> x = a"
  by (simp add: in_range_Suc)

lemma in_range_add:
  assumes "k + n \<le> 2 ^ 64"
  shows "in_range a (k + n) x \<longleftrightarrow> in_range a k x \<or> in_range (a + of_nat k) n x"
  using assms
proof (induction k arbitrary: a)
  case (Suc k)
  then show ?case by (simp add: in_range_Suc add.assoc)
qed simp

definition disjoint_ranges :: "addr \<Rightarrow> nat \<Rightarrow> addr \<Rightarrow> nat \<Rightarrow> bool" where
  "disjoint_ranges a n b k \<longleftrightarrow> (\<forall>x. \<not> (in_range a n x \<and> in_range b k x))"

lemma bytes_at_eqI:
  assumes "\<And>i. i < n \<Longrightarrow> m (a + of_nat i) = m' (b + of_nat i)"
  shows "bytes_at m a n = bytes_at m' b n"
  using assms by (intro nth_equalityI) simp_all

section \<open>32- and 64-bit loads and stores\<close>

definition store32 :: "mem \<Rightarrow> addr \<Rightarrow> uint \<Rightarrow> mem" where
  "store32 m a v =
     m(a := ucast v, a + 1 := ucast (drop_bit 8 v), a + 2 := ucast (drop_bit 16 v),
       a + 3 := ucast (drop_bit 24 v))"

definition load64 :: "mem \<Rightarrow> addr \<Rightarrow> addr" where
  "load64 m a =
     ucast (m a) OR push_bit 8 (ucast (m (a + 1))) OR push_bit 16 (ucast (m (a + 2)))
     OR push_bit 24 (ucast (m (a + 3))) OR push_bit 32 (ucast (m (a + 4)))
     OR push_bit 40 (ucast (m (a + 5))) OR push_bit 48 (ucast (m (a + 6)))
     OR push_bit 56 (ucast (m (a + 7)))"

definition store64 :: "mem \<Rightarrow> addr \<Rightarrow> addr \<Rightarrow> mem" where
  "store64 m a v =
     m(a := ucast v, a + 1 := ucast (drop_bit 8 v), a + 2 := ucast (drop_bit 16 v),
       a + 3 := ucast (drop_bit 24 v), a + 4 := ucast (drop_bit 32 v),
       a + 5 := ucast (drop_bit 40 v), a + 6 := ucast (drop_bit 48 v),
       a + 7 := ucast (drop_bit 56 v))"

lemma load64_bytes:
  fixes v :: addr
  shows "ucast (ucast v :: byte) OR push_bit 8 (ucast (ucast (drop_bit 8 v) :: byte))
     OR push_bit 16 (ucast (ucast (drop_bit 16 v) :: byte))
     OR push_bit 24 (ucast (ucast (drop_bit 24 v) :: byte))
     OR push_bit 32 (ucast (ucast (drop_bit 32 v) :: byte))
     OR push_bit 40 (ucast (ucast (drop_bit 40 v) :: byte))
     OR push_bit 48 (ucast (ucast (drop_bit 48 v) :: byte))
     OR push_bit 56 (ucast (ucast (drop_bit 56 v) :: byte)) = v" (is "?l = v")
proof (rule bit_word_eqI)
  fix n assume "n < LENGTH(64)"
  then have "n < 64" by simp
  then consider "n < 8" | "8 \<le> n" "n < 16" | "16 \<le> n" "n < 24" | "24 \<le> n" "n < 32"
    | "32 \<le> n" "n < 40" | "40 \<le> n" "n < 48" | "48 \<le> n" "n < 56" | "56 \<le> n" "n < 64"
    by linarith
  then show "bit ?l n = bit v n"
    by cases (simp_all add: bit_simps less_diff_conv2)
qed

lemma load64_store64 [simp]: "load64 (store64 m a v) a = v"
  unfolding load64_def store64_def by (simp add: load64_bytes)

lemma store64_outside: "\<not> in_range a 8 x \<Longrightarrow> store64 m a v x = m x"
proof -
  assume out: "\<not> in_range a 8 x"
  have "x \<noteq> a + of_nat i" if "i < 8" for i
    using out that by (auto simp: in_range_def unat_of_nat_small)
  from this [of 0] this [of 1] this [of 2] this [of 3] this [of 4] this [of 5] this [of 6]
    this [of 7]
  show ?thesis by (simp add: store64_def)
qed

lemma load64_cong:
  assumes "\<And>i. i < 8 \<Longrightarrow> m (a + of_nat i) = m' (a + of_nat i)"
  shows "load64 m a = load64 m' a"
  using assms [of 0] assms [of 1] assms [of 2] assms [of 3] assms [of 4] assms [of 5]
    assms [of 6] assms [of 7]
  by (simp add: load64_def)

end
