(* ===== verification/Spinlock.thy ===== *)
theory Spinlock
  imports Prelude
begin

text \<open>
  \<^verbatim>\<open>spinlock.c\<close>: spin locks, the nesting of interrupt disabling, and the part of the machine
  they act on. A state of the kernel is a \<^theory_text>\<open>record\<close> that later theories extend, so
  every operation is polymorphic in the rest of the state. The operations here run on one
  CPU; the last section interleaves the atomic steps of \<^verbatim>\<open>acquire\<close> and \<^verbatim>\<open>release\<close> on any
  number of CPUs.
\<close>

section \<open>State\<close>

text \<open>\<^verbatim>\<open>spinlock.h\<close>, \<^verbatim>\<open>struct spinlock\<close>, without the debugging call stack \<^verbatim>\<open>pcs\<close>.\<close>

record spinlock =
  locked :: uint
  lk_name :: string
  lk_cpu :: "nat option"

text \<open>
  \<^verbatim>\<open>proc.h\<close>, \<^verbatim>\<open>struct cpu\<close>: the fields the lock code uses, and the interrupt flag of the
  CPU's \<^verbatim>\<open>EFLAGS\<close>.
\<close>

record cpu =
  cpu_id :: nat
  ncli :: int
  intena :: bool
  if_flag :: bool

text \<open>The locks of the kernel. Pipes and sleep locks have one each.\<close>

datatype lockid =
    Ptable_lock | Trace_lock | Kmem_lock | Ticks_lock | Cons_lock | Input_lock
  | Ftable_lock | Icache_lock | Log_lock | Bcache_lock | Pipe_lock addr
  | Inode_lk nat | Buf_lk nat

record machine =
  mem :: mem
  locks :: "lockid \<Rightarrow> spinlock"
  cpu :: cpu

section \<open>Operations\<close>

definition initlock :: "lockid \<Rightarrow> string \<Rightarrow> 'a machine_scheme \<Rightarrow> 'a machine_scheme" where
  "initlock l name s =
     s\<lparr>locks := (locks s)(l := \<lparr>locked = 0, lk_name = name, lk_cpu = None\<rparr>)\<rparr>"

definition holding :: "lockid \<Rightarrow> 'a machine_scheme \<Rightarrow> bool" where
  "holding l s \<longleftrightarrow> locked (locks s l) \<noteq> 0 \<and> lk_cpu (locks s l) = Some (cpu_id (cpu s))"

definition pushcli :: "'a machine_scheme \<Rightarrow> 'a machine_scheme" where
  "pushcli s =
     (let eflags = if_flag (cpu s);
          c1 = (cpu s)\<lparr>if_flag := False\<rparr>;
          c2 = (if ncli c1 = 0 then c1\<lparr>intena := eflags\<rparr> else c1)
      in s\<lparr>cpu := c2\<lparr>ncli := ncli c2 + 1\<rparr>\<rparr>)"

definition popcli :: "'a machine_scheme \<Rightarrow> stop + 'a machine_scheme" where
  "popcli s =
     (if if_flag (cpu s) then Inl (Panic ''popcli - interruptible'')
      else let c = (cpu s)\<lparr>ncli := ncli (cpu s) - 1\<rparr>
           in if ncli c < 0 then Inl (Panic ''popcli'')
              else if ncli c = 0 \<and> intena c then Inr (s\<lparr>cpu := c\<lparr>if_flag := True\<rparr>\<rparr>)
              else Inr (s\<lparr>cpu := c\<rparr>))"

text \<open>
  \<^verbatim>\<open>acquire\<close>: on a lock that another CPU holds the \<^verbatim>\<open>xchg\<close> loop spins until that CPU
  releases it; from this CPU's point of view the call does not return.
\<close>

definition acquire :: "lockid \<Rightarrow> 'a machine_scheme \<Rightarrow> stop + 'a machine_scheme" where
  "acquire l s =
     (let s1 = pushcli s
      in if holding l s1 then Inl (Panic ''acquire'')
         else if locked (locks s1 l) \<noteq> 0 then Inl Spin
         else Inr (s1\<lparr>locks := (locks s1)(l := (locks s1 l)
                \<lparr>locked := 1, lk_cpu := Some (cpu_id (cpu s1))\<rparr>)\<rparr>))"

definition release :: "lockid \<Rightarrow> 'a machine_scheme \<Rightarrow> stop + 'a machine_scheme" where
  "release l s =
     (if \<not> holding l s then Inl (Panic ''release'')
      else popcli (s\<lparr>locks := (locks s)(l := (locks s l)\<lparr>locked := 0, lk_cpu := None\<rparr>)\<rparr>))"

section \<open>Bracketing\<close>

text \<open>
  \<open>cpu_ok\<close>: interrupts are off while any \<^verbatim>\<open>pushcli\<close> is pending. \<open>settle\<close> is what a matched
  \<^verbatim>\<open>pushcli\<close>/\<^verbatim>\<open>popcli\<close> pair leaves behind: the flag as it was, and \<^verbatim>\<open>intena\<close> recording it.
\<close>

definition cpu_ok :: "cpu \<Rightarrow> bool" where
  "cpu_ok c \<longleftrightarrow> 0 \<le> ncli c \<and> (0 < ncli c \<longrightarrow> \<not> if_flag c)"

definition cpu_enter :: "cpu \<Rightarrow> cpu" where
  "cpu_enter c =
     c\<lparr>intena := (if ncli c = 0 then if_flag c else intena c), if_flag := False,
       ncli := ncli c + 1\<rparr>"

definition settle :: "cpu \<Rightarrow> cpu" where
  "settle c = c\<lparr>intena := (if ncli c = 0 then if_flag c else intena c)\<rparr>"

definition lock_free :: "lockid \<Rightarrow> 'a machine_scheme \<Rightarrow> bool" where
  "lock_free l s \<longleftrightarrow> locked (locks s l) = 0 \<and> lk_cpu (locks s l) = None"

definition take_lock :: "nat \<Rightarrow> spinlock \<Rightarrow> spinlock" where
  "take_lock i k = k\<lparr>locked := 1, lk_cpu := Some i\<rparr>"

lemma pushcli_enter: "pushcli s = s\<lparr>cpu := cpu_enter (cpu s)\<rparr>"
  by (cases "cpu s") (simp add: pushcli_def cpu_enter_def Let_def)

lemma cpu_enter_simps [simp]:
  "cpu_id (cpu_enter c) = cpu_id c"
  "\<not> if_flag (cpu_enter c)"
  "ncli (cpu_enter c) = ncli c + 1"
  by (simp_all add: cpu_enter_def)

lemma settle_simps [simp]:
  "cpu_id (settle c) = cpu_id c"
  "if_flag (settle c) = if_flag c"
  "ncli (settle c) = ncli c"
  "settle (settle c) = settle c"
  "cpu_ok (settle c) = cpu_ok c"
  by (simp_all add: settle_def cpu_ok_def)

lemma take_lock_simps [simp]:
  "locked (take_lock i k) = 1"
  "lk_cpu (take_lock i k) = Some i"
  "(take_lock i k)\<lparr>locked := 0, lk_cpu := None\<rparr> = k\<lparr>locked := 0, lk_cpu := None\<rparr>"
  by (simp_all add: take_lock_def)

lemma popcli_entered:
  assumes "cpu s = cpu_enter c" "cpu_ok c"
  shows "popcli s = Inr (s\<lparr>cpu := settle c\<rparr>)"
  using assms by (cases c) (auto simp: popcli_def cpu_ok_def cpu_enter_def settle_def Let_def)

lemma cpu_ok_enter [simp]: "cpu_ok c \<Longrightarrow> cpu_ok (cpu_enter c)"
  by (simp add: cpu_ok_def)

text \<open>Taking a free lock succeeds; what the critical section is run in is written out.\<close>

lemma acquire_free [run_simps]:
  assumes "lock_free l s"
  shows "acquire l s
    = Inr (s\<lparr>cpu := cpu_enter (cpu s),
            locks := (locks s)(l := take_lock (cpu_id (cpu s)) (locks s l))\<rparr>)"
  using assms
  by (simp add: acquire_def pushcli_enter holding_def lock_free_def take_lock_def Let_def)

lemma acquire_reentrant [run_simps]:
  "holding l s \<Longrightarrow> acquire l s = Inl (Panic ''acquire'')"
  by (simp add: acquire_def pushcli_enter holding_def Let_def)

lemma acquire_busy:
  "locked (locks s l) \<noteq> 0 \<Longrightarrow> \<not> holding l s \<Longrightarrow> acquire l s = Inl Spin"
  by (simp add: acquire_def pushcli_enter holding_def Let_def)

text \<open>
  Leaving the critical section, in whatever state \<open>s'\<close> its body produced, as long as the
  body left the lock table and the CPU as \<^verbatim>\<open>acquire\<close> set them.
\<close>

lemma release_taken:
  assumes "cpu s' = cpu_enter c" "locks s' = L(l := take_lock (cpu_id c) (L l))"
    and "cpu_ok c" "locked (L l) = 0" "lk_cpu (L l) = None"
  shows "release l s' = Inr (s'\<lparr>cpu := settle c, locks := L\<rparr>)"
proof -
  have L: "(L l)\<lparr>locked := 0, lk_cpu := None\<rparr> = L l"
    using assms(4,5) by (cases "L l") simp
  have "holding l s'" using assms(1,2) by (simp add: holding_def)
  moreover have "(locks s')(l := (locks s' l)\<lparr>locked := 0, lk_cpu := None\<rparr>) = L"
    using assms(2) L by simp
  moreover have "s'\<lparr>locks := L\<rparr> = s'\<lparr>locks := L, cpu := cpu_enter c\<rparr>"
    using assms(1) by (cases s') simp
  ultimately have "release l s' = popcli (s'\<lparr>locks := L, cpu := cpu_enter c\<rparr>)"
    by (simp add: release_def)
  also have "\<dots> = Inr (s'\<lparr>locks := L, cpu := settle c\<rparr>)"
    using popcli_entered [of "s'\<lparr>locks := L, cpu := cpu_enter c\<rparr>" c] assms(3) by simp
  finally show ?thesis by (cases s') simp
qed

lemma release_not_held: "\<not> holding l s \<Longrightarrow> release l s = Inl (Panic ''release'')"
  by (simp add: release_def)

text \<open>An empty critical section restores the machine up to \<^const>\<open>settle\<close>.\<close>

lemma acquire_release:
  assumes "lock_free l s" "cpu_ok (cpu s)"
  shows "andthen (acquire l s) (release l) = Inr (s\<lparr>cpu := settle (cpu s)\<rparr>)"
proof -
  let ?s = "s\<lparr>cpu := cpu_enter (cpu s),
      locks := (locks s)(l := take_lock (cpu_id (cpu s)) (locks s l))\<rparr>"
  have "andthen (acquire l s) (release l) = release l ?s"
    using assms(1) by (simp add: run_simps)
  also have "\<dots> = Inr (?s\<lparr>cpu := settle (cpu s), locks := locks s\<rparr>)"
    using assms by (intro release_taken) (simp_all add: lock_free_def)
  also have "?s\<lparr>cpu := settle (cpu s), locks := locks s\<rparr> = s\<lparr>cpu := settle (cpu s)\<rparr>"
    by (cases s) simp
  finally show ?thesis .
qed

text \<open>Leaving it after a body that ended in \<open>t\<close>, which has the locks and CPU of the start.\<close>

lemma release_after:
  assumes "lock_free l s" "cpu_ok (cpu s)" "cpu t = cpu s" "locks t = locks s"
  shows "release l (t\<lparr>cpu := cpu_enter (cpu s), locks := (locks s)(l := take_lock (cpu_id (cpu s)) (locks s l))\<rparr>)
    = Inr (t\<lparr>cpu := settle (cpu s)\<rparr>)"
proof -
  let ?t = "t\<lparr>cpu := cpu_enter (cpu s), locks := (locks s)(l := take_lock (cpu_id (cpu s)) (locks s l))\<rparr>"
  have "release l ?t = Inr (?t\<lparr>cpu := settle (cpu s), locks := locks s\<rparr>)"
    using assms by (intro release_taken) (simp_all add: lock_free_def)
  also have "?t\<lparr>cpu := settle (cpu s), locks := locks s\<rparr> = t\<lparr>cpu := settle (cpu s)\<rparr>"
    using assms(4) by (cases t) simp
  finally show ?thesis .
qed

text \<open>
  Two locks held by this CPU, taken in either order, seen as one of them taken on top of the
  other; releasing the one leaves the other held.
\<close>

text \<open>Whatever their outcome, taking and releasing a lock touch nothing else.\<close>

lemma acquire_frame: "acquire l s = Inr s' \<Longrightarrow> \<exists>c k. s' = s\<lparr>cpu := c, locks := k\<rparr>"
  by (auto simp: acquire_def pushcli_enter Let_def split: if_splits)

lemma release_frame: "release l s = Inr s' \<Longrightarrow> \<exists>c k. s' = s\<lparr>cpu := c, locks := k\<rparr>"
proof -
  assume r: "release l s = Inr s'"
  let ?k = "(locks s)(l := (locks s l)\<lparr>locked := 0, lk_cpu := None\<rparr>)"
  obtain c where "s' = s\<lparr>locks := ?k, cpu := c\<rparr>"
    using r by (auto simp: release_def popcli_def Let_def split: if_splits)
  then have "s' = s\<lparr>cpu := c, locks := ?k\<rparr>" by simp
  then show ?thesis by blast
qed

lemma settle_enter [simp]: "cpu_ok c \<Longrightarrow> settle (cpu_enter c) = cpu_enter c"
  by (simp add: settle_def cpu_enter_def cpu_ok_def)

lemma release_nested:
  assumes "cpu s' = cpu_enter (cpu_enter c)" "cpu_ok c" "a \<noteq> b"
    and "locks s' = L(a := take_lock (cpu_id c) (L a), b := take_lock (cpu_id c) (L b))"
    and "locked (L b) = 0" "lk_cpu (L b) = None"
  shows "release b s' = Inr (s'\<lparr>cpu := cpu_enter c, locks := L(a := take_lock (cpu_id c) (L a))\<rparr>)"
  using release_taken [of s' "cpu_enter c" "L(a := take_lock (cpu_id c) (L a))" b] assms
  by (simp del: fun_upd_apply) (simp add: fun_upd_def)

lemma release_nested_both:
  assumes "cpu s' = cpu_enter (cpu_enter c)" "cpu_ok c" "a \<noteq> b"
    and "locks s' = L(a := take_lock (cpu_id c) (L a), b := take_lock (cpu_id c) (L b))"
    and "locked (L a) = 0" "lk_cpu (L a) = None" "locked (L b) = 0" "lk_cpu (L b) = None"
  shows "andthen (release b s') (release a) = Inr (s'\<lparr>cpu := settle c, locks := L\<rparr>)"
  using release_nested [OF assms(1-4,7,8)] assms
    release_taken [of "s'\<lparr>cpu := cpu_enter c, locks := L(a := take_lock (cpu_id c) (L a))\<rparr>" c L a]
  by (simp del: fun_upd_apply)

section \<open>Several CPUs\<close>

text \<open>
  The steps that other CPUs can interleave with: the atomic \<^verbatim>\<open>xchg\<close>, the write of
  \<^verbatim>\<open>lk->cpu\<close> after it, the write of 0 to \<^verbatim>\<open>lk->cpu\<close> and the final \<^verbatim>\<open>movl\<close>. Each CPU is
  somewhere in \<^verbatim>\<open>acquire\<close> or \<^verbatim>\<open>release\<close> of one lock.
\<close>

datatype lockpc = Outside | Spinning | Got | Critical | Leaving

record smp =
  slk :: spinlock
  pcs :: "nat \<Rightarrow> lockpc"

definition smp_init :: "string \<Rightarrow> smp" where
  "smp_init name = \<lparr>slk = \<lparr>locked = 0, lk_name = name, lk_cpu = None\<rparr>, pcs = (\<lambda>_. Outside)\<rparr>"

inductive smp_step :: "smp \<Rightarrow> smp \<Rightarrow> bool" where
  enter: "pcs s i = Outside \<Longrightarrow> smp_step s (s\<lparr>pcs := (pcs s)(i := Spinning)\<rparr>)"
| xchg_busy: "pcs s i = Spinning \<Longrightarrow> locked (slk s) \<noteq> 0 \<Longrightarrow>
    smp_step s (s\<lparr>slk := (slk s)\<lparr>locked := 1\<rparr>\<rparr>)"
| xchg_free: "pcs s i = Spinning \<Longrightarrow> locked (slk s) = 0 \<Longrightarrow>
    smp_step s (s\<lparr>slk := (slk s)\<lparr>locked := 1\<rparr>, pcs := (pcs s)(i := Got)\<rparr>)"
| record_cpu: "pcs s i = Got \<Longrightarrow>
    smp_step s (s\<lparr>slk := (slk s)\<lparr>lk_cpu := Some i\<rparr>, pcs := (pcs s)(i := Critical)\<rparr>)"
| clear_cpu: "pcs s i = Critical \<Longrightarrow>
    smp_step s (s\<lparr>slk := (slk s)\<lparr>lk_cpu := None\<rparr>, pcs := (pcs s)(i := Leaving)\<rparr>)"
| movl: "pcs s i = Leaving \<Longrightarrow>
    smp_step s (s\<lparr>slk := (slk s)\<lparr>locked := 0\<rparr>, pcs := (pcs s)(i := Outside)\<rparr>)"

inductive smp_reach :: "string \<Rightarrow> smp \<Rightarrow> bool" for name where
  start: "smp_reach name (smp_init name)"
| step: "smp_reach name s \<Longrightarrow> smp_step s t \<Longrightarrow> smp_reach name t"

definition owns :: "lockpc \<Rightarrow> bool" where
  "owns p \<longleftrightarrow> p = Got \<or> p = Critical \<or> p = Leaving"

text \<open>At most one CPU is past its \<^verbatim>\<open>xchg\<close>, and the lock word says whether there is one.\<close>

definition smp_inv :: "smp \<Rightarrow> bool" where
  "smp_inv s \<longleftrightarrow>
     (if locked (slk s) = 0 then (\<forall>i. \<not> owns (pcs s i)) \<and> lk_cpu (slk s) = None
      else \<exists>k. owns (pcs s k) \<and> (\<forall>j. j \<noteq> k \<longrightarrow> \<not> owns (pcs s j)) \<and>
             lk_cpu (slk s) = (if pcs s k = Critical then Some k else None))"

lemma smp_inv_init: "smp_inv (smp_init name)"
  by (simp add: smp_inv_def smp_init_def owns_def)

lemma smp_inv_owner:
  assumes "smp_inv s" "owns (pcs s i)"
  shows "locked (slk s) \<noteq> 0" "\<And>j. j \<noteq> i \<Longrightarrow> \<not> owns (pcs s j)"
    "lk_cpu (slk s) = (if pcs s i = Critical then Some i else None)"
proof -
  show l: "locked (slk s) \<noteq> 0" using assms by (auto simp: smp_inv_def)
  with assms(1) obtain k where k: "\<forall>j. j \<noteq> k \<longrightarrow> \<not> owns (pcs s j)"
      "lk_cpu (slk s) = (if pcs s k = Critical then Some k else None)"
    by (auto simp: smp_inv_def)
  from assms(2) k(1) have "k = i" by metis
  with k show "\<And>j. j \<noteq> i \<Longrightarrow> \<not> owns (pcs s j)"
    "lk_cpu (slk s) = (if pcs s i = Critical then Some i else None)" by auto
qed

lemma smp_step_inv: "smp_step s t \<Longrightarrow> smp_inv s \<Longrightarrow> smp_inv t"
proof (induction rule: smp_step.induct)
  case (enter s i)
  then have "owns (((pcs s)(i := Spinning)) j) = owns (pcs s j)"
    "(((pcs s)(i := Spinning)) j = Critical) = (pcs s j = Critical)" for j
    by (auto simp: owns_def)
  with enter.prems show ?case by (simp add: smp_inv_def del: fun_upd_apply)
next
  case (xchg_busy s i)
  then show ?case by (simp add: smp_inv_def)
next
  case (xchg_free s i)
  then show ?case by (auto simp: smp_inv_def owns_def)
next
  case (record_cpu s i)
  then have "owns (pcs s i)" by (simp add: owns_def)
  from smp_inv_owner [OF record_cpu.prems this] show ?case
    by (auto simp: smp_inv_def owns_def)
next
  case (clear_cpu s i)
  then have "owns (pcs s i)" by (simp add: owns_def)
  from smp_inv_owner [OF clear_cpu.prems this] show ?case
    by (auto simp: smp_inv_def owns_def)
next
  case (movl s i)
  then have "owns (pcs s i)" by (simp add: owns_def)
  from smp_inv_owner [OF movl.prems this] movl show ?case
    by (auto simp: smp_inv_def owns_def)
qed

lemma smp_reach_inv: "smp_reach name s \<Longrightarrow> smp_inv s"
  by (induction rule: smp_reach.induct) (auto intro: smp_inv_init smp_step_inv)

text \<open>A spinning CPU always has a step, and it takes the lock when the word is 0.\<close>

lemma smp_spinning_progress:
  assumes "pcs s i = Spinning"
  shows "\<exists>t. smp_step s t \<and> (locked (slk s) = 0 \<longrightarrow> pcs t i = Got)"
proof (cases "locked (slk s) = 0")
  case True
  with assms have "smp_step s (s\<lparr>slk := (slk s)\<lparr>locked := 1\<rparr>, pcs := (pcs s)(i := Got)\<rparr>)"
    by (intro smp_step.xchg_free)
  then show ?thesis by (intro exI conjI) auto
next
  case False
  with assms show ?thesis by (blast intro: smp_step.xchg_busy)
qed

section \<open>Properties\<close>

text \<open>
  C3. Mutual exclusion: however the steps of any number of CPUs interleave, two CPUs are
  never both in the critical section of one lock, and while a CPU is there the lock word is
  set and \<^verbatim>\<open>lk->cpu\<close> names that CPU.
\<close>

theorem spinlock_mutual_exclusion:
  assumes "smp_reach name s" "pcs s i = Critical"
  shows "(\<forall>j. pcs s j = Critical \<longrightarrow> j = i) \<and> locked (slk s) \<noteq> 0 \<and> lk_cpu (slk s) = Some i"
proof -
  have inv: "smp_inv s" using assms(1) by (rule smp_reach_inv)
  have own: "owns (pcs s i)" using assms(2) by (simp add: owns_def)
  have "\<forall>j. pcs s j = Critical \<longrightarrow> j = i"
    using smp_inv_owner(2) [OF inv own] by (metis owns_def)
  moreover have "locked (slk s) \<noteq> 0" "lk_cpu (slk s) = Some i"
    using smp_inv_owner(1,3) [OF inv own] assms(2) by simp_all
  ultimately show ?thesis by blast
qed

theorem spinlock_mutual_exclusion_witness:
  "let s = \<lparr>slk = \<lparr>locked = 1, lk_name = ''trace'', lk_cpu = Some 0\<rparr>,
            pcs = (\<lambda>_. Outside)(0 := Critical, 1 := Spinning)\<rparr>
   in smp_reach ''trace'' s \<and> lk_cpu (slk s) = Some 0"
proof -
  define S where "S l c p = \<lparr>slk = \<lparr>locked = l, lk_name = ''trace'', lk_cpu = c\<rparr>, pcs = p\<rparr>" for l c p
  define f where "f = (\<lambda>_ :: nat. Outside)(1 := Spinning)"
  have 0: "smp_reach ''trace'' (S 0 None (\<lambda>_. Outside))"
    using smp_reach.start [of "''trace''"] by (simp add: smp_init_def S_def)
  have "smp_step (S 0 None (\<lambda>_. Outside)) (S 0 None f)"
    using smp_step.enter [of "S 0 None (\<lambda>_. Outside)" 1] by (simp add: S_def f_def)
  with 0 have 1: "smp_reach ''trace'' (S 0 None f)" by (rule smp_reach.step)
  have "smp_step (S 0 None f) (S 0 None (f(0 := Spinning)))"
    using smp_step.enter [of "S 0 None f" 0] by (simp add: S_def f_def)
  with 1 have 2: "smp_reach ''trace'' (S 0 None (f(0 := Spinning)))" by (rule smp_reach.step)
  have "smp_step (S 0 None (f(0 := Spinning))) (S 1 None (f(0 := Got)))"
    using smp_step.xchg_free [of "S 0 None (f(0 := Spinning))" 0] by (simp add: S_def)
  with 2 have 3: "smp_reach ''trace'' (S 1 None (f(0 := Got)))" by (rule smp_reach.step)
  have "smp_step (S 1 None (f(0 := Got))) (S 1 (Some 0) (f(0 := Critical)))"
    using smp_step.record_cpu [of "S 1 None (f(0 := Got))" 0] by (simp add: S_def)
  with 3 have 4: "smp_reach ''trace'' (S 1 (Some 0) (f(0 := Critical)))" by (rule smp_reach.step)
  have eq: "f(0 := Critical) = (\<lambda>_. Outside)(0 := Critical, 1 := Spinning)"
    by (auto simp: f_def)
  show ?thesis
    using 4 spinlock_mutual_exclusion [OF 4, of 0] unfolding eq S_def by simp
qed



end
