(* ===== verification/KString.thy ===== *)
theory KString
  imports Prelude
begin

unbundle bit_operations_syntax

text \<open>
  The byte and string routines of \<^verbatim>\<open>string.c\<close> (kernel) and \<^verbatim>\<open>ulib.c\<close> (user programs), on
  byte memory with real pointer arithmetic, so that overlapping buffers behave as in C. Each
  C loop is one recursive function: a counted loop recurses on its count, a loop that only
  stops at a NUL byte is a \<^theory_text>\<open>partial_function\<close>. The last section gives the same
  routines on the fixed-size arrays inside kernel structures and proves that they are what
  the pointer code does to such an array.
\<close>

section \<open>Filling memory\<close>

text \<open>\<^verbatim>\<open>x86.h\<close>: the string store instructions, \<open>rep stosb\<close> and \<open>rep stosl\<close>.\<close>

fun stosb :: "mem \<Rightarrow> addr \<Rightarrow> byte \<Rightarrow> nat \<Rightarrow> mem" where
  "stosb m a v 0 = m"
| "stosb m a v (Suc n) = stosb (m(a := v)) (a + 1) v n"

fun stosl :: "mem \<Rightarrow> addr \<Rightarrow> uint \<Rightarrow> nat \<Rightarrow> mem" where
  "stosl m a v 0 = m"
| "stosl m a v (Suc n) = stosl (store32 m a v) (a + 4) v n"

text \<open>
  \<^verbatim>\<open>string.c\<close>, \<^verbatim>\<open>memset\<close>: word stores when pointer and length are multiples of four. The
  count goes through an \<^verbatim>\<open>int\<close>, hence the truncation to 32 bits.
\<close>

definition memset :: "mem \<Rightarrow> addr \<Rightarrow> cint \<Rightarrow> addr \<Rightarrow> mem" where
  "memset m dst c n =
     (if dst mod 4 = 0 \<and> n mod 4 = 0
      then (let b = c AND 0xFF
            in stosl m dst (push_bit 24 b OR push_bit 16 b OR push_bit 8 b OR b)
                 (unat (ucast (n div 4) :: uint)))
      else stosb m dst (ucast c) (unat (ucast n :: uint)))"

definition mem_fill :: "mem \<Rightarrow> addr \<Rightarrow> nat \<Rightarrow> byte \<Rightarrow> mem" where
  "mem_fill m a n v = (\<lambda>x. if in_range a n x then v else m x)"

lemma mem_fill_0 [simp]: "mem_fill m a 0 v = m"
  by (simp add: mem_fill_def)

lemma mem_fill_Suc:
  "n < 2 ^ 64 \<Longrightarrow> mem_fill m a (Suc n) v = mem_fill (m(a := v)) (a + 1) n v"
  by (auto simp: mem_fill_def in_range_Suc fun_eq_iff)

lemma mem_fill_add:
  "k + n \<le> 2 ^ 64 \<Longrightarrow> mem_fill m a (k + n) v = mem_fill (mem_fill m a k v) (a + of_nat k) n v"
  by (auto simp: mem_fill_def in_range_add fun_eq_iff)

lemma stosb_fill: "n \<le> 2 ^ 64 \<Longrightarrow> stosb m a v n = mem_fill m a n v"
  by (induction n arbitrary: m a) (simp_all add: mem_fill_Suc)

lemma mem_fill_4:
  "mem_fill m a 4 v = m(a := v, a + 1 := v, a + 2 := v, a + 3 := v)"
proof -
  have "mem_fill m a (Suc (Suc (Suc (Suc 0)))) v
      = m(a := v, a + 1 := v, a + 1 + 1 := v, a + 1 + 1 + 1 := v)"
    by (simp add: mem_fill_Suc)
  then show ?thesis by (simp add: numeral_eq_Suc add.assoc)
qed

lemma store32_replicated:
  fixes c :: cint
  shows "store32 m a (let b = c AND 0xFF in push_bit 24 b OR push_bit 16 b OR push_bit 8 b OR b)
    = mem_fill m a 4 (ucast c)"
proof -
  let ?b = "c AND 0xFF"
  let ?w = "push_bit 24 ?b OR push_bit 16 ?b OR push_bit 8 ?b OR ?b"
  have mask: "?b = take_bit 8 c" by (simp add: take_bit_eq_mask mask_eq_exp_minus_1)
  have "(ucast (drop_bit k ?w) :: byte) = ucast c" if "k \<in> {0, 8, 16, 24}" for k
    unfolding mask using that by (intro bit_word_eqI) (auto simp: bit_simps)
  from this [of 0] this [of 8] this [of 16] this [of 24] show ?thesis
    by (simp add: store32_def mem_fill_4)
qed

lemma stosl_fill:
  assumes "\<And>m a. store32 m a w = mem_fill m a 4 v" "4 * n \<le> 2 ^ 64"
  shows "stosl m a w n = mem_fill m a (4 * n) v"
  using assms(2)
proof (induction n arbitrary: m a)
  case (Suc n)
  then show ?case by (simp add: assms(1) mem_fill_add [of 4])
qed simp

lemma memset_fill:
  assumes "unat n < 2 ^ 32"
  shows "memset m dst c n = mem_fill m dst (unat n) (ucast c)"
proof (cases "dst mod 4 = 0 \<and> n mod 4 = 0")
  case True
  then have "unat n mod 4 = 0" using unat_mod [of n 4] by simp
  moreover have "unat (n div 4) = unat n div 4" by (simp add: unat_div)
  ultimately have four: "4 * unat (n div 4) = unat n" by arith
  have "unat (ucast (n div 4) :: uint) = unat (n div 4)"
    using assms by (simp add: unat_div unat_ucast_mod)
  with True four assms show ?thesis
    using stosl_fill [OF store32_replicated [of _ _ c], of "unat (n div 4)" m dst]
    by (simp add: memset_def Let_def)
next
  case False
  have "unat (ucast n :: uint) = unat n"
    using assms by (simp add: unat_ucast_mod)
  with False assms show ?thesis
    by (auto simp add: memset_def stosb_fill)
qed

section \<open>Comparing and copying memory\<close>

text \<open>\<^verbatim>\<open>memcmp\<close>: the difference of the first two bytes that differ, or 0.\<close>

fun memcmp :: "mem \<Rightarrow> addr \<Rightarrow> addr \<Rightarrow> nat \<Rightarrow> int" where
  "memcmp m s1 s2 0 = 0"
| "memcmp m s1 s2 (Suc n) =
     (if m s1 \<noteq> m s2 then uint (m s1) - uint (m s2) else memcmp m (s1 + 1) (s2 + 1) n)"

text \<open>
  \<^verbatim>\<open>memmove\<close> of the kernel: the copy runs backwards when the destination starts inside the
  source. The two loops keep the running pointers of the C code.
\<close>

fun memmove_fwd :: "mem \<Rightarrow> addr \<Rightarrow> addr \<Rightarrow> nat \<Rightarrow> mem" where
  "memmove_fwd m d s 0 = m"
| "memmove_fwd m d s (Suc n) = memmove_fwd (m(d := m s)) (d + 1) (s + 1) n"

fun memmove_bwd :: "mem \<Rightarrow> addr \<Rightarrow> addr \<Rightarrow> nat \<Rightarrow> mem" where
  "memmove_bwd m d s 0 = m"
| "memmove_bwd m d s (Suc n) = memmove_bwd (m(d - 1 := m (s - 1))) (d - 1) (s - 1) n"

definition memmove :: "mem \<Rightarrow> addr \<Rightarrow> addr \<Rightarrow> uint \<Rightarrow> mem" where
  "memmove m dst src n =
     (if src < dst \<and> dst < src + ucast n
      then memmove_bwd m (dst + ucast n) (src + ucast n) (unat n)
      else memmove_fwd m dst src (unat n))"

text \<open>\<^verbatim>\<open>ulib.c\<close>, \<^verbatim>\<open>memmove\<close> of user programs: always forwards.\<close>

definition memmove_user :: "mem \<Rightarrow> addr \<Rightarrow> addr \<Rightarrow> cint \<Rightarrow> mem" where
  "memmove_user m vdst vsrc n = memmove_fwd m vdst vsrc (nat (sint n))"

text \<open>The reference: every destination byte gets the old value of its source byte.\<close>

definition mem_copy :: "mem \<Rightarrow> addr \<Rightarrow> addr \<Rightarrow> nat \<Rightarrow> mem" where
  "mem_copy m d s n = (\<lambda>x. if in_range d n x then m (s + (x - d)) else m x)"

lemma mem_copy_0 [simp]: "mem_copy m d s 0 = m"
  by (simp add: mem_copy_def)

lemma memcmp_0_iff: "n \<le> 2 ^ 64 \<Longrightarrow> memcmp m p q n = 0 \<longleftrightarrow> bytes_at m p n = bytes_at m q n"
proof (induction n arbitrary: p q)
  case 0
  then show ?case by (simp add: bytes_at_def)
next
  case (Suc n)
  then show ?case by (auto simp: bytes_at_Suc word_uint_eq_iff)
qed

lemma memmove_fwd_copy:
  assumes "n < 2 ^ 64"
    and "\<And>i j. i < j \<Longrightarrow> j < n \<Longrightarrow> d + of_nat i \<noteq> s + of_nat j"
  shows "memmove_fwd m d s n = mem_copy m d s n"
  using assms
proof (induction n arbitrary: m d s)
  case (Suc n)
  have "d + 1 + of_nat i \<noteq> s + 1 + of_nat j" if "i < j" "j < n" for i j
    using Suc.prems(2) [of "Suc i" "Suc j"] that by (simp add: add.assoc)
  then have IH: "memmove_fwd (m(d := m s)) (d + 1) (s + 1) n
      = mem_copy (m(d := m s)) (d + 1) (s + 1) n"
    using Suc.prems(1) by (intro Suc.IH) simp_all
  have src: "s + (x - d) \<noteq> d" if "in_range (d + 1) n x" for x
  proof -
    from that have "in_range d (Suc n) x" "x \<noteq> d"
      using Suc.prems(1) not_in_range_pred [of n d] by (auto simp: in_range_Suc)
    then have "0 < unat (x - d)" "unat (x - d) < Suc n"
      by (auto simp: in_range_def unat_gt_0)
    then have "d + of_nat 0 \<noteq> s + of_nat (unat (x - d))"
      by (rule Suc.prems(2))
    then show ?thesis by simp
  qed
  have "\<not> in_range (d + 1) n d"
    using Suc.prems(1) by (intro not_in_range_pred) simp
  with IH src Suc.prems(1) show ?case
    by (auto simp: mem_copy_def in_range_Suc fun_eq_iff algebra_simps)
qed simp

lemma memmove_bwd_copy:
  assumes "n < 2 ^ 64"
    and "\<And>i j. j < i \<Longrightarrow> i < n \<Longrightarrow> d + of_nat i \<noteq> s + of_nat j"
  shows "memmove_bwd m (d + of_nat n) (s + of_nat n) n = mem_copy m d s n"
  using assms
proof (induction n arbitrary: m)
  case (Suc n)
  let ?m = "m(d + of_nat n := m (s + of_nat n))"
  have "memmove_bwd m (d + of_nat (Suc n)) (s + of_nat (Suc n)) (Suc n)
      = memmove_bwd ?m (d + of_nat n) (s + of_nat n) n"
    by simp
  also have "\<dots> = mem_copy ?m d s n"
    using Suc.prems by (intro Suc.IH) simp_all
  finally have IH: "memmove_bwd m (d + of_nat (Suc n)) (s + of_nat (Suc n)) (Suc n)
      = mem_copy ?m d s n" .
  have src: "s + (x - d) \<noteq> d + of_nat n" if "in_range d n x" for x
    using Suc.prems(2) [of "unat (x - d)" n] that by (auto simp: in_range_def)
  have last: "in_range d (Suc n) x \<longleftrightarrow> in_range d n x \<or> x = d + of_nat n" for x
    using Suc.prems(1) in_range_add [of n 1 d x] by simp
  show ?case
    unfolding IH using src by (auto simp: mem_copy_def last fun_eq_iff)
qed simp

lemma offset_neq:
  fixes a b :: addr
  assumes "unat a + i < 2 ^ 64" "unat b + j < 2 ^ 64" "unat a + i \<noteq> unat b + j"
  shows "a + of_nat i \<noteq> b + of_nat j"
proof
  assume "a + of_nat i = b + of_nat j"
  then have "unat (a + of_nat i) = unat (b + of_nat j)" by simp
  with assms show False by (simp add: unat_word_ariths unat_of_nat)
qed

text \<open>The kernel's \<^verbatim>\<open>memmove\<close> is an overlap-safe copy.\<close>

lemma memmove_copy:
  assumes "unat src + unat n < 2 ^ 64" "unat dst + unat n < 2 ^ 64"
  shows "memmove m dst src n = mem_copy m dst src (unat n)"
proof -
  have n: "ucast n = (of_nat (unat n) :: addr)" by (simp only: of_nat_unat)
  have small: "unat n < 2 ^ 64" using unat_less [of n] by simp
  have end_src: "unat (src + ucast n) = unat src + unat n"
    using assms small by (simp add: unat_word_ariths unat_ucast_mod)
  show ?thesis
  proof (cases "src < dst \<and> dst < src + ucast n")
    case True
    have "memmove_bwd m (dst + of_nat (unat n)) (src + of_nat (unat n)) (unat n)
        = mem_copy m dst src (unat n)"
      using True assms by (intro memmove_bwd_copy offset_neq small) (auto simp: word_less_nat_alt)
    with True show ?thesis by (simp add: memmove_def)
  next
    case False
    then have ord: "unat dst \<le> unat src \<or> unat src + unat n \<le> unat dst"
      unfolding word_less_nat_alt end_src by auto
    have "memmove_fwd m dst src (unat n) = mem_copy m dst src (unat n)"
      using ord assms by (intro memmove_fwd_copy offset_neq small) auto
    with False show ?thesis by (auto simp: memmove_def)
  qed
qed

section \<open>NUL-terminated strings\<close>

text \<open>\<open>cstr m a xs\<close>: the C string at address \<open>a\<close> is \<open>xs\<close>.\<close>

fun cstr :: "mem \<Rightarrow> addr \<Rightarrow> byte list \<Rightarrow> bool" where
  "cstr m a [] \<longleftrightarrow> m a = 0"
| "cstr m a (x # xs) \<longleftrightarrow> m a = x \<and> x \<noteq> 0 \<and> cstr m (a + 1) xs"

text \<open>\<^verbatim>\<open>string.c\<close>: \<^verbatim>\<open>strncmp\<close>, \<^verbatim>\<open>strncpy\<close> (pads with NULs), \<^verbatim>\<open>safestrcpy\<close> (always terminates).\<close>

fun strncmp :: "mem \<Rightarrow> addr \<Rightarrow> addr \<Rightarrow> nat \<Rightarrow> int" where
  "strncmp m p q 0 = 0"
| "strncmp m p q (Suc n) =
     (if m p \<noteq> 0 \<and> m p = m q then strncmp m (p + 1) (q + 1) n
      else uint (m p) - uint (m q))"

fun strncpy_pad :: "mem \<Rightarrow> addr \<Rightarrow> nat \<Rightarrow> mem" where
  "strncpy_pad m s 0 = m"
| "strncpy_pad m s (Suc n) = strncpy_pad (m(s := 0)) (s + 1) n"

fun strncpy_loop :: "mem \<Rightarrow> addr \<Rightarrow> addr \<Rightarrow> nat \<Rightarrow> mem" where
  "strncpy_loop m s t 0 = m"
| "strncpy_loop m s t (Suc n) =
     (let m' = m(s := m t)
      in if m t \<noteq> 0 then strncpy_loop m' (s + 1) (t + 1) n else strncpy_pad m' (s + 1) n)"

definition strncpy :: "mem \<Rightarrow> addr \<Rightarrow> addr \<Rightarrow> cint \<Rightarrow> mem" where
  "strncpy m s t n = strncpy_loop m s t (nat (sint n))"

fun safestrcpy_loop :: "mem \<Rightarrow> addr \<Rightarrow> addr \<Rightarrow> nat \<Rightarrow> mem" where
  "safestrcpy_loop m s t 0 = m(s := 0)"
| "safestrcpy_loop m s t (Suc n) =
     (let m' = m(s := m t)
      in if m t \<noteq> 0 then safestrcpy_loop m' (s + 1) (t + 1) n else m'(s + 1 := 0))"

definition safestrcpy :: "mem \<Rightarrow> addr \<Rightarrow> addr \<Rightarrow> cint \<Rightarrow> mem" where
  "safestrcpy m s t n = (if sint n \<le> 0 then m else safestrcpy_loop m s t (nat (sint n) - 1))"

text \<open>
  Loops with no count: \<^verbatim>\<open>strlen\<close> (both copies), and \<^verbatim>\<open>strcpy\<close>, \<^verbatim>\<open>strcmp\<close>, \<^verbatim>\<open>strchr\<close>,
  \<^verbatim>\<open>atoi\<close> of \<^verbatim>\<open>ulib.c\<close>. Not returning is \<^const>\<open>None\<close>.
\<close>

partial_function (option) strlen_from :: "mem \<Rightarrow> addr \<Rightarrow> nat \<Rightarrow> nat option" where
  "strlen_from m s n = (if m (s + of_nat n) = 0 then Some n else strlen_from m s (Suc n))"

definition strlen :: "mem \<Rightarrow> addr \<Rightarrow> nat option" where
  "strlen m s = strlen_from m s 0"

partial_function (option) strcpy :: "mem \<Rightarrow> addr \<Rightarrow> addr \<Rightarrow> mem option" where
  "strcpy m s t = (if m t = 0 then Some (m(s := 0)) else strcpy (m(s := m t)) (s + 1) (t + 1))"

partial_function (option) strcmp :: "mem \<Rightarrow> addr \<Rightarrow> addr \<Rightarrow> int option" where
  "strcmp m p q =
     (if m p \<noteq> 0 \<and> m p = m q then strcmp m (p + 1) (q + 1)
      else Some (uint (m p) - uint (m q)))"

partial_function (option) strchr :: "mem \<Rightarrow> addr \<Rightarrow> byte \<Rightarrow> addr option option" where
  "strchr m s c =
     (if m s = 0 then Some None else if m s = c then Some (Some s) else strchr m (s + 1) c)"

partial_function (option) atoi_from :: "mem \<Rightarrow> addr \<Rightarrow> cint \<Rightarrow> cint option" where
  "atoi_from m s n =
     (if 48 \<le> m s \<and> m s \<le> 57 then atoi_from m (s + 1) (n * 10 + ucast (m s) - 48) else Some n)"

definition atoi :: "mem \<Rightarrow> addr \<Rightarrow> cint option" where
  "atoi m s = atoi_from m s 0"

subsection \<open>What the loops compute\<close>

lemma strlen_from_cstr:
  "cstr m (s + of_nat k) xs \<Longrightarrow> strlen_from m s k = Some (k + length xs)"
proof (induction xs arbitrary: k)
  case Nil
  then show ?case by (simp add: strlen_from.simps)
next
  case (Cons x xs)
  then have "cstr m (s + of_nat (Suc k)) xs" by (simp add: algebra_simps)
  from Cons.IH [OF this] Cons.prems show ?case by (subst strlen_from.simps) simp
qed

lemma strlen_cstr: "cstr m s xs \<Longrightarrow> strlen m s = Some (length xs)"
  using strlen_from_cstr [of m s 0 xs] by (simp add: strlen_def)

lemma strcmp_cstr:
  assumes "cstr m p xs" "cstr m q ys"
  shows "\<exists>r. strcmp m p q = Some r \<and> (r = 0 \<longleftrightarrow> xs = ys)"
  using assms
proof (induction xs arbitrary: p q ys)
  case Nil
  then show ?case
    by (cases ys) (auto simp: strcmp.simps word_uint_eq_iff)
next
  case (Cons x xs)
  show ?case
  proof (cases "m p = m q")
    case True
    with Cons.prems obtain y ys' where ys: "ys = y # ys'" "x = y"
      by (cases ys) auto
    with Cons.prems have "cstr m (p + 1) xs" "cstr m (q + 1) ys'" by auto
    from Cons.IH [OF this] Cons.prems True ys show ?thesis by (subst strcmp.simps) simp
  next
    case False
    with Cons.prems show ?thesis
      by (cases ys) (auto simp: strcmp.simps [of m p q] word_uint_eq_iff)
  qed
qed

lemma strchr_cstr:
  assumes "cstr m s xs" "c \<noteq> 0"
  shows "strchr m s c = Some (map_option (\<lambda>i. s + of_nat i) (scan (\<lambda>x. x = c) xs))"
  using assms
proof (induction xs arbitrary: s)
  case Nil
  then show ?case by (simp add: strchr.simps)
next
  case (Cons x xs)
  then show ?case
    by (subst strchr.simps) (auto simp: option.map_comp comp_def algebra_simps)
qed

text \<open>The value \<^verbatim>\<open>atoi\<close> computes from the digits at the front of a string.\<close>

definition is_digit :: "byte \<Rightarrow> bool" where
  "is_digit b \<longleftrightarrow> 48 \<le> b \<and> b \<le> 57"

definition atoi_str :: "byte list \<Rightarrow> cint" where
  "atoi_str xs = fold (\<lambda>b n. n * 10 + ucast b - 48) (takeWhile is_digit xs) 0"

lemma atoi_from_cstr:
  "cstr m s xs \<Longrightarrow>
     atoi_from m s n = Some (fold (\<lambda>b n. n * 10 + ucast b - 48) (takeWhile is_digit xs) n)"
proof (induction xs arbitrary: s n)
  case Nil
  then show ?case by (simp add: atoi_from.simps)
next
  case (Cons x xs)
  then show ?case by (subst atoi_from.simps) (auto simp flip: is_digit_def)
qed

lemma atoi_cstr: "cstr m s xs \<Longrightarrow> atoi m s = Some (atoi_str xs)"
  by (simp add: atoi_def atoi_str_def atoi_from_cstr)

lemma strncmp_0_iff:
  "strncmp m p q n = 0 \<longleftrightarrow>
     takeWhile (\<lambda>b. b \<noteq> 0) (bytes_at m p n) = takeWhile (\<lambda>b. b \<noteq> 0) (bytes_at m q n)"
  by (induction n arbitrary: p q) (auto simp: bytes_at_Suc word_uint_eq_iff)

lemma memmove_fwd_smear:
  "n < 2 ^ 64 \<Longrightarrow> memmove_fwd m (s + 1) s n = mem_fill m (s + 1) n (m s)"
proof (induction n arbitrary: m s)
  case (Suc n)
  have "memmove_fwd m (s + 1) s (Suc n) = memmove_fwd (m(s + 1 := m s)) (s + 1 + 1) (s + 1) n"
    by simp
  also have "\<dots> = mem_fill (m(s + 1 := m s)) (s + 1 + 1) n ((m(s + 1 := m s)) (s + 1))"
    using Suc.prems by (intro Suc.IH) simp
  also have "\<dots> = mem_fill m (s + 1) (Suc n) (m s)"
    using Suc.prems by (simp add: mem_fill_Suc)
  finally show ?case .
qed simp

section \<open>The same routines on arrays inside structures\<close>

text \<open>
  A \<^verbatim>\<open>char name[16]\<close> field is a list of bytes; its string is what precedes the first NUL.
\<close>

definition arr_str :: "byte list \<Rightarrow> byte list" where
  "arr_str d = takeWhile (\<lambda>b. b \<noteq> 0) d"

fun safestrcpy_arr :: "byte list \<Rightarrow> byte list \<Rightarrow> nat \<Rightarrow> nat \<Rightarrow> byte list" where
  "safestrcpy_arr d t i 0 = d[i := 0]"
| "safestrcpy_arr d t i (Suc n) =
     (let d' = d[i := t ! i]
      in if t ! i \<noteq> 0 then safestrcpy_arr d' t (Suc i) n else d'[Suc i := 0])"

text \<open>A string literal or HOL string as the bytes of a C string.\<close>

definition cbytes :: "string \<Rightarrow> byte list" where
  "cbytes s = map of_char s @ [0]"

lemma length_safestrcpy_arr [simp]: "length (safestrcpy_arr d t i n) = length d"
  by (induction n arbitrary: d i) (simp_all add: Let_def)

lemma take_safestrcpy_arr: "take i (safestrcpy_arr d t i n) = take i d"
proof (induction n arbitrary: d i)
  case (Suc n)
  have "take i (safestrcpy_arr d' t (Suc i) n) = take i d'" for d'
    using arg_cong [OF Suc.IH [where d = d' and i = "Suc i"], of "take i"] by (simp add: min_def)
  then show ?case by (simp add: Let_def)
qed simp

lemma safestrcpy_arr_str:
  assumes "i + n < length d" "i + n \<le> length t \<or> 0 \<in> set (drop i t)"
  shows "arr_str (drop i (safestrcpy_arr d t i n)) = take n (arr_str (drop i t))"
  using assms
proof (induction n arbitrary: d i)
  case 0
  then show ?case by (simp add: arr_str_def drop_update_swap Cons_nth_drop_Suc [symmetric])
next
  case (Suc n)
  let ?d = "d[i := t ! i]"
  have i: "i < length t" "i < length d" using Suc.prems by (cases "i < length t"; auto)+
  have split: "drop i xs = xs ! i # drop (Suc i) xs" if "i < length xs" for xs :: "byte list"
    using that by (rule Cons_nth_drop_Suc [symmetric])
  show ?case
  proof (cases "t ! i = 0")
    case True
    with i show ?thesis by (simp add: arr_str_def split Let_def)
  next
    case False
    with Suc.prems i have "Suc i + n \<le> length t \<or> 0 \<in> set (drop (Suc i) t)"
      by (auto simp: split)
    then have IH: "arr_str (drop (Suc i) (safestrcpy_arr ?d t (Suc i) n))
        = take n (arr_str (drop (Suc i) t))"
      using Suc.prems by (intro Suc.IH) simp_all
    have "safestrcpy_arr ?d t (Suc i) n ! i = t ! i"
      using arg_cong [OF take_safestrcpy_arr [of "Suc i" ?d t n], of "\<lambda>xs. xs ! i"] i by simp
    with False i IH show ?thesis
      by (simp add: arr_str_def split [of "safestrcpy_arr ?d t (Suc i) n"] split [of t] Let_def)
  qed
qed

lemma safestrcpy_arr_name:
  assumes "0 < length d" "length d - 1 \<le> length t \<or> 0 \<in> set t"
  shows "arr_str (safestrcpy_arr d t 0 (length d - 1)) = take (length d - 1) (arr_str t)"
  using safestrcpy_arr_str [of 0 "length d - 1" d t] assms by auto

text \<open>The array routine is the pointer routine seen through \<^const>\<open>bytes_at\<close>.\<close>

lemma bytes_at_update:
  assumes "i < n" "n \<le> 2 ^ 64"
  shows "bytes_at (m(a + of_nat i := v)) a n = (bytes_at m a n)[i := v]"
  using assms by (intro nth_equalityI) (auto simp: nth_list_update of_nat_eq_small)

lemma bytes_at_update_outside:
  assumes "\<not> in_range b n x" "n \<le> 2 ^ 64"
  shows "bytes_at (m(x := v)) b n = bytes_at m b n"
  using assms by (intro bytes_at_eqI) auto

lemma safestrcpy_loop_arr:
  assumes "i + k < n" "n \<le> 2 ^ 64" "disjoint_ranges s n t n"
  shows "bytes_at (safestrcpy_loop m (s + of_nat i) (t + of_nat i) k) s n
       = safestrcpy_arr (bytes_at m s n) (bytes_at m t n) i k"
  using assms(1)
proof (induction k arbitrary: m i)
  case 0
  then show ?case using assms(2) by (simp add: bytes_at_update del: fun_upd_apply)
next
  case (Suc k)
  let ?m = "m(s + of_nat i := m (t + of_nat i))"
  have "in_range s n (s + of_nat i)" using Suc.prems assms(2) by simp
  with assms(2,3) have t: "bytes_at ?m t n = bytes_at m t n"
    by (intro bytes_at_update_outside) (auto simp: disjoint_ranges_def)
  have s: "bytes_at ?m s n = (bytes_at m s n)[i := m (t + of_nat i)]"
    using Suc.prems assms(2) by (simp add: bytes_at_update)
  have next_i: "a + of_nat i + 1 = a + of_nat (Suc i)" for a :: addr by simp
  show ?case
    using Suc.IH [of "Suc i" ?m] Suc.prems assms(2) t s
    by (simp add: Let_def bytes_at_update next_i del: of_nat_Suc fun_upd_apply)
qed

lemma safestrcpy_arr_refines:
  assumes "0 < sint n" "disjoint_ranges s (nat (sint n)) t (nat (sint n))"
  shows "bytes_at (safestrcpy m s t n) s (nat (sint n))
       = safestrcpy_arr (bytes_at m s (nat (sint n))) (bytes_at m t (nat (sint n))) 0
           (nat (sint n) - 1)"
proof -
  have "sint n < 2 ^ 31" using sint_lt [of n] by simp
  then have "nat (sint n) \<le> 2 ^ 64" by simp
  then show ?thesis
    using safestrcpy_loop_arr [of 0 "nat (sint n) - 1" "nat (sint n)" s t m] assms
    by (simp add: safestrcpy_def)
qed

section \<open>Properties\<close>

text \<open>
  C13. The kernel's \<^verbatim>\<open>memmove\<close> copies any two byte ranges that do not wrap around the address
  space, overlapping or not: the destination ends up with the bytes the source had before
  the call, and no byte outside the destination changes.
\<close>

theorem memmove_overlap_safe:
  assumes "unat src + unat n < 2 ^ 64" "unat dst + unat n < 2 ^ 64"
  shows "bytes_at (memmove m dst src n) dst (unat n) = bytes_at m src (unat n) \<and>
    (\<forall>x. \<not> in_range dst (unat n) x \<longrightarrow> memmove m dst src n x = m x)"
proof -
  have "unat n \<le> 2 ^ 64" using unat_less [of n] by simp
  then show ?thesis
    by (auto simp: memmove_copy [OF assms] mem_copy_def intro!: bytes_at_eqI)
qed

theorem memmove_overlap_safe_witness:
  "bytes_at (memmove (\<lambda>a. ucast a) 12 10 4) 12 4 = [10, 11, 12, 13]"
  using memmove_overlap_safe [of 10 4 12 "\<lambda>a. ucast a"]
  by (simp add: bytes_at_def upt_rec)

text \<open>
  C14. \<^verbatim>\<open>memset\<close> sets exactly the \<open>n\<close> bytes from \<open>dst\<close> to the low byte of \<open>c\<close>, whether it takes
  the path with 32-bit stores or the path with byte stores, for every length below 4 GB.
\<close>

theorem memset_sets_bytes:
  assumes "unat n < 2 ^ 32"
  shows "bytes_at (memset m dst c n) dst (unat n) = replicate (unat n) (ucast c) \<and>
    (\<forall>x. \<not> in_range dst (unat n) x \<longrightarrow> memset m dst c n x = m x)"
  using assms by (auto simp: memset_fill mem_fill_def list_eq_iff_nth_eq)

theorem memset_sets_bytes_witness:
  "bytes_at (memset (\<lambda>_. 7) 4096 0 8) 4096 8 = replicate 8 0 \<and> memset (\<lambda>_. 7) 4096 0 8 4104 = 7"
  using memset_sets_bytes [of 8 "\<lambda>_. 7" 4096 0] by (simp add: in_range_def)

text \<open>
  C15. \<^verbatim>\<open>safestrcpy\<close> into a buffer of \<open>n\<close> bytes leaves there a NUL-terminated string: the source
  string, cut to \<open>n - 1\<close> characters when it is longer. Buffer and source may not overlap.
\<close>

theorem safestrcpy_terminates_string:
  assumes "0 < sint n" "disjoint_ranges s (nat (sint n)) t (nat (sint n))"
  shows "arr_str (bytes_at (safestrcpy m s t n) s (nat (sint n)))
       = take (nat (sint n) - 1) (arr_str (bytes_at m t (nat (sint n)))) \<and>
    0 \<in> set (bytes_at (safestrcpy m s t n) s (nat (sint n)))"
proof -
  let ?d = "bytes_at (safestrcpy m s t n) s (nat (sint n))"
  have eq: "arr_str ?d = take (nat (sint n) - 1) (arr_str (bytes_at m t (nat (sint n))))"
    using safestrcpy_arr_name [of "bytes_at m s (nat (sint n))" "bytes_at m t (nat (sint n))"]
      safestrcpy_arr_refines [OF assms, of m] assms(1) by simp
  then have "length (arr_str ?d) < length ?d" using assms(1) by simp
  then have "takeWhile (\<lambda>b. b \<noteq> 0) ?d \<noteq> ?d" by (metis arr_str_def less_irrefl)
  then have "0 \<in> set ?d" by (auto simp: takeWhile_eq_all_conv)
  with eq show ?thesis ..
qed

theorem safestrcpy_terminates_string_witness:
  "arr_str (bytes_at (safestrcpy (\<lambda>a. if a < 6 then ucast a + 65 else 0) 100 0 4) 100 4)
     = [65, 66, 67]"
proof -
  have "disjoint_ranges 100 4 0 4"
    unfolding disjoint_ranges_def in_range_def
  proof (intro allI notI)
    fix x :: addr
    assume "unat (x - 100) < 4 \<and> unat (x - 0) < 4"
    then have "unat x < 4" "unat (x - 100) < 4" by auto
    moreover from \<open>unat x < 4\<close> have "unat x = 0 \<or> unat x = 1 \<or> unat x = 2 \<or> unat x = 3" by linarith
    then have "x = 0 \<or> x = 1 \<or> x = 2 \<or> x = 3" by (simp add: word_unat_eq_iff)
    ultimately show False by auto
  qed
  then show ?thesis
    using safestrcpy_terminates_string [of 4 100 0 "\<lambda>a. if a < 6 then ucast a + 65 else 0"]
    by (simp add: bytes_at_def upt_rec arr_str_def)
qed

end
