(* ===== verification/Pages.thy ===== *)
theory Pages
  imports KString
begin

unbundle bit_operations_syntax

text \<open>
  The page arithmetic of \<^verbatim>\<open>mmu.h\<close> and \<^verbatim>\<open>memlayout.h\<close>: rounding, the kernel's direct map of physical
  memory, table indices and entry flags, with the facts the allocator and the page-table code
  share: every byte lies in exactly one page.
\<close>

section \<open>Macros\<close>

abbreviation (input) "PGSIZE \<equiv> 4096 :: addr"
abbreviation (input) "KERNBASE \<equiv> 0xFFFF800000000000 :: addr"
abbreviation (input) "PHYSTOP \<equiv> 0xE000000 :: addr"
abbreviation (input) "PTE_P \<equiv> 1 :: addr"
abbreviation (input) "PTE_W \<equiv> 2 :: addr"
abbreviation (input) "PTE_U \<equiv> 4 :: addr"
abbreviation (input) "PTE_PWT \<equiv> 8 :: addr"
abbreviation (input) "PTE_PCD \<equiv> 16 :: addr"
abbreviation (input) "PTE_PS \<equiv> 128 :: addr"

definition PGROUNDDOWN :: "addr \<Rightarrow> addr" where
  "PGROUNDDOWN a = a AND NOT (PGSIZE - 1)"

definition PGROUNDUP :: "addr \<Rightarrow> addr" where
  "PGROUNDUP a = (a + (PGSIZE - 1)) AND NOT (PGSIZE - 1)"

definition V2P :: "addr \<Rightarrow> addr" where
  "V2P a = a - KERNBASE"

definition P2V :: "addr \<Rightarrow> addr" where
  "P2V a = a + KERNBASE"

definition PMX :: "addr \<Rightarrow> addr" where
  "PMX va = drop_bit 39 va AND 0x1FF"

definition PDPX :: "addr \<Rightarrow> addr" where
  "PDPX va = drop_bit 30 va AND 0x1FF"

definition PDX :: "addr \<Rightarrow> addr" where
  "PDX va = drop_bit 21 va AND 0x1FF"

definition PTX :: "addr \<Rightarrow> addr" where
  "PTX va = drop_bit 12 va AND 0x1FF"

definition PTE_ADDR :: "addr \<Rightarrow> addr" where
  "PTE_ADDR pte = pte AND NOT 0xFFF"

definition PTE_FLAGS :: "addr \<Rightarrow> addr" where
  "PTE_FLAGS pte = pte AND 0xFFF"

section \<open>Rounding\<close>

lemma and_low: "a AND 0xFFF = a mod 4096" for a :: addr
proof -
  have m: "(0xFFF :: addr) = mask 12" by (simp add: mask_eq_exp_minus_1)
  have "a AND 0xFFF = take_bit 12 a" unfolding m by (simp add: take_bit_eq_mask)
  also have "\<dots> = a mod 4096" by (simp add: take_bit_eq_mod)
  finally show ?thesis .
qed

lemma and_not_low: "a AND NOT 0xFFF = a - a mod 4096" for a :: addr
proof -
  have "(a AND NOT 0xFFF) + (a AND 0xFFF) = (a AND NOT 0xFFF) OR (a AND 0xFFF)"
    by (rule disjunctive_add) (auto simp: bit_simps)
  also have "\<dots> = a" by (rule bit_word_eqI) (auto simp: bit_simps)
  finally show ?thesis unfolding and_low by (simp add: algebra_simps)
qed

lemma page_mask: "(0xFFF :: addr) = 4096 - 1"
  by simp

lemma PGROUNDDOWN_minus: "PGROUNDDOWN a = a - a mod 4096"
  by (simp only: PGROUNDDOWN_def and_not_low flip: page_mask)

lemma PTE_ADDR_minus: "PTE_ADDR a = a - a mod 4096"
  by (simp only: PTE_ADDR_def and_not_low)

lemma PGROUNDUP_down: "PGROUNDUP a = PGROUNDDOWN (a + 4095)"
  by (simp add: PGROUNDUP_def PGROUNDDOWN_def)

lemma unat_mod_page: "unat (a mod 4096) = unat a mod 4096" for a :: addr
  by (simp add: unat_mod)

lemma unat_PGROUNDDOWN: "unat (PGROUNDDOWN a) = unat a - unat a mod 4096"
proof -
  have "a mod 4096 \<le> a" by (simp add: word_le_nat_alt unat_mod_page)
  then show ?thesis by (simp add: PGROUNDDOWN_minus unat_sub unat_mod_page)
qed

lemma aligned_iff: "p mod 4096 = 0 \<longleftrightarrow> unat p mod 4096 = 0" for p :: addr
  by (simp add: word_unat_eq_iff unat_mod_page)

lemma PGROUNDDOWN_aligned [simp]: "PGROUNDDOWN a mod 4096 = 0"
  by (simp add: aligned_iff unat_PGROUNDDOWN minus_mod_eq_mult_div)

lemma PGROUNDDOWN_le: "PGROUNDDOWN a \<le> a"
  by (simp add: word_le_nat_alt unat_PGROUNDDOWN)

lemma PGROUNDDOWN_id: "p mod 4096 = 0 \<Longrightarrow> PGROUNDDOWN p = p"
  by (simp add: PGROUNDDOWN_minus)

lemma unat_PGROUNDUP:
  assumes "unat a + 4095 < 2 ^ 64"
  shows "unat (PGROUNDUP a) = (unat a + 4095) div 4096 * 4096"
  using assms
  by (simp add: PGROUNDUP_down unat_PGROUNDDOWN unat_add_no_wrap minus_mod_eq_div_mult)

section \<open>Bytes and pages\<close>

lemma aligned_room: "p mod 4096 = 0 \<Longrightarrow> unat p + 4096 \<le> 2 ^ 64" for p :: addr
proof -
  assume "p mod 4096 = 0"
  then obtain c where "unat p = 4096 * c" by (auto simp: aligned_iff)
  with unat_less [of p] show ?thesis by simp
qed

lemma unat_offset_page:
  fixes p :: addr
  assumes "p mod 4096 = 0" "i < 4096"
  shows "unat (p + of_nat i) = unat p + i"
  using aligned_room [OF assms(1)] assms(2)
  by (subst unat_add_no_wrap) (simp_all add: unat_of_nat_small)

lemma in_page_iff:
  assumes "p mod 4096 = 0"
  shows "in_range p 4096 x \<longleftrightarrow> PGROUNDDOWN x = p"
proof
  assume r: "in_range p 4096 x"
  define i where "i = unat (x - p)"
  have i: "i < 4096" using r by (simp add: in_range_def i_def)
  have "x = p + of_nat i" by (simp add: i_def)
  with unat_offset_page [OF assms i] have "unat x = unat p + i" by simp
  moreover obtain c where "unat p = 4096 * c" using assms by (auto simp: aligned_iff)
  ultimately have "unat (PGROUNDDOWN x) = unat p" using i by (simp add: unat_PGROUNDDOWN)
  then show "PGROUNDDOWN x = p" by (simp add: word_unat_eq_iff)
next
  assume "PGROUNDDOWN x = p"
  then have "x - p = x mod 4096" by (simp add: PGROUNDDOWN_minus algebra_simps)
  then show "in_range p 4096 x" by (simp add: in_range_def unat_mod_page)
qed

lemma PGROUNDDOWN_offset:
  "p mod 4096 = 0 \<Longrightarrow> i < 4096 \<Longrightarrow> PGROUNDDOWN (p + of_nat i) = p"
  by (simp flip: in_page_iff)

lemma pages_disjoint:
  "p mod 4096 = 0 \<Longrightarrow> q mod 4096 = 0 \<Longrightarrow> p \<noteq> q \<Longrightarrow> disjoint_ranges p 4096 q 4096"
  by (auto simp: disjoint_ranges_def in_page_iff)

text \<open>An aligned 8-byte word lies in one page.\<close>

lemma word_in_page:
  fixes p :: addr
  assumes p: "p mod 4096 = 0" and i: "i < 512" and x: "in_range (p + 8 * of_nat i) 8 x"
  shows "PGROUNDDOWN x = p"
proof -
  define k where "k = unat (x - (p + 8 * of_nat i))"
  have k: "k < 8" using x by (simp add: in_range_def k_def)
  have "x = p + 8 * of_nat i + of_nat k" by (simp add: k_def)
  also have "\<dots> = p + of_nat (8 * i + k)" by simp
  finally have "x = p + of_nat (8 * i + k)" .
  moreover have "8 * i + k < 4096" using i k by simp
  ultimately show ?thesis using p by (simp only: PGROUNDDOWN_offset)
qed

section \<open>Usable pages\<close>

text \<open>The pages \<^verbatim>\<open>kfree\<close> accepts; \<open>e\<close> is the linker's \<^verbatim>\<open>end\<close> symbol.\<close>

definition page_ok :: "addr \<Rightarrow> addr \<Rightarrow> bool" where
  "page_ok e p \<longleftrightarrow> p mod PGSIZE = 0 \<and> e \<le> p \<and> V2P p < PHYSTOP"

lemma page_ok_aligned: "page_ok e p \<Longrightarrow> p mod 4096 = 0"
  by (simp add: page_ok_def)

lemma unat_V2P_ok:
  assumes "page_ok e p"
  shows "unat p = 0xFFFF800000000000 + unat (V2P p)" "unat (V2P p) < 0xE000000"
proof -
  show small: "unat (V2P p) < 0xE000000"
    using assms by (simp add: page_ok_def word_less_nat_alt)
  have "unat (KERNBASE + V2P p) = unat KERNBASE + unat (V2P p)"
    using small by (intro unat_add_no_wrap) simp
  moreover have "KERNBASE + V2P p = p" unfolding V2P_def by (rule add.commute [THEN trans]) (rule diff_add_cancel)
  ultimately show "unat p = 0xFFFF800000000000 + unat (V2P p)" by simp
qed

lemma page_ok_nz: "page_ok e p \<Longrightarrow> p \<noteq> 0"
  using unat_V2P_ok [of e p] by auto

lemma P2V_V2P [simp]: "P2V (V2P p) = p" "V2P (P2V p) = p"
  by (simp_all add: P2V_def V2P_def)

end
