(* ===== verification/Sched.thy ===== *)
theory Sched
  imports Spinlock Pages
begin

text \<open>
  The process table of \<^verbatim>\<open>proc.h\<close> and the part of \<^verbatim>\<open>proc.c\<close> that only moves processes between
  states: \<^verbatim>\<open>wakeup\<close>, \<^verbatim>\<open>kill\<close>, \<^verbatim>\<open>sleep\<close>, \<^verbatim>\<open>yield\<close>, \<^verbatim>\<open>sched\<close> and the scheduler loop, with the
  address-space switch of \<^verbatim>\<open>vm.c\<close> they use. A function that calls \<^verbatim>\<open>swtch\<close> is split there:
  the part before the switch (\<open>_enter\<close>) and the part run when the process is resumed
  (\<open>_resume\<close>); in between other processes run.
\<close>

section \<open>State\<close>

text \<open>\<^verbatim>\<open>x86.h\<close>, \<^verbatim>\<open>struct trapframe\<close>.\<close>

record trapframe =
  tf_rax :: addr
  tf_rbx :: addr
  tf_rcx :: addr
  tf_rdx :: addr
  tf_rbp :: addr
  tf_rsi :: addr
  tf_rdi :: addr
  tf_r8 :: addr
  tf_r9 :: addr
  tf_r10 :: addr
  tf_r11 :: addr
  tf_r12 :: addr
  tf_r13 :: addr
  tf_r14 :: addr
  tf_r15 :: addr
  tf_trapno :: addr
  tf_err :: addr
  tf_rip :: addr
  tf_cs :: addr
  tf_rflags :: addr
  tf_rsp :: addr
  tf_ss :: addr

datatype procstate = UNUSED | EMBRYO | SLEEPING | RUNNABLE | RUNNING | ZOMBIE

text \<open>
  The addresses processes sleep on: \<^verbatim>\<open>&ticks\<close>, a \<^verbatim>\<open>struct proc\<close> (in \<^verbatim>\<open>wait\<close>), the counters of
  a pipe, the console input buffer, the log, a sleep lock; \<open>NoChan\<close> is the null pointer.
\<close>

datatype chan =
    NoChan | Ticks_chan | Proc_chan nat | Pipe_nread addr | Pipe_nwrite addr
  | Input_chan | Log_chan | Inode_chan nat | Buf_chan nat

text \<open>
  \<^verbatim>\<open>proc.h\<close>, \<^verbatim>\<open>struct proc\<close>. Pointers to processes, open files and inodes are indices into
  their tables. The saved kernel registers (\<^verbatim>\<open>context\<close>) are not modelled.
\<close>

record proc =
  sz :: addr
  pgdir :: addr
  kstack :: addr
  pstate :: procstate
  pid :: cint
  parent :: "nat option"
  tf :: trapframe
  chan :: chan
  killed :: cint
  ofile :: "nat option list"
  cwd :: "nat option"
  pname :: "byte list"

abbreviation (input) "NPROC \<equiv> 64 :: nat"
abbreviation (input) "NOFILE \<equiv> 16 :: nat"
abbreviation (input) "KSTACKSIZE \<equiv> 4096 :: addr"

text \<open>
  The globals of \<^verbatim>\<open>proc.c\<close>, the tick counter of \<^verbatim>\<open>trap.c\<close>, the kernel page table of
  \<^verbatim>\<open>vm.c\<close> and the two hardware registers a process switch loads.
\<close>

record kproc = machine +
  ptable :: "proc list"
  curproc :: "nat option"
  nextpid :: cint
  initproc :: "nat option"
  ticks :: uint
  kpml4 :: addr
  cr3 :: addr
  tss_rsp0 :: addr

definition upd_proc :: "nat \<Rightarrow> (proc \<Rightarrow> proc) \<Rightarrow> 'a kproc_scheme \<Rightarrow> 'a kproc_scheme" where
  "upd_proc i f s = s\<lparr>ptable := (ptable s)[i := f (ptable s ! i)]\<rparr>"

section \<open>Operations\<close>

definition wakeup1 :: "chan \<Rightarrow> 'a kproc_scheme \<Rightarrow> 'a kproc_scheme" where
  "wakeup1 c s =
     s\<lparr>ptable := map (\<lambda>p. if pstate p = SLEEPING \<and> chan p = c then p\<lparr>pstate := RUNNABLE\<rparr> else p)
                   (ptable s)\<rparr>"

definition wakeup :: "chan \<Rightarrow> 'a kproc_scheme \<Rightarrow> stop + 'a kproc_scheme" where
  "wakeup c s = andthen (acquire Ptable_lock s) (\<lambda>s. release Ptable_lock (wakeup1 c s))"

definition kill :: "cint \<Rightarrow> 'a kproc_scheme \<Rightarrow> stop + cint \<times> 'a kproc_scheme" where
  "kill kpid s =
     andthen (acquire Ptable_lock s) (\<lambda>s.
       case scan (\<lambda>p. pid p = kpid) (ptable s) of
         Some i \<Rightarrow>
           let s1 = upd_proc i (\<lambda>p. p\<lparr>killed := 1\<rparr>) s;
               s2 = (if pstate (ptable s1 ! i) = SLEEPING
                     then upd_proc i (\<lambda>p. p\<lparr>pstate := RUNNABLE\<rparr>) s1 else s1)
           in andthen (release Ptable_lock s2) (\<lambda>s. Inr (0, s))
       | None \<Rightarrow> andthen (release Ptable_lock s) (\<lambda>s. Inr (-1, s)))"

text \<open>\<^verbatim>\<open>vm.c\<close>: loading a process's page table and kernel stack, or the kernel's page table.\<close>

definition switchuvm :: "nat \<Rightarrow> 'a kproc_scheme \<Rightarrow> stop + 'a kproc_scheme" where
  "switchuvm i s =
     (let s1 = pushcli s
      in if pgdir (ptable s1 ! i) = 0 then Inl (Panic ''switchuvm: no pgdir'')
         else popcli (s1\<lparr>tss_rsp0 := kstack (ptable s1 ! i) + KSTACKSIZE,
                        cr3 := pgdir (ptable s1 ! i) - KERNBASE\<rparr>))"

definition switchkvm :: "'a kproc_scheme \<Rightarrow> 'a kproc_scheme" where
  "switchkvm s = s\<lparr>cr3 := kpml4 s - KERNBASE\<rparr>"

text \<open>\<^verbatim>\<open>sched\<close> up to its \<^verbatim>\<open>swtch\<close>; the saved \<^verbatim>\<open>intena\<close> is restored when the process resumes.\<close>

definition sched :: "nat \<Rightarrow> 'a kproc_scheme \<Rightarrow> stop + bool \<times> 'a kproc_scheme" where
  "sched i s =
     (if \<not> holding Ptable_lock s then Inl (Panic ''sched ptable.lock'')
      else if ncli (cpu s) \<noteq> 1 then Inl (Panic ''sched locks'')
      else if pstate (ptable s ! i) = RUNNING then Inl (Panic ''sched running'')
      else if if_flag (cpu s) then Inl (Panic ''sched interruptible'')
      else Inr (intena (cpu s), s))"

definition sched_resume :: "bool \<Rightarrow> 'a kproc_scheme \<Rightarrow> 'a kproc_scheme" where
  "sched_resume ie s = s\<lparr>cpu := (cpu s)\<lparr>intena := ie\<rparr>\<rparr>"

definition yield_enter :: "nat \<Rightarrow> 'a kproc_scheme \<Rightarrow> stop + bool \<times> 'a kproc_scheme" where
  "yield_enter i s =
     andthen (acquire Ptable_lock s) (\<lambda>s. sched i (upd_proc i (\<lambda>p. p\<lparr>pstate := RUNNABLE\<rparr>) s))"

definition yield_resume :: "bool \<Rightarrow> 'a kproc_scheme \<Rightarrow> stop + 'a kproc_scheme" where
  "yield_resume ie s = release Ptable_lock (sched_resume ie s)"

text \<open>
  \<^verbatim>\<open>sleep\<close>: \<^verbatim>\<open>ptable.lock\<close> is taken before the caller's lock is released. \<open>sleep_locks\<close> is
  that hand-over, \<open>sleep_enter\<close> the whole of \<^verbatim>\<open>sleep\<close> up to \<^verbatim>\<open>swtch\<close>.
\<close>

definition sleep_locks :: "lockid \<Rightarrow> 'a kproc_scheme \<Rightarrow> stop + 'a kproc_scheme" where
  "sleep_locks lk s =
     (if lk \<noteq> Ptable_lock then andthen (acquire Ptable_lock s) (release lk) else Inr s)"

definition sleep_enter :: "chan \<Rightarrow> lockid \<Rightarrow> 'a kproc_scheme \<Rightarrow> stop + bool \<times> 'a kproc_scheme" where
  "sleep_enter c lk s =
     (case curproc s of
        None \<Rightarrow> Inl (Panic ''sleep'')
      | Some i \<Rightarrow> andthen (sleep_locks lk s) (\<lambda>s.
          sched i (upd_proc i (\<lambda>p. p\<lparr>chan := c, pstate := SLEEPING\<rparr>) s)))"

definition sleep_resume :: "nat \<Rightarrow> lockid \<Rightarrow> bool \<Rightarrow> 'a kproc_scheme \<Rightarrow> stop + 'a kproc_scheme" where
  "sleep_resume i lk ie s =
     (let s1 = upd_proc i (\<lambda>p. p\<lparr>chan := NoChan\<rparr>) (sched_resume ie s)
      in if lk \<noteq> Ptable_lock then andthen (release Ptable_lock s1) (acquire lk) else Inr s1)"

text \<open>
  \<^verbatim>\<open>scheduler\<close>: \<open>scheduler_scan\<close> is its inner loop over the slots still to visit, up to the
  first runnable process it switches to (with the slots that remain) or the end of the
  table; \<open>skipped\<close> counts idle slots since the last switch. \<open>scheduler_back\<close> is what the
  loop does when the process switches back.
\<close>

fun scheduler_scan ::
    "nat list \<Rightarrow> nat \<Rightarrow> 'a kproc_scheme \<Rightarrow>
       stop + nat \<times> (nat \<times> nat list) option \<times> 'a kproc_scheme" where
  "scheduler_scan [] skipped s = Inr (skipped, None, s)"
| "scheduler_scan (i # is) skipped s =
     (if pstate (ptable s ! i) \<noteq> RUNNABLE then scheduler_scan is (Suc skipped) s
      else andthen (switchuvm i (s\<lparr>curproc := Some i\<rparr>)) (\<lambda>s.
             Inr (0, Some (i, is), upd_proc i (\<lambda>p. p\<lparr>pstate := RUNNING\<rparr>) s)))"

definition scheduler_back :: "'a kproc_scheme \<Rightarrow> 'a kproc_scheme" where
  "scheduler_back s = (switchkvm s)\<lparr>curproc := None\<rparr>"

text \<open>
  The start and the end of one round of the outer loop. At the end the lock is dropped, and
  the CPU halts (the flag in the result) when more than a table's worth of slots was idle.
\<close>

definition scheduler_begin :: "'a kproc_scheme \<Rightarrow> stop + 'a kproc_scheme" where
  "scheduler_begin s = acquire Ptable_lock (s\<lparr>cpu := (cpu s)\<lparr>if_flag := True\<rparr>\<rparr>)"

definition scheduler_end :: "nat \<Rightarrow> 'a kproc_scheme \<Rightarrow> stop + bool \<times> nat \<times> 'a kproc_scheme" where
  "scheduler_end skipped s =
     andthen (release Ptable_lock s) (\<lambda>s.
       Inr (if NPROC < skipped then (True, 0, s) else (False, skipped, s)))"

section \<open>Frame facts\<close>

lemma upd_proc_simps [simp]:
  "locks (upd_proc i f s) = locks s"
  "cpu (upd_proc i f s) = cpu s"
  "curproc (upd_proc i f s) = curproc s"
  "ticks (upd_proc i f s) = ticks s"
  "length (ptable (upd_proc i f s)) = length (ptable s)"
  "i < length (ptable s) \<Longrightarrow> ptable (upd_proc i f s) ! i = f (ptable s ! i)"
  "j \<noteq> i \<Longrightarrow> ptable (upd_proc i f s) ! j = ptable s ! j"
  by (simp_all add: upd_proc_def)

lemma upd_proc_update [simp]:
  "upd_proc i f (s\<lparr>cpu := c\<rparr>) = (upd_proc i f s)\<lparr>cpu := c\<rparr>"
  "upd_proc i f (s\<lparr>locks := L\<rparr>) = (upd_proc i f s)\<lparr>locks := L\<rparr>"
  by (simp_all add: upd_proc_def)

lemma wakeup1_simps [simp]:
  "locks (wakeup1 c s) = locks s"
  "cpu (wakeup1 c s) = cpu s"
  "curproc (wakeup1 c s) = curproc s"
  "length (ptable (wakeup1 c s)) = length (ptable s)"
  by (simp_all add: wakeup1_def)

lemma wakeup1_update [simp]:
  "wakeup1 c (s\<lparr>cpu := x\<rparr>) = (wakeup1 c s)\<lparr>cpu := x\<rparr>"
  "wakeup1 c (s\<lparr>locks := L\<rparr>) = (wakeup1 c s)\<lparr>locks := L\<rparr>"
  by (simp_all add: wakeup1_def)

text \<open>
  The shape every operation under one lock has: take the lock, compute a new state that
  keeps locks and CPU, release it.
\<close>

lemma critical_section:
  fixes s :: "'a machine_scheme"
  assumes "lock_free l s" "cpu_ok (cpu s)"
    and "\<And>c L. f (s\<lparr>cpu := c, locks := L\<rparr>) = (f s)\<lparr>cpu := c, locks := L\<rparr>"
    and "locks (f s) = locks s" "cpu (f s) = cpu s"
  shows "andthen (acquire l s) (\<lambda>s. release l (f s)) = Inr ((f s)\<lparr>cpu := settle (cpu s)\<rparr>)"
proof -
  let ?c = "cpu_enter (cpu s)"
  let ?L = "(locks s)(l := take_lock (cpu_id (cpu s)) (locks s l))"
  have "andthen (acquire l s) (\<lambda>s. release l (f s)) = release l ((f s)\<lparr>cpu := ?c, locks := ?L\<rparr>)"
    using assms(1) by (simp add: run_simps assms(3) del: fun_upd_apply)
  also have "\<dots> = Inr ((f s)\<lparr>cpu := ?c, locks := ?L, cpu := settle (cpu s), locks := locks s\<rparr>)"
    using assms(1,2) by (intro release_taken) (simp_all add: lock_free_def)
  also have "(f s)\<lparr>cpu := ?c, locks := ?L, cpu := settle (cpu s), locks := locks s\<rparr>
      = (f s)\<lparr>cpu := settle (cpu s)\<rparr>"
    using assms(4) by (cases "f s") simp
  finally show ?thesis .
qed

lemma wakeup_run [run_simps]:
  assumes "lock_free Ptable_lock s" "cpu_ok (cpu s)"
  shows "wakeup c s = Inr ((wakeup1 c s)\<lparr>cpu := settle (cpu s)\<rparr>)"
  unfolding wakeup_def using assms by (intro critical_section) simp_all

lemma kill_found [run_simps]:
  assumes "lock_free Ptable_lock s" "cpu_ok (cpu s)" "scan (\<lambda>p. pid p = kpid) (ptable s) = Some i"
  shows "kill kpid s =
    Inr (0, (upd_proc i (\<lambda>p. p\<lparr>killed := 1,
           pstate := (if pstate p = SLEEPING then RUNNABLE else pstate p)\<rparr>) s)
         \<lparr>cpu := settle (cpu s)\<rparr>)"
proof -
  let ?f = "\<lambda>p. p\<lparr>killed := 1, pstate := (if pstate p = SLEEPING then RUNNABLE else pstate p)\<rparr>"
  have i: "i < length (ptable s)" using assms(3) by (rule scan_SomeD)
  have "kill kpid s = andthen (andthen (acquire Ptable_lock s)
      (\<lambda>s. release Ptable_lock (upd_proc i ?f s))) (\<lambda>s. Inr (0, s))"
    using assms(1,3) i
    by (auto simp: kill_def run_simps andthen_assoc Let_def upd_proc_def intro!: arg_cong2 [of _ _ _ _ andthen])
  also have "andthen (acquire Ptable_lock s) (\<lambda>s. release Ptable_lock (upd_proc i ?f s))
      = Inr ((upd_proc i ?f s)\<lparr>cpu := settle (cpu s)\<rparr>)"
    using assms(1,2) by (intro critical_section) simp_all
  finally show ?thesis by simp
qed

lemma kill_missing [run_simps]:
  assumes "lock_free Ptable_lock s" "cpu_ok (cpu s)" "scan (\<lambda>p. pid p = kpid) (ptable s) = None"
  shows "kill kpid s = Inr (-1, s\<lparr>cpu := settle (cpu s)\<rparr>)"
proof -
  have "kill kpid s = andthen (andthen (acquire Ptable_lock s) (release Ptable_lock)) (\<lambda>s. Inr (-1, s))"
    using assms(1,3) by (simp add: kill_def run_simps andthen_assoc)
  with acquire_release [OF assms(1,2)] show ?thesis by simp
qed

section \<open>Sleeping\<close>

lemma sleep_locks_run:
  assumes "holding lk s" "lk \<noteq> Ptable_lock" "lock_free Ptable_lock s"
    and "ncli (cpu s) = 1" "\<not> if_flag (cpu s)"
  shows "sleep_locks lk s = Inr (s\<lparr>locks := (locks s)
      (Ptable_lock := take_lock (cpu_id (cpu s)) (locks s Ptable_lock),
       lk := (locks s lk)\<lparr>locked := 0, lk_cpu := None\<rparr>)\<rparr>)"
  using assms
  by (cases "cpu s")
     (auto simp: sleep_locks_def run_simps release_def holding_def popcli_def cpu_enter_def Let_def
        intro!: machine.equality)

lemma sleep_enter_run:
  assumes "curproc s = Some i" "i < length (ptable s)"
    and "holding lk s" "lk \<noteq> Ptable_lock" "lock_free Ptable_lock s"
    and "ncli (cpu s) = 1" "\<not> if_flag (cpu s)"
  shows "sleep_enter c lk s = Inr (intena (cpu s),
      upd_proc i (\<lambda>p. p\<lparr>chan := c, pstate := SLEEPING\<rparr>) (s\<lparr>locks := (locks s)
        (Ptable_lock := take_lock (cpu_id (cpu s)) (locks s Ptable_lock),
         lk := (locks s lk)\<lparr>locked := 0, lk_cpu := None\<rparr>)\<rparr>))"
  using assms
  by (simp add: sleep_enter_def sleep_locks_run sched_def holding_def upd_proc_def)

text \<open>Waking on another CPU while the sleeper still holds \<^verbatim>\<open>ptable.lock\<close> has to wait.\<close>

text \<open>Waking up and going to sleep change the process table, the locks and the CPU only.\<close>

lemma wakeup_frame:
  assumes "wakeup c s = Inr s'"
  shows "\<exists>pt x k. s' = s\<lparr>ptable := pt, cpu := x, locks := k\<rparr>"
proof -
  obtain s1 where s1: "acquire Ptable_lock s = Inr s1" "release Ptable_lock (wakeup1 c s1) = Inr s'"
    using assms by (auto simp: wakeup_def andthen_Inr_iff)
  from acquire_frame [OF s1(1)] release_frame [OF s1(2)] obtain c1 k1 c2 k2
    where "s1 = s\<lparr>cpu := c1, locks := k1\<rparr>" "s' = (wakeup1 c s1)\<lparr>cpu := c2, locks := k2\<rparr>" by blast
  then have "s' = s\<lparr>ptable := ptable s', cpu := c2, locks := k2\<rparr>" by (simp add: wakeup1_def)
  then show ?thesis by blast
qed

lemma sleep_enter_frame:
  assumes "sleep_enter c lk s = Inr (ie, s')"
  shows "\<exists>pt x k. s' = s\<lparr>ptable := pt, cpu := x, locks := k\<rparr>"
proof -
  obtain i s1 where i: "curproc s = Some i" "sleep_locks lk s = Inr s1"
    and s': "s' = upd_proc i (\<lambda>p. p\<lparr>chan := c, pstate := SLEEPING\<rparr>) s1"
    using assms by (auto simp: sleep_enter_def andthen_Inr_iff sched_def split: option.splits if_splits)
  obtain x k where "s1 = s\<lparr>cpu := x, locks := k\<rparr>"
  proof (cases "lk = Ptable_lock")
    case True
    then have "s1 = s\<lparr>cpu := cpu s, locks := locks s\<rparr>" using i(2) by (simp add: sleep_locks_def)
    then show ?thesis by (rule that)
  next
    case False
    then obtain s2 where s2: "acquire Ptable_lock s = Inr s2" "release lk s2 = Inr s1"
      using i(2) by (auto simp: sleep_locks_def andthen_Inr_iff)
    from acquire_frame [OF s2(1)] release_frame [OF s2(2)] obtain c1 k1 c2 k2
      where "s2 = s\<lparr>cpu := c1, locks := k1\<rparr>" "s1 = s2\<lparr>cpu := c2, locks := k2\<rparr>" by blast
    then have "s1 = s\<lparr>cpu := c2, locks := k2\<rparr>" by simp
    then show ?thesis by (rule that)
  qed
  then have "s' = s\<lparr>ptable := ptable s', cpu := x, locks := k\<rparr>" by (simp add: s' upd_proc_def)
  then show ?thesis by blast
qed

lemma wakeup_spins:
  assumes "holding Ptable_lock s" "cpu_id c' \<noteq> cpu_id (cpu s)"
  shows "wakeup ch (s\<lparr>cpu := c'\<rparr>) = Inl Spin"
proof -
  have "acquire Ptable_lock (s\<lparr>cpu := c'\<rparr>) = Inl Spin"
    using assms by (intro acquire_busy) (auto simp: holding_def)
  then show ?thesis by (simp add: wakeup_def)
qed

lemma wakeup1_nth:
  "i < length (ptable s) \<Longrightarrow> ptable (wakeup1 c s) ! i =
     (if pstate (ptable s ! i) = SLEEPING \<and> chan (ptable s ! i) = c
      then (ptable s ! i)\<lparr>pstate := RUNNABLE\<rparr> else ptable s ! i)"
  by (simp add: wakeup1_def)

section \<open>The scheduler\<close>

abbreviation runnable :: "'a kproc_scheme \<Rightarrow> nat \<Rightarrow> bool" where
  "runnable s i \<equiv> pstate (ptable s ! i) = RUNNABLE"

lemma switchuvm_run [run_simps]:
  assumes "cpu_ok (cpu s)" "pgdir (ptable s ! i) \<noteq> 0"
  shows "switchuvm i s = Inr (s\<lparr>tss_rsp0 := kstack (ptable s ! i) + KSTACKSIZE,
      cr3 := pgdir (ptable s ! i) - KERNBASE, cpu := settle (cpu s)\<rparr>)"
proof -
  let ?s = "s\<lparr>cpu := cpu_enter (cpu s), tss_rsp0 := kstack (ptable s ! i) + KSTACKSIZE,
      cr3 := pgdir (ptable s ! i) - KERNBASE\<rparr>"
  have "switchuvm i s = popcli ?s"
    using assms(2) by (simp add: switchuvm_def pushcli_enter)
  also have "\<dots> = Inr (?s\<lparr>cpu := settle (cpu s)\<rparr>)"
    using assms(1) by (intro popcli_entered) simp_all
  finally show ?thesis by simp
qed

text \<open>One scan: it switches to the first runnable slot left, or reaches the end.\<close>

lemma scheduler_scan_none:
  "\<forall>i \<in> set is. \<not> runnable s i \<Longrightarrow> scheduler_scan is k s = Inr (k + length is, None, s)"
  by (induction "is" arbitrary: k) auto

lemma scheduler_scan_first:
  assumes "\<forall>i \<in> set pre. \<not> runnable s i" "runnable s i" "pgdir (ptable s ! i) \<noteq> 0" "cpu_ok (cpu s)"
  shows "scheduler_scan (pre @ i # post) k s = Inr (0, Some (i, post),
      upd_proc i (\<lambda>p. p\<lparr>pstate := RUNNING\<rparr>)
        (s\<lparr>curproc := Some i, tss_rsp0 := kstack (ptable s ! i) + KSTACKSIZE,
           cr3 := pgdir (ptable s ! i) - KERNBASE, cpu := settle (cpu s)\<rparr>))"
  using assms by (induction pre arbitrary: k) (simp_all add: run_simps)

lemma scheduler_scan_SomeD:
  assumes "scheduler_scan is k s = Inr (k', Some (i, rest), s')"
  shows "\<exists>pre. is = pre @ i # rest \<and> (\<forall>j \<in> set pre. \<not> runnable s j) \<and> runnable s i"
  using assms
proof (induction "is" arbitrary: k)
  case (Cons j js)
  show ?case
  proof (cases "runnable s j")
    case True
    with Cons.prems show ?thesis by (auto simp: andthen_Inr_iff)
  next
    case False
    with Cons.prems have "scheduler_scan js (Suc k) s = Inr (k', Some (i, rest), s')" by simp
    from Cons.IH [OF this] False show ?thesis by (auto intro: exI [of _ "j # _"])
  qed
qed simp

lemma scheduler_scan_NoneD:
  "scheduler_scan is k s = Inr (k', None, s') \<Longrightarrow> \<forall>j \<in> set is. \<not> runnable s j"
  by (induction "is" arbitrary: k) (auto simp: andthen_Inr_iff split: if_splits)

text \<open>
  A pass of the scheduler over the table. Between a switch to slot \<open>i\<close> and the switch back,
  anything the relation \<open>E\<close> allows happens to the state.
\<close>

inductive sched_pass ::
    "(nat \<Rightarrow> 'a kproc_scheme \<Rightarrow> 'a kproc_scheme \<Rightarrow> bool) \<Rightarrow> nat list \<Rightarrow> 'a kproc_scheme \<Rightarrow>
       nat list \<Rightarrow> 'a kproc_scheme \<Rightarrow> bool"
  for E where
  pass_end: "scheduler_scan is k s = Inr (k', None, s') \<Longrightarrow> sched_pass E is s [] s'"
| pass_run: "scheduler_scan is k s = Inr (k', Some (i, rest), s1) \<Longrightarrow> E i s1 s2 \<Longrightarrow>
     sched_pass E rest (scheduler_back s2) picked s3 \<Longrightarrow> sched_pass E is s (i # picked) s3"

lemma runnable_scheduler_back [simp]: "runnable (scheduler_back s) j = runnable s j"
  by (simp add: scheduler_back_def switchkvm_def)

lemma switchuvm_ptable: "switchuvm i s = Inr s' \<Longrightarrow> ptable s' = ptable s"
  by (auto simp: switchuvm_def pushcli_enter popcli_def Let_def split: if_splits)

lemma scheduler_scan_keeps:
  assumes "scheduler_scan is k s = Inr (k', r, s')" "runnable s j"
    and "\<And>i rest. r = Some (i, rest) \<Longrightarrow> i \<noteq> j"
  shows "runnable s' j"
  using assms
proof (induction "is" arbitrary: k)
  case (Cons i "is")
  show ?case
  proof (cases "runnable s i")
    case True
    with Cons.prems show ?thesis by (auto simp: andthen_Inr_iff dest!: switchuvm_ptable)
  next
    case False
    with Cons show ?thesis by simp
  qed
qed simp

text \<open>
  Every process that stays runnable until it is chosen is run in the pass, and no process is
  run twice in one pass.
\<close>

lemma sched_pass_runs:
  assumes "sched_pass E is s picked s'" "j \<in> set is" "runnable s j"
    and stay: "\<And>i s1 s2. E i s1 s2 \<Longrightarrow> i \<noteq> j \<Longrightarrow> runnable s1 j \<Longrightarrow> runnable s2 j"
  shows "j \<in> set picked"
  using assms(1-3)
proof (induction rule: sched_pass.induct)
  case (pass_end "is" k s k' s')
  then show ?case by (auto dest: scheduler_scan_NoneD)
next
  case (pass_run "is" k s k' i rest s1 s2 picked s3)
  show ?case
  proof (cases "i = j")
    case False
    obtain pre where "is = pre @ i # rest" "\<forall>j \<in> set pre. \<not> runnable s j"
      using scheduler_scan_SomeD [OF pass_run.hyps(1)] by blast
    with pass_run.prems False have "j \<in> set rest" by auto
    moreover have "runnable s1 j"
      using scheduler_scan_keeps [OF pass_run.hyps(1) pass_run.prems(2)] False by auto
    then have "runnable s2 j" using stay [OF pass_run.hyps(2) False] by blast
    ultimately show ?thesis using pass_run.IH by simp
  qed simp
qed

lemma sched_pass_subset: "sched_pass E is s picked s' \<Longrightarrow> set picked \<subseteq> set is"
  by (induction rule: sched_pass.induct) (fastforce dest: scheduler_scan_SomeD)+

lemma sched_pass_distinct: "sched_pass E is s picked s' \<Longrightarrow> distinct is \<Longrightarrow> distinct picked"
proof (induction rule: sched_pass.induct)
  case (pass_run "is" k s k' i rest s1 s2 picked s3)
  then obtain pre where "is = pre @ i # rest" using scheduler_scan_SomeD by blast
  with pass_run sched_pass_subset [OF pass_run.hyps(3)] show ?case by auto
qed simp

section \<open>Properties\<close>

text \<open>An example system: all locks free, and slots 0 and 1 of the table in use.\<close>

definition no_tf :: trapframe where
  "no_tf = \<lparr>tf_rax = 0, tf_rbx = 0, tf_rcx = 0, tf_rdx = 0, tf_rbp = 0, tf_rsi = 0, tf_rdi = 0,
     tf_r8 = 0, tf_r9 = 0, tf_r10 = 0, tf_r11 = 0, tf_r12 = 0, tf_r13 = 0, tf_r14 = 0, tf_r15 = 0,
     tf_trapno = 0, tf_err = 0, tf_rip = 0, tf_cs = 0, tf_rflags = 0, tf_rsp = 0, tf_ss = 0\<rparr>"

definition free_proc :: proc where
  "free_proc = \<lparr>sz = 0, pgdir = 0, kstack = 0, pstate = UNUSED, pid = 0, parent = None, tf = no_tf,
     chan = NoChan, killed = 0, ofile = replicate NOFILE None, cwd = None,
     pname = replicate 16 0\<rparr>"

definition demo_procs :: "proc list" where
  "demo_procs =
     [free_proc\<lparr>pid := 1, pstate := RUNNABLE, pgdir := 4096\<rparr>,
      free_proc\<lparr>pid := 2, pstate := SLEEPING, chan := Ticks_chan, pgdir := 8192\<rparr>]
     @ replicate 62 free_proc"

definition demo_sys :: kproc where
  "demo_sys =
     \<lparr>mem = (\<lambda>_. 0), locks = (\<lambda>_. \<lparr>locked = 0, lk_name = ''lock'', lk_cpu = None\<rparr>),
      cpu = \<lparr>cpu_id = 0, ncli = 0, intena = False, if_flag = True\<rparr>,
      ptable = demo_procs, curproc = None, nextpid = 3, initproc = Some 0, ticks = 0,
      kpml4 = 0, cr3 = 0, tss_rsp0 = 0\<rparr>"

lemma demo_procs_simps [simp]:
  "length demo_procs = 64"
  "demo_procs ! 0 = free_proc\<lparr>pid := 1, pstate := RUNNABLE, pgdir := 4096\<rparr>"
  "demo_procs ! Suc 0 = free_proc\<lparr>pid := 2, pstate := SLEEPING, chan := Ticks_chan, pgdir := 8192\<rparr>"
  "Suc 0 < k \<Longrightarrow> k < 64 \<Longrightarrow> demo_procs ! k = free_proc"
  by (auto simp: demo_procs_def nth_append nth_Cons' not_less)

lemma demo_sys_simps [simp]:
  "lock_free l demo_sys" "cpu_ok (cpu demo_sys)" "ptable demo_sys = demo_procs"
  "cpu_id (cpu demo_sys) = 0" "ncli (cpu demo_sys) = 0" "if_flag (cpu demo_sys)"
  by (simp_all add: demo_sys_def lock_free_def cpu_ok_def)


definition demo_sleeper :: kproc where
  "demo_sleeper = demo_sys\<lparr>curproc := Some 0,
     cpu := \<lparr>cpu_id = 0, ncli = 1, intena = True, if_flag = False\<rparr>,
     locks := (locks demo_sys)(Ticks_lock := \<lparr>locked = 1, lk_name = ''time'', lk_cpu = Some 0\<rparr>)\<rparr>"


text \<open>
  C5. One pass of the scheduler is fair: every process that is runnable at the start, and that
  the processes run before it leave runnable, gets the CPU in that pass, and no process gets
  it twice.
\<close>

theorem scheduler_pass_fair:
  assumes "sched_pass E [0..<NPROC] s picked s'"
    and "j < NPROC" "pstate (ptable s ! j) = RUNNABLE"
    and "\<And>i s1 s2. E i s1 s2 \<Longrightarrow> i \<noteq> j \<Longrightarrow> pstate (ptable s1 ! j) = RUNNABLE \<Longrightarrow>
           pstate (ptable s2 ! j) = RUNNABLE"
  shows "j \<in> set picked \<and> distinct picked"
  using sched_pass_runs [OF assms(1) _ assms(3)] sched_pass_distinct [OF assms(1)] assms(2,4)
  by simp

theorem scheduler_pass_fair_witness:
  "\<exists>s'. sched_pass (\<lambda>i s1 s2. s2 = upd_proc i (\<lambda>p. p\<lparr>pstate := SLEEPING\<rparr>) s1) [0..<NPROC] demo_sys
     [0] s' \<and> (0 :: nat) \<in> set [0]"
proof -
  let ?E = "\<lambda>i s1 s2. s2 = upd_proc i (\<lambda>p :: proc. p\<lparr>pstate := SLEEPING\<rparr>) s1"
  let ?s1 = "upd_proc 0 (\<lambda>p. p\<lparr>pstate := RUNNING\<rparr>)
     (demo_sys\<lparr>curproc := Some 0, tss_rsp0 := KSTACKSIZE, cr3 := 4096 - KERNBASE,
       cpu := settle (cpu demo_sys)\<rparr>)"
  let ?s2 = "scheduler_back (upd_proc 0 (\<lambda>p. p\<lparr>pstate := SLEEPING\<rparr>) ?s1)"
  have "scheduler_scan ([] @ 0 # [1..<NPROC]) 0 demo_sys = Inr (0, Some (0, [1..<NPROC]), ?s1)"
    by (subst scheduler_scan_first) (simp_all add: free_proc_def)
  then have 1: "scheduler_scan [0..<NPROC] 0 demo_sys = Inr (0, Some (0, [1..<NPROC]), ?s1)"
    by (simp add: upt_conv_Cons)
  have "\<not> runnable ?s2 i" if "i \<in> set [1..<NPROC]" for i
    using that by (cases "i = 1") (simp_all add: free_proc_def)
  then have 2: "scheduler_scan [1..<NPROC] 0 ?s2 = Inr (0 + length [1..<NPROC], None, ?s2)"
    by (intro scheduler_scan_none) blast
  have pass: "sched_pass ?E [0..<NPROC] demo_sys [0] ?s2"
    using 1 refl pass_end [OF 2] by (rule pass_run)
  have "(0 :: nat) \<in> set [0] \<and> distinct [0 :: nat]"
    by (rule scheduler_pass_fair [OF pass]) (auto simp: free_proc_def)
  with pass show ?thesis by blast
qed



text \<open>
  Free slots carry pid 0, so \<^verbatim>\<open>kill(0)\<close> succeeds on a table with a free slot and marks that slot as
  killed.
\<close>

lemma kill_zero_marks_free_slot:
  "\<exists>s'. kill 0 demo_sys = Inr (0, s') \<and> pstate (ptable s' ! 2) = UNUSED \<and> killed (ptable s' ! 2) = 1"
proof -
  have "scan (\<lambda>p. pid p = 0) demo_procs = Some 2"
    by (simp add: demo_procs_def free_proc_def numeral_eq_Suc)
  then show ?thesis
    by (subst kill_found [where i = 2]) (simp_all add: upd_proc_def free_proc_def)
qed

end
