(* ===== verification/Ring.thy ===== *)
theory Ring
  imports Prelude
begin

text \<open>
  Three components keep a circular buffer addressed by free-running 32-bit counters that are
  never reduced, only taken modulo the buffer size when used as an index: the trace buffer,
  pipes and the console input line. Because each size divides \<open>2 ^ 32\<close>, the counters may wrap.
  This theory proves once what reading and writing such a buffer does to its contents, and
  states the two queue interfaces the components implement as locales.
\<close>

section \<open>Circular buffers with free-running counters\<close>

definition ring_contents :: "'a list \<Rightarrow> uint \<Rightarrow> uint \<Rightarrow> 'a list" where
  "ring_contents buf r w =
     map (\<lambda>k. buf ! (unat (r + of_nat k) mod length buf)) [0..<unat (w - r)]"

lemma length_ring_contents [simp]: "length (ring_contents buf r w) = unat (w - r)"
  by (simp add: ring_contents_def)

lemma nth_ring_contents:
  "k < unat (w - r) \<Longrightarrow> ring_contents buf r w ! k = buf ! (unat (r + of_nat k) mod length buf)"
  by (simp add: ring_contents_def)

lemma ring_contents_empty_iff [simp]: "ring_contents buf r w = [] \<longleftrightarrow> r = w"
  by (simp add: ring_contents_def unat_eq_zero) auto

lemma ring_index_add:
  fixes r :: uint
  assumes "n dvd 2 ^ 32"
  shows "unat (r + of_nat k) mod n = (unat r + k) mod n"
proof -
  have "unat (r + of_nat k) = (unat r + k) mod 2 ^ 32"
    by (simp add: unat_word_ariths unat_of_nat mod_simps)
  then show ?thesis using assms by (simp add: mod_mod_cancel)
qed

lemma ring_index_inj:
  fixes r :: uint
  assumes "n dvd 2 ^ 32" "i < n" "j < n"
  shows "unat (r + of_nat i) mod n = unat (r + of_nat j) mod n \<longleftrightarrow> i = j"
proof
  assume "unat (r + of_nat i) mod n = unat (r + of_nat j) mod n"
  then have "(unat r + i) mod n = (unat r + j) mod n"
    by (simp only: ring_index_add [OF assms(1)])
  then have "i mod n = j mod n" by (simp add: nat_mod_eq_iff)
  with assms show "i = j" by simp
qed simp

lemma unat_Suc_diff:
  fixes w r :: uint
  assumes "unat (w - r) < 2 ^ 32 - 1"
  shows "unat (w + 1 - r) = Suc (unat (w - r))"
proof -
  have eq: "w + 1 - r = (w - r) + 1" by simp
  have "unat ((w - r) + 1) = unat (w - r) + unat (1 :: uint)"
    using assms by (intro unat_add_no_wrap) simp
  then show ?thesis unfolding eq by simp
qed

text \<open>Writing at the write counter appends, as long as the buffer is not full.\<close>

lemma ring_contents_write:
  assumes "length buf dvd 2 ^ 32" "unat (w - r) < length buf" "length buf < 2 ^ 32"
  shows "ring_contents (buf[unat w mod length buf := x]) r (w + 1) = ring_contents buf r w @ [x]"
proof (rule nth_equalityI)
  have weq: "r + of_nat (unat (w - r)) = w" by simp
  have len: "unat (w + 1 - r) = Suc (unat (w - r))"
    using assms(2,3) by (intro unat_Suc_diff) simp
  then show "length (ring_contents (buf[unat w mod length buf := x]) r (w + 1))
      = length (ring_contents buf r w @ [x])" by simp
  fix k assume "k < length (ring_contents (buf[unat w mod length buf := x]) r (w + 1))"
  with len have k: "k < Suc (unat (w - r))" by simp
  have inj: "unat (r + of_nat k) mod length buf = unat w mod length buf \<longleftrightarrow> k = unat (w - r)"
    using ring_index_inj [OF assms(1) _ assms(2), of k r] k assms(2) unfolding weq by linarith
  have "unat w mod length buf < length buf" using assms(2) by (intro mod_less_divisor) linarith
  moreover have "ring_contents (buf[unat w mod length buf := x]) r (w + 1) ! k
      = buf[unat w mod length buf := x] ! (unat (r + of_nat k) mod length buf)"
    using k len by (simp only: nth_ring_contents length_list_update)
  moreover have "(ring_contents buf r w @ [x]) ! k
      = (if k = unat (w - r) then x else buf ! (unat (r + of_nat k) mod length buf))"
    using k by (auto simp add: nth_append nth_ring_contents)
  ultimately show "ring_contents (buf[unat w mod length buf := x]) r (w + 1) ! k
      = (ring_contents buf r w @ [x]) ! k"
    using inj by (cases "k = unat (w - r)") (simp_all only: nth_list_update_eq nth_list_update_neq
        if_True if_False simp_thms)
qed

text \<open>Reading at the read counter removes the oldest element.\<close>

lemma ring_contents_read:
  assumes "r \<noteq> w"
  shows "ring_contents buf r w = buf ! (unat r mod length buf) # ring_contents buf (r + 1) w"
proof -
  have pos: "0 < unat (w - r)" using assms by (simp add: unat_gt_0)
  have eq: "w - (r + 1) = (w - r) - 1" by simp
  have len: "unat (w - r) = Suc (unat (w - (r + 1)))"
    unfolding eq using pos unat_minus_one [of "w - r"] assms by simp
  show ?thesis
    unfolding ring_contents_def len
    by (simp add: upt_conv_Cons map_Suc_upt [symmetric] add.assoc del: upt_Suc)
qed

text \<open>Writing into a full buffer and advancing the read counter drops the oldest element.\<close>

lemma ring_contents_overwrite:
  assumes "length buf dvd 2 ^ 32" "unat (w - r) = length buf" "length buf < 2 ^ 32" "buf \<noteq> []"
  shows "ring_contents (buf[unat w mod length buf := x]) (r + 1) (w + 1)
       = tl (ring_contents buf r w) @ [x]"
proof -
  from assms(2,4) have "r \<noteq> w" by auto
  then have c: "ring_contents buf r w = buf ! (unat r mod length buf) # ring_contents buf (r + 1) w"
    by (rule ring_contents_read)
  then have "unat (w - (r + 1)) < length buf"
    using assms(2) by (metis length_Cons length_ring_contents lessI)
  then have "ring_contents (buf[unat w mod length buf := x]) (r + 1) (w + 1)
      = ring_contents buf (r + 1) w @ [x]"
    using assms by (intro ring_contents_write) simp_all
  with c show ?thesis by simp
qed

section \<open>A bounded queue\<close>

text \<open>
  The contract of a queue with a fixed capacity: \<open>push\<close> appends while there is room, \<open>pop\<close>
  returns the oldest element.
\<close>

datatype 'a queue_op = Push 'a | Pop

locale bounded_queue =
  fixes contents :: "'q \<Rightarrow> 'a list"
    and inv :: "'q \<Rightarrow> bool"
    and push :: "'a \<Rightarrow> 'q \<Rightarrow> 'q"
    and pop :: "'q \<Rightarrow> ('a \<times> 'q) option"
    and cap :: nat
  assumes contents_push:
      "inv q \<Longrightarrow> length (contents q) < cap \<Longrightarrow> contents (push x q) = contents q @ [x]"
    and inv_push: "inv q \<Longrightarrow> length (contents q) < cap \<Longrightarrow> inv (push x q)"
    and pop_None: "inv q \<Longrightarrow> pop q = None \<longleftrightarrow> contents q = []"
    and pop_Some: "inv q \<Longrightarrow> pop q = Some (x, q') \<Longrightarrow> contents q = x # contents q' \<and> inv q'"
    and inv_cap: "inv q \<Longrightarrow> length (contents q) \<le> cap"
begin

text \<open>
  A client interleaves pushes (refused when the queue is full) and pops (skipped when it is
  empty). \<open>run\<close> returns what was accepted, what was popped, and the queue.
\<close>

fun run :: "'a queue_op list \<Rightarrow> 'q \<Rightarrow> 'a list \<times> 'a list \<times> 'q" where
  "run [] q = ([], [], q)"
| "run (Push x # ops) q =
     (if length (contents q) < cap
      then (let (ins, outs, q') = run ops (push x q) in (x # ins, outs, q'))
      else run ops q)"
| "run (Pop # ops) q =
     (case pop q of None \<Rightarrow> run ops q
      | Some (x, q1) \<Rightarrow> (let (ins, outs, q') = run ops q1 in (ins, x # outs, q')))"

text \<open>First in, first out: nothing is lost, duplicated or reordered.\<close>

lemma run_fifo:
  "inv q \<Longrightarrow> run ops q = (ins, outs, q') \<Longrightarrow> inv q' \<and> contents q @ ins = outs @ contents q'"
proof (induction ops q arbitrary: ins outs q' rule: run.induct)
  case (1 q)
  then show ?case by simp
next
  case (2 x ops q)
  show ?case
  proof (cases "length (contents q) < cap")
    case True
    obtain ins1 outs1 q1 where r: "run ops (push x q) = (ins1, outs1, q1)"
      by (cases "run ops (push x q)")
    with "2.IH"(1) [OF True inv_push r] "2.prems" True show ?thesis
      by (auto simp: contents_push)
  next
    case False
    with "2.IH"(2) "2.prems" show ?thesis by simp
  qed
next
  case (3 ops q)
  show ?case
  proof (cases "pop q")
    case None
    with "3.IH"(1) "3.prems" show ?thesis by simp
  next
    case (Some xq)
    then obtain x q1 where xq: "pop q = Some (x, q1)" by (cases xq) auto
    obtain ins1 outs1 q2 where r: "run ops q1 = (ins1, outs1, q2)" by (cases "run ops q1")
    from xq "3.prems"(1) have q1: "contents q = x # contents q1" "inv q1"
      by (auto dest: pop_Some)
    with "3.IH"(2) [OF xq refl q1(2) r] "3.prems" xq r show ?thesis by auto
  qed
qed

end

section \<open>A queue that overwrites\<close>

text \<open>
  The contract of a buffer that keeps the most recent \<open>cap\<close> elements: a push into a full
  buffer drops the oldest element and counts it.
\<close>

locale overwriting_queue =
  fixes contents :: "'q \<Rightarrow> 'a list"
    and inv :: "'q \<Rightarrow> bool"
    and push :: "'a \<Rightarrow> 'q \<Rightarrow> 'q"
    and lost :: "'q \<Rightarrow> uint"
    and cap :: nat
  assumes contents_push:
      "inv q \<Longrightarrow> contents (push x q) =
         (if length (contents q) = cap then tl (contents q) @ [x] else contents q @ [x])"
    and lost_push:
      "inv q \<Longrightarrow> lost (push x q) = (if length (contents q) = cap then lost q + 1 else lost q)"
    and inv_push: "inv q \<Longrightarrow> inv (push x q)"
    and inv_cap: "inv q \<Longrightarrow> length (contents q) \<le> cap"
    and cap_pos: "0 < cap"
begin

text \<open>After any number of pushes the queue holds the last \<open>cap\<close> elements.\<close>

lemma fold_push:
  assumes "inv q"
  shows "inv (fold push xs q)"
    and "contents (fold push xs q)
       = drop (length (contents q) + length xs - cap) (contents q @ xs)"
    and "lost (fold push xs q)
       = lost q + of_nat (length (contents q) + length xs - cap)"
proof (induction xs rule: rev_induct)
  case Nil
  { case 1 show ?case using assms by simp }
  { case 2 show ?case using inv_cap [OF assms] by simp }
  { case 3 show ?case using inv_cap [OF assms] by simp }
next
  case (snoc x xs)
  let ?q = "fold push xs q"
  let ?n = "length (contents q) + length xs"
  have len: "length (contents ?q) = min ?n cap"
    using snoc.IH(2) inv_cap [OF assms] by simp
  { case 1 show ?case using snoc.IH(1) by (simp add: inv_push) }
  { case 2
    show ?case
    proof (cases "cap \<le> ?n")
      case True
      then have "contents (push x ?q) = tl (contents ?q) @ [x]"
        using len snoc.IH(1) by (simp add: contents_push min_def)
      also have "tl (contents ?q) = drop (Suc (?n - cap)) (contents q @ xs)"
        unfolding snoc.IH(2) by (metis drop_Suc tl_drop)
      finally show ?thesis using True cap_pos by (simp add: Suc_diff_le)
    next
      case False
      then have "length (contents ?q) \<noteq> cap" using len by simp
      then have "contents (push x ?q) = contents ?q @ [x]"
        using snoc.IH(1) by (simp add: contents_push)
      with False snoc.IH(2) show ?thesis by simp
    qed }
  { case 3
    show ?case
      using len snoc.IH(1,3) by (auto simp: lost_push min_def Suc_diff_le) }
qed

end

end
