(* ===== verification/Ktrace.thy ===== *)
theory Ktrace
  imports Sched Ring KString
begin

text \<open>
  \<^verbatim>\<open>trace.h\<close> and the writer side of \<^verbatim>\<open>ktrace.c\<close>: the ring of the 128 most recent kernel events.
  The reader, \<^verbatim>\<open>traceread\<close>, copies events out to user memory and follows in \<open>Traceread\<close>.
\<close>

section \<open>State\<close>

abbreviation (input) "TRACE_TYPE_SYSCALL \<equiv> 1 :: cint"
abbreviation (input) "TRACE_TYPE_PROC \<equiv> 2 :: cint"
abbreviation (input) "TRACE_TYPE_TRAP \<equiv> 3 :: cint"
abbreviation (input) "TRACE_TYPE_MEM \<equiv> 4 :: cint"
abbreviation (input) "TRACE_NAME_LEN \<equiv> 16 :: nat"
abbreviation (input) "TRACE_BUF_SIZE \<equiv> 128 :: uint"

record trace_event =
  ev_seq :: uint
  ev_ticks :: uint
  ev_type :: cint
  ev_pid :: cint
  ev_arg0 :: cint
  ev_arg1 :: cint
  ev_arg2 :: cint
  ev_comm :: "byte list"
  ev_event :: "byte list"
  ev_overwritten :: uint

record tracebuf =
  tb_enabled :: cint
  tb_seq :: uint
  tb_readseq :: uint
  tb_overwritten :: uint
  tb_events :: "trace_event list"

record ktrace = kproc +
  traceBuffer :: tracebuf

section \<open>Operations\<close>

definition traceinit :: "'a ktrace_scheme \<Rightarrow> 'a ktrace_scheme" where
  "traceinit s =
     (initlock Trace_lock ''trace'' s)
     \<lparr>traceBuffer := (traceBuffer s)\<lparr>tb_enabled := 1, tb_seq := 0, tb_readseq := 0,
        tb_overwritten := 0\<rparr>\<rparr>"

text \<open>
  The process name an event carries: the current process's, or \<^verbatim>\<open>"kernel"\<close>. The arrays
  \<^verbatim>\<open>comm\<close> and \<^verbatim>\<open>event\<close> are cleared first and then filled by \<^verbatim>\<open>safestrcpy\<close>.
\<close>

definition event_comm :: "'a kproc_scheme \<Rightarrow> byte list" where
  "event_comm s =
     (case curproc s of
        Some i \<Rightarrow>
          if 0 <s pid (ptable s ! i)
          then safestrcpy_arr (replicate TRACE_NAME_LEN 0) (pname (ptable s ! i)) 0 (TRACE_NAME_LEN - 1)
          else safestrcpy_arr (replicate TRACE_NAME_LEN 0) (cbytes ''kernel'') 0 (TRACE_NAME_LEN - 1)
      | None \<Rightarrow>
          safestrcpy_arr (replicate TRACE_NAME_LEN 0) (cbytes ''kernel'') 0 (TRACE_NAME_LEN - 1))"

definition event_name :: "byte list option \<Rightarrow> byte list" where
  "event_name name =
     (case name of
        Some n \<Rightarrow> safestrcpy_arr (replicate TRACE_NAME_LEN 0) n 0 (TRACE_NAME_LEN - 1)
      | None \<Rightarrow> replicate TRACE_NAME_LEN 0)"

text \<open>The critical section of \<^verbatim>\<open>traceevent\<close>: fill the slot, advance \<^verbatim>\<open>seq\<close>, drop the oldest.\<close>

definition put_event ::
    "uint \<Rightarrow> cint \<Rightarrow> cint \<Rightarrow> cint \<Rightarrow> cint \<Rightarrow> cint \<Rightarrow> byte list \<Rightarrow> byte list \<Rightarrow> tracebuf \<Rightarrow> tracebuf" where
  "put_event tks type epid arg0 arg1 arg2 comm event tb =
     (let ev = \<lparr>ev_seq = tb_seq tb, ev_ticks = tks, ev_type = type, ev_pid = epid,
                ev_arg0 = arg0, ev_arg1 = arg1, ev_arg2 = arg2, ev_comm = comm,
                ev_event = event, ev_overwritten = tb_overwritten tb\<rparr>;
          tb1 = tb\<lparr>tb_events := (tb_events tb)[unat (tb_seq tb mod TRACE_BUF_SIZE) := ev],
                   tb_seq := tb_seq tb + 1\<rparr>
      in if TRACE_BUF_SIZE < tb_seq tb1 - tb_readseq tb1
         then tb1\<lparr>tb_readseq := tb_seq tb1 - TRACE_BUF_SIZE,
                  tb_overwritten := tb_overwritten tb1 + 1\<rparr>
         else tb1)"

definition traceevent ::
    "cint \<Rightarrow> cint \<Rightarrow> cint \<Rightarrow> cint \<Rightarrow> cint \<Rightarrow> byte list option \<Rightarrow> 'a ktrace_scheme \<Rightarrow>
       stop + 'a ktrace_scheme" where
  "traceevent type epid arg0 arg1 arg2 name s =
     (if tb_enabled (traceBuffer s) = 0 then Inr s
      else andthen (acquire Trace_lock s) (\<lambda>s.
        release Trace_lock (s\<lparr>traceBuffer :=
          put_event (ticks s) type epid arg0 arg1 arg2 (event_comm s) (event_name name)
            (traceBuffer s)\<rparr>)))"

section \<open>The buffer as a queue of the most recent events\<close>

definition unread :: "tracebuf \<Rightarrow> trace_event list" where
  "unread tb = ring_contents (tb_events tb) (tb_readseq tb) (tb_seq tb)"

lemma length_unread: "length (unread tb) = unat (tb_seq tb - tb_readseq tb)"
  by (simp add: unread_def)

lemma unat_mod_128: "unat (i mod TRACE_BUF_SIZE) = unat i mod 128"
  by (simp add: unat_mod)

text \<open>The event a call records, as a function of the buffer it is recorded in.\<close>

definition event_of ::
    "uint \<Rightarrow> cint \<Rightarrow> cint \<Rightarrow> cint \<Rightarrow> cint \<Rightarrow> cint \<Rightarrow> byte list \<Rightarrow> byte list \<Rightarrow> tracebuf \<Rightarrow> trace_event" where
  "event_of tks type epid arg0 arg1 arg2 comm event tb =
     \<lparr>ev_seq = tb_seq tb, ev_ticks = tks, ev_type = type, ev_pid = epid, ev_arg0 = arg0,
      ev_arg1 = arg1, ev_arg2 = arg2, ev_comm = comm, ev_event = event,
      ev_overwritten = tb_overwritten tb\<rparr>"

lemma put_event_seq [simp]:
  "tb_seq (put_event tks ty p a b c cm nm tb) = tb_seq tb + 1"
  "tb_enabled (put_event tks ty p a b c cm nm tb) = tb_enabled tb"
  "length (tb_events (put_event tks ty p a b c cm nm tb)) = length (tb_events tb)"
  by (simp_all add: put_event_def Let_def)

lemma put_event_events:
  "tb_events (put_event tks ty p a b c cm nm tb)
     = (tb_events tb)[unat (tb_seq tb) mod 128 := event_of tks ty p a b c cm nm tb]"
  by (simp add: put_event_def Let_def event_of_def unat_mod_128)

lemma put_event_room:
  assumes inv: "length (tb_events tb) = 128" and room: "length (unread tb) < 128"
  shows "tb_readseq (put_event tks ty p a b c cm nm tb) = tb_readseq tb"
    and "tb_overwritten (put_event tks ty p a b c cm nm tb) = tb_overwritten tb"
    and "unread (put_event tks ty p a b c cm nm tb)
           = unread tb @ [event_of tks ty p a b c cm nm tb]"
proof -
  have len: "unat (tb_seq tb + 1 - tb_readseq tb) = Suc (unat (tb_seq tb - tb_readseq tb))"
    using room by (intro unat_Suc_diff) (simp add: length_unread)
  then have no: "\<not> TRACE_BUF_SIZE < tb_seq tb + 1 - tb_readseq tb"
    using room by (simp add: word_less_nat_alt length_unread)
  show rs: "tb_readseq (put_event tks ty p a b c cm nm tb) = tb_readseq tb"
    and "tb_overwritten (put_event tks ty p a b c cm nm tb) = tb_overwritten tb"
    using no by (simp_all add: put_event_def Let_def)
  show "unread (put_event tks ty p a b c cm nm tb)
      = unread tb @ [event_of tks ty p a b c cm nm tb]"
    using ring_contents_write [of "tb_events tb" "tb_seq tb" "tb_readseq tb"] inv room
    by (simp add: unread_def rs put_event_events)
qed

lemma put_event_full:
  assumes inv: "length (tb_events tb) = 128" and full: "length (unread tb) = 128"
  shows "tb_readseq (put_event tks ty p a b c cm nm tb) = tb_readseq tb + 1"
    and "tb_overwritten (put_event tks ty p a b c cm nm tb) = tb_overwritten tb + 1"
    and "unread (put_event tks ty p a b c cm nm tb)
           = tl (unread tb) @ [event_of tks ty p a b c cm nm tb]"
proof -
  have "tb_seq tb - tb_readseq tb = 128"
    using full by (simp add: length_unread word_unat_eq_iff)
  then have seq: "tb_seq tb = tb_readseq tb + 128" by (simp add: algebra_simps)
  show rs: "tb_readseq (put_event tks ty p a b c cm nm tb) = tb_readseq tb + 1"
    and "tb_overwritten (put_event tks ty p a b c cm nm tb) = tb_overwritten tb + 1"
    by (simp_all add: put_event_def Let_def seq word_less_nat_alt)
  have "tb_events tb \<noteq> []" using inv by auto
  then show "unread (put_event tks ty p a b c cm nm tb)
      = tl (unread tb) @ [event_of tks ty p a b c cm nm tb]"
    using ring_contents_overwrite [of "tb_events tb" "tb_seq tb" "tb_readseq tb"] inv full
    by (simp add: unread_def rs put_event_events)
qed

text \<open>
  What is kept of the buffer: its size, that at most 128 events are unread, and that the unread
  events carry the sequence numbers from \<^verbatim>\<open>readseq\<close> on, without a gap.
\<close>

definition tb_inv :: "tracebuf \<Rightarrow> bool" where
  "tb_inv tb \<longleftrightarrow> length (tb_events tb) = 128 \<and> unat (tb_seq tb - tb_readseq tb) \<le> 128 \<and>
     map ev_seq (unread tb) = map (\<lambda>k. tb_readseq tb + of_nat k) [0..<length (unread tb)]"

lemma tb_inv_cases:
  assumes "tb_inv tb"
  obtains (room) "length (tb_events tb) = 128" "length (unread tb) < 128"
    | (full) "length (tb_events tb) = 128" "length (unread tb) = 128"
  using assms by (fastforce simp: tb_inv_def length_unread)

lemma ev_seq_event_of [simp]: "ev_seq (event_of tks ty p a b c cm nm tb) = tb_seq tb"
  by (simp add: event_of_def)

lemma tb_seq_unread: "tb_readseq tb + of_nat (length (unread tb)) = tb_seq tb"
  by (simp add: length_unread)

lemma tb_inv_put:
  assumes inv: "tb_inv tb"
  shows "tb_inv (put_event tks ty p a b c cm nm tb)" (is "tb_inv ?tb'")
proof -
  from inv have seqs:
    "map ev_seq (unread tb) = map (\<lambda>k. tb_readseq tb + of_nat k) [0..<length (unread tb)]"
    by (simp add: tb_inv_def)
  from inv have "length (unread ?tb') \<le> 128 \<and>
    map ev_seq (unread ?tb') = map (\<lambda>k. tb_readseq ?tb' + of_nat k) [0..<length (unread ?tb')]"
  proof (cases rule: tb_inv_cases)
    case room
    then show ?thesis using seqs by (simp add: put_event_room tb_seq_unread)
  next
    case full
    have "map ev_seq (tl (unread tb)) = map (\<lambda>k. tb_readseq tb + 1 + of_nat k) [0..<127]"
      using full seqs
      by (simp add: map_tl upt_conv_Cons map_Suc_upt [symmetric] comp_def add.assoc)
    moreover have "tb_seq tb = tb_readseq tb + 1 + of_nat 127"
      using tb_seq_unread [of tb] full by (simp add: algebra_simps)
    moreover have "[0..<128] = [0..<127] @ [127]" using upt_Suc_append [of 0 127] by simp
    ultimately show ?thesis using full by (simp add: put_event_full)
  qed
  with inv show ?thesis by (simp add: tb_inv_def length_unread)
qed

text \<open>What the caller and the running process contribute to an event.\<close>

type_synonym payload = "uint \<times> cint \<times> cint \<times> cint \<times> cint \<times> cint \<times> byte list \<times> byte list"

definition ev_payload :: "trace_event \<Rightarrow> payload" where
  "ev_payload ev = (ev_ticks ev, ev_type ev, ev_pid ev, ev_arg0 ev, ev_arg1 ev, ev_arg2 ev,
     ev_comm ev, ev_event ev)"

definition put_payload :: "payload \<Rightarrow> tracebuf \<Rightarrow> tracebuf" where
  "put_payload = (\<lambda>(tks, ty, p, a, b, c, cm, nm). put_event tks ty p a b c cm nm)"

lemma ev_payload_event_of [simp]:
  "ev_payload (event_of tks ty p a b c cm nm tb) = (tks, ty, p, a, b, c, cm, nm)"
  by (simp add: ev_payload_def event_of_def)

interpretation recent: overwriting_queue
  "\<lambda>tb. map ev_payload (unread tb)" tb_inv put_payload tb_overwritten 128
proof
  fix tb :: tracebuf and x :: payload
  assume inv: "tb_inv tb"
  obtain tks ty p a b c cm nm where x: "x = (tks, ty, p, a, b, c, cm, nm)"
    by (metis prod.collapse)
  then have push: "put_payload x tb = put_event tks ty p a b c cm nm tb"
    by (simp add: put_payload_def)
  from inv show "tb_inv (put_payload x tb)" unfolding push by (rule tb_inv_put)
  from inv show "length (map ev_payload (unread tb)) \<le> 128"
    by (simp add: tb_inv_def length_unread)
  from inv show "map ev_payload (unread (put_payload x tb)) =
      (if length (map ev_payload (unread tb)) = 128 then tl (map ev_payload (unread tb)) @ [x]
       else map ev_payload (unread tb) @ [x])"
    unfolding push by (cases rule: tb_inv_cases) (simp_all add: put_event_room put_event_full x map_tl)
  from inv show "tb_overwritten (put_payload x tb) =
      (if length (map ev_payload (unread tb)) = 128 then tb_overwritten tb + 1
       else tb_overwritten tb)"
    unfolding push by (cases rule: tb_inv_cases) (simp_all add: put_event_room put_event_full)
qed simp

section \<open>Whole calls\<close>

lemma event_comm_cong:
  "curproc s = curproc s' \<Longrightarrow> ptable s = ptable s' \<Longrightarrow> event_comm s = event_comm s'"
  by (simp add: event_comm_def split: option.split)

lemma event_comm_update [simp]:
  "event_comm (s\<lparr>cpu := c\<rparr>) = event_comm s" "event_comm (s\<lparr>locks := L\<rparr>) = event_comm s"
  "event_comm (s\<lparr>cpu := c, locks := L\<rparr>) = event_comm s"
  "event_comm (s\<lparr>ticks := t, curproc := x\<rparr>) = event_comm (s\<lparr>curproc := x\<rparr>)"
  by (rule event_comm_cong; simp)+

lemma traceevent_disabled [run_simps]:
  "tb_enabled (traceBuffer s) = 0 \<Longrightarrow> traceevent ty p a b c nm s = Inr s"
  by (simp add: traceevent_def)

lemma traceevent_run [run_simps]:
  assumes "tb_enabled (traceBuffer s) \<noteq> 0" "lock_free Trace_lock s" "cpu_ok (cpu s)"
  shows "traceevent ty p a b c nm s =
    Inr (s\<lparr>traceBuffer := put_payload (ticks s, ty, p, a, b, c, event_comm s, event_name nm)
             (traceBuffer s), cpu := settle (cpu s)\<rparr>)"
proof -
  let ?f = "\<lambda>s. s\<lparr>traceBuffer := put_event (ticks s) ty p a b c (event_comm s) (event_name nm)
              (traceBuffer s)\<rparr>"
  have "andthen (acquire Trace_lock s) (\<lambda>s. release Trace_lock (?f s))
      = Inr ((?f s)\<lparr>cpu := settle (cpu s)\<rparr>)"
    using assms by (intro critical_section) simp_all
  then show ?thesis using assms(1) by (simp add: traceevent_def put_payload_def)
qed

text \<open>
  A history of calls. Between two calls the clock and the running process may have changed, so
  each call comes with the ticks and the current process it sees.
\<close>

record trace_call =
  tc_ticks :: uint
  tc_cur :: "nat option"
  tc_type :: cint
  tc_pid :: cint
  tc_arg0 :: cint
  tc_arg1 :: cint
  tc_arg2 :: cint
  tc_name :: "byte list option"

primrec trace_history :: "trace_call list \<Rightarrow> 'a ktrace_scheme \<Rightarrow> stop + 'a ktrace_scheme" where
  "trace_history [] s = Inr s"
| "trace_history (c # cs) s =
     andthen (traceevent (tc_type c) (tc_pid c) (tc_arg0 c) (tc_arg1 c) (tc_arg2 c) (tc_name c)
                (s\<lparr>ticks := tc_ticks c, curproc := tc_cur c\<rparr>)) (trace_history cs)"

definition call_payload :: "'a ktrace_scheme \<Rightarrow> trace_call \<Rightarrow> payload" where
  "call_payload s c =
     (tc_ticks c, tc_type c, tc_pid c, tc_arg0 c, tc_arg1 c, tc_arg2 c,
      event_comm (s\<lparr>curproc := tc_cur c\<rparr>), event_name (tc_name c))"


lemma call_payload_cong:
  "ptable s = ptable s' \<Longrightarrow> call_payload s = call_payload s'"
  by (auto simp: call_payload_def fun_eq_iff intro: event_comm_cong)

lemma put_payload_enabled [simp]: "tb_enabled (put_payload x tb) = tb_enabled tb"
  by (simp add: put_payload_def split: prod.split)

lemma trace_history_run:
  assumes "tb_enabled (traceBuffer s) \<noteq> 0" "lock_free Trace_lock s" "cpu_ok (cpu s)"
  shows "\<exists>s'. trace_history cs s = Inr s' \<and>
    traceBuffer s' = fold put_payload (map (call_payload s) cs) (traceBuffer s)"
  using assms
proof (induction cs arbitrary: s)
  case (Cons c cs)
  let ?s1 = "s\<lparr>ticks := tc_ticks c, curproc := tc_cur c\<rparr>"
  let ?s2 = "?s1\<lparr>traceBuffer := put_payload (call_payload s c) (traceBuffer s), cpu := settle (cpu s)\<rparr>"
  have step: "traceevent (tc_type c) (tc_pid c) (tc_arg0 c) (tc_arg1 c) (tc_arg2 c) (tc_name c) ?s1
      = Inr ?s2"
    using Cons.prems
    by (simp add: traceevent_run lock_free_def call_payload_def)
  have "call_payload ?s2 = call_payload s" by (rule call_payload_cong) simp
  with Cons.IH [of ?s2] Cons.prems step show ?case by (simp add: lock_free_def)
qed simp

lemma put_payload_seq [simp]: "tb_seq (put_payload x tb) = tb_seq tb + 1"
  by (simp add: put_payload_def split: prod.split)

lemma fold_put_payload_seq: "tb_seq (fold put_payload xs tb) = tb_seq tb + of_nat (length xs)"
  by (induction xs arbitrary: tb) simp_all

lemma tb_inv_traceinit:
  assumes "length (tb_events (traceBuffer s)) = 128"
  shows "tb_inv (traceBuffer (traceinit s))" "unread (traceBuffer (traceinit s)) = []"
  using assms by (simp_all add: traceinit_def tb_inv_def unread_def ring_contents_def)

text \<open>The strings of an event.\<close>

lemma event_comm_kernel:
  "curproc s = None \<Longrightarrow> arr_str (event_comm s) = map of_char ''kernel''"
  using safestrcpy_arr_name [of "replicate 16 0" "cbytes ''kernel''"]
  by (simp add: event_comm_def cbytes_def arr_str_def)

lemma event_comm_proc:
  assumes "curproc s = Some i" "0 <s pid (ptable s ! i)" "length (pname (ptable s ! i)) = 16"
  shows "arr_str (event_comm s) = take 15 (arr_str (pname (ptable s ! i)))"
  using safestrcpy_arr_name [of "replicate 16 0" "pname (ptable s ! i)"] assms
  by (simp add: event_comm_def)

lemma event_name_str:
  assumes "0 \<in> set n"
  shows "arr_str (event_name (Some n)) = take 15 (arr_str n)"
  using safestrcpy_arr_name [of "replicate 16 0" n] assms by (simp add: event_name_def)

section \<open>Properties\<close>

text \<open>
  C2. The trace buffer keeps the most recent 128 unread events, in order: after any history of
  \<^verbatim>\<open>traceevent\<close> calls, at whatever ticks and in whatever processes, the unread events are the
  last 128 of what was unread before followed by the recorded calls. They carry consecutive
  sequence numbers up to \<^verbatim>\<open>seq\<close>, across wrap-around of the counters, and
  \<^verbatim>\<open>overwritten\<close> grows by exactly the number of events dropped.
\<close>

theorem trace_keeps_recent:
  assumes "tb_inv (traceBuffer s)" "tb_enabled (traceBuffer s) \<noteq> 0"
    and "lock_free Trace_lock s" "cpu_ok (cpu s)"
  shows "\<exists>s'. trace_history cs s = Inr s' \<and>
    (let old = unread (traceBuffer s); new = unread (traceBuffer s');
         dropped = length old + length cs - 128
     in map ev_payload new = drop dropped (map ev_payload old @ map (call_payload s) cs) \<and>
        map ev_seq new = map (\<lambda>k. tb_readseq (traceBuffer s') + of_nat k) [0..<length new] \<and>
        tb_seq (traceBuffer s') = tb_seq (traceBuffer s) + of_nat (length cs) \<and>
        tb_overwritten (traceBuffer s') = tb_overwritten (traceBuffer s) + of_nat dropped)"
proof -
  obtain s' where run: "trace_history cs s = Inr s'"
    and tb: "traceBuffer s' = fold put_payload (map (call_payload s) cs) (traceBuffer s)"
    using trace_history_run [OF assms(2-4)] by blast
  note q = recent.fold_push [OF assms(1), of "map (call_payload s) cs", folded tb]
  from q(1) have "map ev_seq (unread (traceBuffer s'))
      = map (\<lambda>k. tb_readseq (traceBuffer s') + of_nat k) [0..<length (unread (traceBuffer s'))]"
    by (simp add: tb_inv_def)
  with run q(2,3) show ?thesis by (simp add: Let_def tb fold_put_payload_seq)
qed

definition demo_event :: trace_event where
  "demo_event = \<lparr>ev_seq = 0, ev_ticks = 0, ev_type = 0, ev_pid = 0, ev_arg0 = 0, ev_arg1 = 0,
     ev_arg2 = 0, ev_comm = replicate 16 0, ev_event = replicate 16 0, ev_overwritten = 0\<rparr>"

definition demo_trace :: ktrace where
  "demo_trace = traceinit (kproc.extend demo_sys
     \<lparr>traceBuffer = \<lparr>tb_enabled = 0, tb_seq = 0, tb_readseq = 0, tb_overwritten = 0,
        tb_events = replicate 128 demo_event\<rparr>\<rparr>)"

theorem trace_keeps_recent_witness:
  "\<exists>s'. trace_history
          (replicate 130 \<lparr>tc_ticks = 5, tc_cur = None, tc_type = TRACE_TYPE_PROC, tc_pid = 1,
             tc_arg0 = 0, tc_arg1 = 0, tc_arg2 = 0, tc_name = None\<rparr>) demo_trace = Inr s' \<and>
        length (unread (traceBuffer s')) = 128 \<and> tb_overwritten (traceBuffer s') = 2"
proof -
  let ?c = "\<lparr>tc_ticks = 5, tc_cur = None, tc_type = TRACE_TYPE_PROC, tc_pid = 1,
             tc_arg0 = 0, tc_arg1 = 0, tc_arg2 = 0, tc_name = None\<rparr>"
  have inv: "tb_inv (traceBuffer demo_trace)" and empty: "unread (traceBuffer demo_trace) = []"
    unfolding demo_trace_def by (rule tb_inv_traceinit; simp add: kproc.defs)+
  have ok: "tb_enabled (traceBuffer demo_trace) \<noteq> 0" "lock_free Trace_lock demo_trace"
    "cpu_ok (cpu demo_trace)" "tb_overwritten (traceBuffer demo_trace) = 0"
    by (simp_all add: demo_trace_def traceinit_def initlock_def kproc.defs demo_sys_def lock_free_def cpu_ok_def)
  obtain s' where run: "trace_history (replicate 130 ?c) demo_trace = Inr s'"
    and new: "map ev_payload (unread (traceBuffer s'))
      = drop 2 (map (call_payload demo_trace) (replicate 130 ?c))"
    and lost: "tb_overwritten (traceBuffer s') = 2"
    using trace_keeps_recent [OF inv ok(1-3), of "replicate 130 ?c"] empty ok(4)
    by (auto simp: Let_def)
  from arg_cong [OF new, of length] run lost show ?thesis by simp
qed

end
