(* ===== verification/Kalloc.thy ===== *)
theory Kalloc
  imports Ktrace
begin

text \<open>
  \<^verbatim>\<open>kalloc.c\<close>: the page allocator. The free list is threaded through the free pages themselves,
  so the model keeps it where the code does, in byte memory: the first eight bytes of a free
  page hold the address of the next one.
\<close>

section \<open>State and operations\<close>

record kalloc_state = ktrace +
  kmem_use_lock :: cint
  kmem_freelist :: addr
  kend :: addr

text \<open>\<open>kend\<close> is the linker symbol \<^verbatim>\<open>end\<close>, the first address after the kernel image.\<close>

definition trace_pid :: "'a kproc_scheme \<Rightarrow> cint" where
  "trace_pid s = (case curproc s of Some i \<Rightarrow> pid (ptable s ! i) | None \<Rightarrow> 0)"

definition kfree :: "addr \<Rightarrow> 'a kalloc_state_scheme \<Rightarrow> stop + 'a kalloc_state_scheme" where
  "kfree v s =
     (if v mod PGSIZE \<noteq> 0 \<or> v < kend s \<or> PHYSTOP \<le> V2P v then Inl (Panic ''kfree'')
      else
        let s = s\<lparr>mem := memset (mem s) v 1 PGSIZE\<rparr>
        in andthen (if kmem_use_lock s \<noteq> 0 then acquire Kmem_lock s else Inr s) (\<lambda>s.
        let s = s\<lparr>mem := store64 (mem s) v (kmem_freelist s), kmem_freelist := v\<rparr>
        in andthen (if kmem_use_lock s \<noteq> 0 then release Kmem_lock s else Inr s) (\<lambda>s.
        if kmem_use_lock s \<noteq> 0
        then traceevent TRACE_TYPE_MEM (trace_pid s) (ucast (V2P v)) 0 0 (Some (cbytes ''kfree'')) s
        else Inr s)))"

definition kalloc :: "'a kalloc_state_scheme \<Rightarrow> stop + addr \<times> 'a kalloc_state_scheme" where
  "kalloc s =
     andthen (if kmem_use_lock s \<noteq> 0 then acquire Kmem_lock s else Inr s) (\<lambda>s.
       let r = kmem_freelist s
       in andthen (if r \<noteq> 0 then Inr (s\<lparr>kmem_freelist := load64 (mem s) r\<rparr>)
                   else Inl (Panic ''Out of memory!'')) (\<lambda>s.
          andthen (if kmem_use_lock s \<noteq> 0 then release Kmem_lock s else Inr s) (\<lambda>s.
          andthen (if kmem_use_lock s \<noteq> 0 \<and> r \<noteq> 0
                   then traceevent TRACE_TYPE_MEM (trace_pid s) (ucast (V2P r)) 0 0
                          (Some (cbytes ''kalloc'')) s
                   else Inr s) (\<lambda>s. Inr (r, s)))))"

text \<open>
  \<^verbatim>\<open>freerange\<close>: the pointer loop. It ends because \<^verbatim>\<open>kfree\<close> refuses pages near the top of the
  address space, where the pointer would wrap around.
\<close>

lemma kfree_Inr_page_ok: "kfree v s = Inr s' \<Longrightarrow> page_ok (kend s) v"
  by (auto simp: kfree_def page_ok_def not_le not_less split: if_splits)

lemma page_ok_next: "page_ok e p \<Longrightarrow> unat (p + 4096) = unat p + 4096"
  using unat_V2P_ok [of e p] by (intro unat_add_no_wrap [of p 4096, simplified]) simp

function freerange_loop ::
    "addr \<Rightarrow> addr \<Rightarrow> 'a kalloc_state_scheme \<Rightarrow> stop + 'a kalloc_state_scheme" where
  "freerange_loop p vend s =
     (if p + PGSIZE \<le> vend
      then andthen (kfree p s) (\<lambda>s. freerange_loop (p + PGSIZE) vend s)
      else Inr s)"
  by pat_completeness auto
termination
proof (relation "measure (\<lambda>(p, vend, s). 2 ^ 64 - unat p)", simp)
  fix p vend :: addr and s s1 :: "'a kalloc_state_scheme"
  assume "kfree p s = Inr s1"
  then have "unat (p + 4096) = unat p + 4096" by (blast dest: kfree_Inr_page_ok page_ok_next)
  with unat_less [of "p + 4096"]
  show "((p + 4096, vend, s1), p, vend, s) \<in> measure (\<lambda>(p, vend, s). 2 ^ 64 - unat p)"
    by simp
qed

declare freerange_loop.simps [simp del]

definition freerange :: "addr \<Rightarrow> addr \<Rightarrow> 'a kalloc_state_scheme \<Rightarrow> stop + 'a kalloc_state_scheme" where
  "freerange vstart vend s = freerange_loop (PGROUNDUP vstart) vend s"

definition kinit1 :: "addr \<Rightarrow> addr \<Rightarrow> 'a kalloc_state_scheme \<Rightarrow> stop + 'a kalloc_state_scheme" where
  "kinit1 vstart vend s =
     freerange vstart vend
       ((initlock Kmem_lock ''kmem'' s)\<lparr>kmem_use_lock := 0, kmem_freelist := 0\<rparr>)"

definition kinit2 :: "'a kalloc_state_scheme \<Rightarrow> 'a kalloc_state_scheme" where
  "kinit2 s = s\<lparr>kmem_use_lock := 1\<rparr>"

section \<open>The free list in memory\<close>

fun flist :: "mem \<Rightarrow> addr \<Rightarrow> addr list \<Rightarrow> bool" where
  "flist m a [] \<longleftrightarrow> a = 0"
| "flist m a (p # ps) \<longleftrightarrow> a = p \<and> p \<noteq> 0 \<and> flist m (load64 m p) ps"

text \<open>The free pages are \<open>ps\<close>, in list order.\<close>

definition free_pages :: "'a kalloc_state_scheme \<Rightarrow> addr list \<Rightarrow> bool" where
  "free_pages s ps \<longleftrightarrow> flist (mem s) (kmem_freelist s) ps \<and> distinct ps \<and>
     (\<forall>p \<in> set ps. page_ok (kend s) p)"

text \<open>The locks the allocator takes are free, or it does not take locks yet.\<close>

definition kmem_ready :: "'a kalloc_state_scheme \<Rightarrow> bool" where
  "kmem_ready s \<longleftrightarrow> kmem_use_lock s = 0 \<or>
     lock_free Kmem_lock s \<and> lock_free Trace_lock s \<and> cpu_ok (cpu s)"

text \<open>What allocator calls leave behind besides the free list: an event, and \<^const>\<open>settle\<close>.\<close>

definition mem_event :: "string \<Rightarrow> addr \<Rightarrow> 'a kalloc_state_scheme \<Rightarrow> 'a kalloc_state_scheme" where
  "mem_event name p s =
     (if kmem_use_lock s = 0 then s
      else if tb_enabled (traceBuffer s) = 0 then s\<lparr>cpu := settle (cpu s)\<rparr>
      else s\<lparr>traceBuffer := put_payload (ticks s, TRACE_TYPE_MEM, trace_pid s, ucast (V2P p), 0, 0,
               event_comm s, event_name (Some (cbytes name))) (traceBuffer s),
             cpu := settle (cpu s)\<rparr>)"

lemma mem_event_simps [simp]:
  "mem (mem_event n p s) = mem s"
  "locks (mem_event n p s) = locks s"
  "ptable (mem_event n p s) = ptable s"
  "curproc (mem_event n p s) = curproc s"
  "nextpid (mem_event n p s) = nextpid s"
  "initproc (mem_event n p s) = initproc s"
  "ticks (mem_event n p s) = ticks s"
  "kpml4 (mem_event n p s) = kpml4 s"
  "cr3 (mem_event n p s) = cr3 s"
  "kmem_use_lock (mem_event n p s) = kmem_use_lock s"
  "kmem_freelist (mem_event n p s) = kmem_freelist s"
  "kend (mem_event n p s) = kend s"
  "cpu_ok (cpu (mem_event n p s)) = cpu_ok (cpu s)"
  "kmem_ready (mem_event n p s) = kmem_ready s"
  by (simp_all add: mem_event_def kmem_ready_def lock_free_def)

lemma flist_cong:
  assumes "\<forall>p \<in> set ps. p mod 4096 = 0"
    and "\<forall>x. PGROUNDDOWN x \<in> set ps \<longrightarrow> m x = m' x"
  shows "flist m a ps = flist m' a ps"
  using assms
proof (induction ps arbitrary: a)
  case (Cons p ps)
  have "load64 m p = load64 m' p"
    using Cons.prems by (intro load64_cong) (simp add: PGROUNDDOWN_offset)
  with Cons show ?case by simp
qed simp

text \<open>Writing outside the free pages leaves the free list alone.\<close>

lemma free_pages_mem:
  assumes "free_pages s ps" "\<And>x. PGROUNDDOWN x \<in> set ps \<Longrightarrow> m x = mem s x"
  shows "free_pages (s\<lparr>mem := m\<rparr>) ps"
proof -
  have "flist m (kmem_freelist s) ps = flist (mem s) (kmem_freelist s) ps"
    using assms by (intro flist_cong) (auto simp: free_pages_def page_ok_aligned)
  with assms(1) show ?thesis by (simp add: free_pages_def)
qed

lemma free_pages_event [simp]: "free_pages (mem_event n p s) ps = free_pages s ps"
  by (simp add: free_pages_def)

section \<open>What the operations do\<close>

text \<open>The event after a locked section, with the state that section left.\<close>

lemma traceevent_mem:
  assumes "kmem_use_lock s \<noteq> 0" "lock_free Trace_lock s" "cpu_ok (cpu s)"
  shows "traceevent TRACE_TYPE_MEM (trace_pid s) (ucast (V2P p)) 0 0 (Some (cbytes name))
      (s\<lparr>cpu := settle (cpu s)\<rparr>) = Inr (mem_event name p s)"
  using assms
  by (simp add: traceevent_run traceevent_disabled mem_event_def lock_free_def
      split: if_split)

lemma trace_pid_update [simp]:
  "trace_pid (s\<lparr>cpu := c\<rparr>) = trace_pid s"
  "trace_pid (s\<lparr>mem := m\<rparr>) = trace_pid s"
  "trace_pid ((s :: 'a kalloc_state_scheme)\<lparr>kmem_freelist := f\<rparr>) = trace_pid s"
  by (simp_all add: trace_pid_def split: option.split)

lemma kalloc_run [run_simps]:
  assumes "kmem_ready s" "kmem_freelist s \<noteq> 0"
  shows "kalloc s = Inr (kmem_freelist s, mem_event ''kalloc'' (kmem_freelist s)
      (s\<lparr>kmem_freelist := load64 (mem s) (kmem_freelist s)\<rparr>))"
proof (cases "kmem_use_lock s = 0")
  case True
  with assms show ?thesis by (simp add: kalloc_def mem_event_def Let_def)
next
  case False
  let ?f = "\<lambda>s. s\<lparr>kmem_freelist := load64 (mem s) (kmem_freelist s)\<rparr>"
  from False assms(1) have ready: "lock_free Kmem_lock s" "lock_free Trace_lock s" "cpu_ok (cpu s)"
    by (simp_all add: kmem_ready_def)
  then have cs: "andthen (acquire Kmem_lock s) (\<lambda>s. release Kmem_lock (?f s))
      = Inr ((?f s)\<lparr>cpu := settle (cpu s)\<rparr>)"
    by (intro critical_section) simp_all
  have "kalloc s = andthen (andthen (acquire Kmem_lock s) (\<lambda>s. release Kmem_lock (?f s)))
      (\<lambda>s1. andthen (traceevent TRACE_TYPE_MEM (trace_pid s1) (ucast (V2P (kmem_freelist s))) 0 0
        (Some (cbytes ''kalloc'')) s1) (\<lambda>s2. Inr (kmem_freelist s, s2)))"
    using False assms(2) ready(1)
    by (simp add: kalloc_def acquire_free andthen_assoc) (simp add: andthen_def release_def popcli_def Let_def)
  with False ready show ?thesis
    by (simp add: cs)
       (use traceevent_mem [of "?f s" "kmem_freelist s" "''kalloc''"] in \<open>simp add: lock_free_def\<close>)
qed

lemma kalloc_empty:
  assumes "kmem_ready s" "kmem_freelist s = 0"
  shows "kalloc s = Inl (Panic ''Out of memory!'')"
  using assms by (auto simp: kalloc_def kmem_ready_def acquire_free)

text \<open>The memory a freed page holds: junk, with the link to the next free page in front.\<close>

definition freed_mem :: "mem \<Rightarrow> addr \<Rightarrow> addr \<Rightarrow> mem" where
  "freed_mem m v next = store64 (memset m v 1 PGSIZE) v next"

lemma kfree_guard: "(v mod PGSIZE \<noteq> 0 \<or> v < e \<or> PHYSTOP \<le> V2P v) = (\<not> page_ok e v)"
  unfolding page_ok_def by (metis linorder_not_less)

lemma kfree_refused:
  "\<not> page_ok (kend s) v \<Longrightarrow> kfree v s = Inl (Panic ''kfree'')"
  by (simp only: kfree_def kfree_guard if_True not_False_eq_True)

lemma kfree_run [run_simps]:
  assumes "kmem_ready s" "page_ok (kend s) v"
  shows "kfree v s = Inr (mem_event ''kfree'' v
      (s\<lparr>mem := freed_mem (mem s) v (kmem_freelist s), kmem_freelist := v\<rparr>))"
proof (cases "kmem_use_lock s = 0")
  case True
  with assms show ?thesis
    unfolding kfree_def kfree_guard by (simp add: freed_mem_def mem_event_def Let_def)
next
  case False
  let ?s = "s\<lparr>mem := memset (mem s) v 1 PGSIZE\<rparr>"
  let ?f = "\<lambda>s. s\<lparr>mem := store64 (mem s) v (kmem_freelist s), kmem_freelist := v\<rparr>"
  from False assms(1) have ready: "lock_free Kmem_lock ?s" "lock_free Trace_lock ?s" "cpu_ok (cpu ?s)"
    by (simp_all add: kmem_ready_def lock_free_def)
  then have cs: "andthen (acquire Kmem_lock ?s) (\<lambda>s. release Kmem_lock (?f s))
      = Inr ((?f ?s)\<lparr>cpu := settle (cpu ?s)\<rparr>)"
    by (intro critical_section) simp_all
  have "kfree v s = andthen (andthen (acquire Kmem_lock ?s) (\<lambda>s. release Kmem_lock (?f s)))
      (\<lambda>s1. traceevent TRACE_TYPE_MEM (trace_pid s1) (ucast (V2P v)) 0 0 (Some (cbytes ''kfree'')) s1)"
    using False assms(2) ready(1) unfolding kfree_def kfree_guard
    by (simp add: acquire_free andthen_assoc Let_def)
       (simp add: andthen_def release_def popcli_def Let_def)
  with False ready show ?thesis
    by (simp add: cs)
       (use traceevent_mem [of "?f ?s" v "''kfree''"] in \<open>simp add: lock_free_def freed_mem_def\<close>)
qed

lemma freed_mem_outside: "PGROUNDDOWN x \<noteq> v \<Longrightarrow> v mod 4096 = 0 \<Longrightarrow> freed_mem m v n x = m x"
proof -
  assume x: "PGROUNDDOWN x \<noteq> v" and v: "v mod 4096 = 0"
  have "\<not> in_range v 8 x" using x word_in_page [OF v, of 0 x] by auto
  then show ?thesis
    using x v by (simp add: freed_mem_def store64_outside memset_fill mem_fill_def in_page_iff)
qed

lemma load64_freed [simp]: "load64 (freed_mem m v n) v = n"
  by (simp add: freed_mem_def)

lemma flist_nz: "flist m a (p # ps) \<Longrightarrow> a = p \<and> a \<noteq> 0"
  by simp

text \<open>Allocation and release on the list of free pages.\<close>

lemma kalloc_free_pages:
  assumes "kmem_ready s" "free_pages s (p # ps)"
  shows "kalloc s = Inr (p, mem_event ''kalloc'' p (s\<lparr>kmem_freelist := load64 (mem s) p\<rparr>))"
    and "free_pages (s\<lparr>kmem_freelist := load64 (mem s) p\<rparr>) ps"
proof -
  have p: "kmem_freelist s = p" "p \<noteq> 0" using assms(2) by (simp_all add: free_pages_def)
  with assms(1) show "kalloc s = Inr (p, mem_event ''kalloc'' p (s\<lparr>kmem_freelist := load64 (mem s) p\<rparr>))"
    using kalloc_run by blast
  from assms(2) show "free_pages (s\<lparr>kmem_freelist := load64 (mem s) p\<rparr>) ps"
    by (simp add: free_pages_def)
qed

lemma kalloc_exhausted:
  "kmem_ready s \<Longrightarrow> free_pages s [] \<Longrightarrow> kalloc s = Inl (Panic ''Out of memory!'')"
  by (simp add: kalloc_empty free_pages_def)

lemma kfree_free_pages:
  assumes "free_pages s ps" "page_ok (kend s) v" "v \<notin> set ps"
  shows "free_pages (s\<lparr>mem := freed_mem (mem s) v (kmem_freelist s), kmem_freelist := v\<rparr>) (v # ps)"
proof -
  have "flist (freed_mem (mem s) v (kmem_freelist s)) (kmem_freelist s) ps
      = flist (mem s) (kmem_freelist s) ps"
    using assms page_ok_aligned [OF assms(2)]
    by (intro flist_cong) (auto simp: free_pages_def page_ok_aligned intro!: freed_mem_outside)
  with assms show ?thesis by (simp add: free_pages_def page_ok_nz)
qed

section \<open>The contract of a page allocator\<close>

datatype page_op = Alloc | Free nat

locale page_allocator =
  fixes alloc :: "'s \<Rightarrow> stop + addr \<times> 's"
    and free :: "addr \<Rightarrow> 's \<Rightarrow> stop + 's"
    and inv :: "'s \<Rightarrow> addr list \<Rightarrow> bool"
    and usable :: "'s \<Rightarrow> addr \<Rightarrow> bool"
    and peek :: "'s \<Rightarrow> addr \<Rightarrow> byte"
    and oom :: stop
  assumes alloc_ok: "inv s (p # ps) \<Longrightarrow>
      \<exists>s'. alloc s = Inr (p, s') \<and> inv s' ps \<and> usable s' = usable s \<and> peek s' = peek s"
    and alloc_empty: "inv s [] \<Longrightarrow> alloc s = Inl oom"
    and free_ok: "inv s ps \<Longrightarrow> usable s p \<Longrightarrow> p \<notin> set ps \<Longrightarrow>
      \<exists>s'. free p s = Inr s' \<and> inv s' (p # ps) \<and> usable s' = usable s \<and>
        (\<forall>x. PGROUNDDOWN x \<noteq> p \<longrightarrow> peek s' x = peek s x)"
    and inv_distinct: "inv s ps \<Longrightarrow> distinct ps"
    and inv_usable: "inv s ps \<Longrightarrow> p \<in> set ps \<Longrightarrow> usable s p"
begin

text \<open>A client that frees only pages it holds; \<open>Free i\<close> gives back the \<open>i\<close>-th of them.\<close>

fun client :: "page_op list \<Rightarrow> addr list \<Rightarrow> 's \<Rightarrow> stop + addr list \<times> 's" where
  "client [] held s = Inr (held, s)"
| "client (Alloc # ops) held s = andthen (alloc s) (\<lambda>(p, s'). client ops (p # held) s')"
| "client (Free i # ops) held s =
     (if i < length held
      then andthen (free (held ! i) s) (\<lambda>s'. client ops (take i held @ drop (Suc i) held) s')
      else client ops held s)"

definition owned :: "'s \<Rightarrow> addr list \<Rightarrow> addr list \<Rightarrow> bool" where
  "owned s held ps \<longleftrightarrow> inv s ps \<and> distinct (held @ ps) \<and> (\<forall>p \<in> set held. usable s p)"

lemma owned_alloc:
  assumes "owned s held (p # ps)"
  obtains s' where "alloc s = Inr (p, s')" "owned s' (p # held) ps" "peek s' = peek s"
proof -
  from assms have "inv s (p # ps)" by (simp add: owned_def)
  with alloc_ok obtain s' where s': "alloc s = Inr (p, s')" "inv s' ps" "usable s' = usable s"
    "peek s' = peek s" by blast
  from assms inv_usable [of s "p # ps" p] have "usable s p" by (simp add: owned_def)
  with assms s' have "owned s' (p # held) ps" by (auto simp: owned_def)
  with s' that show thesis by blast
qed

lemma distinct_take_drop:
  assumes "distinct (held @ ps)" "i < length held"
  shows "distinct (take i held @ drop (Suc i) held @ (held ! i # ps))"
    and "set (take i held) \<union> set (drop (Suc i) held) = set held - {held ! i}"
proof -
  obtain x xs ys where parts: "held ! i = x" "take i held = xs" "drop (Suc i) held = ys" by blast
  with assms(2) have held: "held = xs @ x # ys" by (metis id_take_nth_drop)
  from assms(1) have d: "distinct ((xs @ x # ys) @ ps)" unfolding held .
  then show "distinct (take i held @ drop (Suc i) held @ (held ! i # ps))"
    unfolding parts by auto
  from d show "set (take i held) \<union> set (drop (Suc i) held) = set held - {held ! i}"
    unfolding parts unfolding held by auto
qed

lemma owned_free:
  assumes "owned s held ps" "i < length held"
  obtains s' where "free (held ! i) s = Inr s'"
    "owned s' (take i held @ drop (Suc i) held) (held ! i # ps)"
    "\<And>x. PGROUNDDOWN x \<notin> set held \<Longrightarrow> peek s' x = peek s x"
proof -
  from assms have d: "distinct (held @ ps)" and u: "usable s (held ! i)" "inv s ps"
    by (simp_all add: owned_def)
  from d nth_mem [OF assms(2)] have "held ! i \<notin> set ps" by auto
  from free_ok [OF u(2,1) this] obtain s' where s': "free (held ! i) s = Inr s'"
    "inv s' (held ! i # ps)" "usable s' = usable s"
    "\<forall>x. PGROUNDDOWN x \<noteq> held ! i \<longrightarrow> peek s' x = peek s x" by blast
  have "owned s' (take i held @ drop (Suc i) held) (held ! i # ps)"
    using s'(2,3) assms(1) distinct_take_drop [OF d assms(2)]
    by (simp add: owned_def)
  moreover have "peek s' x = peek s x" if "PGROUNDDOWN x \<notin> set held" for x
  proof -
    have "PGROUNDDOWN x \<noteq> held ! i" using that assms(2) by auto
    with s'(4) show ?thesis by blast
  qed
  ultimately show thesis using s'(1) that by blast
qed

text \<open>
  Pages are conserved and never handed out twice, the memory of pages outside the client's
  and the allocator's is not touched, and the only way to stop is to run out of pages.
\<close>

lemma client_safe:
  assumes "owned s held ps"
  shows "case client ops held s of
      Inl e \<Rightarrow> e = oom
    | Inr (held', s') \<Rightarrow> \<exists>ps'. owned s' held' ps' \<and>
        set held' \<union> set ps' = set held \<union> set ps \<and>
        (\<forall>x. PGROUNDDOWN x \<notin> set held \<union> set ps \<longrightarrow> peek s' x = peek s x)"
  using assms
proof (induction ops held s arbitrary: ps rule: client.induct)
  case (1 held s)
  then show ?case by auto
next
  case (2 ops held s)
  show ?case
  proof (cases ps)
    case Nil
    with "2.prems" show ?thesis by (simp add: owned_def alloc_empty)
  next
    case (Cons p qs)
    obtain s' where s': "alloc s = Inr (p, s')" "owned s' (p # held) qs" "peek s' = peek s"
      using owned_alloc [OF "2.prems" [unfolded Cons]] .
    from "2.IH" [OF s'(1) refl s'(2)] s' Cons show ?thesis
      by (fastforce split: sum.splits)
  qed
next
  case (3 i ops held s)
  show ?case
  proof (cases "i < length held")
    case True
    obtain s' where s': "free (held ! i) s = Inr s'"
      "owned s' (take i held @ drop (Suc i) held) (held ! i # ps)"
      "\<And>x. PGROUNDDOWN x \<notin> set held \<Longrightarrow> peek s' x = peek s x"
      using owned_free [OF "3.prems" True] by metis
    have d: "distinct (held @ ps)" using "3.prems" by (simp add: owned_def)
    have same: "set (take i held @ drop (Suc i) held) \<union> set (held ! i # ps) = set held \<union> set ps"
      unfolding set_append list.set distinct_take_drop(2) [OF d True] using nth_mem [OF True] by blast
    from "3.IH"(1) [OF True s'(1,2), unfolded same] s'(1,3) True show ?thesis
      by (fastforce split: sum.splits)
  next
    case False
    with "3.IH"(2) [OF False] "3.prems" show ?thesis by simp
  qed
qed

end

interpretation kmem: page_allocator kalloc kfree "\<lambda>s ps. kmem_ready s \<and> free_pages s ps"
  "\<lambda>s. page_ok (kend s)" mem "Panic ''Out of memory!''"
proof
  fix s :: "'a kalloc_state_scheme" and p ps
  assume inv: "kmem_ready s \<and> free_pages s (p # ps)"
  then have "kmem_ready (s\<lparr>kmem_freelist := load64 (mem s) p\<rparr>)"
    by (simp add: kmem_ready_def lock_free_def)
  with inv kalloc_free_pages [of s p ps]
  show "\<exists>s'. kalloc s = Inr (p, s') \<and> (kmem_ready s' \<and> free_pages s' ps) \<and>
      page_ok (kend s') = page_ok (kend s) \<and> mem s' = mem s" by simp
next
  fix s :: "'a kalloc_state_scheme" and p ps
  assume inv: "kmem_ready s \<and> free_pages s ps" and p: "page_ok (kend s) p" "p \<notin> set ps"
  let ?s = "s\<lparr>mem := freed_mem (mem s) p (kmem_freelist s), kmem_freelist := p\<rparr>"
  have "kmem_ready ?s" using inv by (simp add: kmem_ready_def lock_free_def)
  with inv p kfree_run [of s p] kfree_free_pages [of s ps p] page_ok_aligned [OF p(1)]
  show "\<exists>s'. kfree p s = Inr s' \<and> (kmem_ready s' \<and> free_pages s' (p # ps)) \<and>
      page_ok (kend s') = page_ok (kend s) \<and>
      (\<forall>x. PGROUNDDOWN x \<noteq> p \<longrightarrow> mem s' x = mem s x)"
    by (simp add: freed_mem_outside)
qed (auto simp: kalloc_exhausted free_pages_def)

section \<open>Building the free list\<close>

text \<open>The whole pages of a range, in address order.\<close>

definition pages_from :: "addr \<Rightarrow> nat \<Rightarrow> addr list" where
  "pages_from p n = map (\<lambda>i. p + 4096 * of_nat i) [0..<n]"

lemma pages_from_0 [simp]: "pages_from p 0 = []"
  by (simp add: pages_from_def)

lemma pages_from_Suc: "pages_from p (Suc n) = p # pages_from (p + 4096) n"
  by (simp add: pages_from_def upt_conv_Cons map_Suc_upt [symmetric] algebra_simps del: upt_Suc)

lemma freerange_loop_run:
  assumes "kmem_ready s" "free_pages s ps" "\<forall>q \<in> set (pages_from p n). page_ok (kend s) q"
    and "distinct (pages_from p n)" "set (pages_from p n) \<inter> set ps = {}"
    and "unat vend - unat p < 4096 * Suc n" "unat p + 4096 * n \<le> unat vend" "unat p + 4096 < 2 ^ 64"
  shows "\<exists>s'. freerange_loop p vend s = Inr s' \<and> kmem_ready s' \<and> kend s' = kend s \<and>
    free_pages s' (rev (pages_from p n) @ ps)"
  using assms
proof (induction n arbitrary: p s ps)
  case 0
  then have "unat (p + 4096) = unat p + 4096" by (simp add: unat_add_no_wrap)
  with 0 have "\<not> p + 4096 \<le> vend" by (simp add: word_le_nat_alt)
  with 0 show ?case by (simp add: freerange_loop.simps [of p])
next
  case (Suc n)
  have next_p: "unat (p + 4096) = unat p + 4096" using Suc.prems(8) by (simp add: unat_add_no_wrap)
  with Suc.prems have go: "p + 4096 \<le> vend" by (simp add: word_le_nat_alt)
  have p: "page_ok (kend s) p" "p \<notin> set ps" using Suc.prems(3,5) by (simp_all add: pages_from_Suc)
  obtain s1 where s1: "kfree p s = Inr s1" "kmem_ready s1 \<and> free_pages s1 (p # ps)"
    "page_ok (kend s1) = page_ok (kend s)"
    using kmem.free_ok [of s ps p] Suc.prems(1,2) p by blast
  have e1: "kend s1 = kend s" using s1(1) Suc.prems(1) p by (auto simp: kfree_run)
  have room: "unat (p + 4096) + 4096 < 2 ^ 64" using unat_V2P_ok [OF p(1)] by (simp add: next_p)
  have "\<exists>s'. freerange_loop (p + 4096) vend s1 = Inr s' \<and> kmem_ready s' \<and> kend s' = kend s1 \<and>
      free_pages s' (rev (pages_from (p + 4096) n) @ (p # ps))"
  proof (rule Suc.IH)
    show "\<forall>q \<in> set (pages_from (p + 4096) n). page_ok (kend s1) q"
      using Suc.prems(3) by (simp add: pages_from_Suc e1)
  qed (use s1(2) Suc.prems next_p room in \<open>auto simp: pages_from_Suc\<close>)
  with go s1(1) e1 show ?case by (simp add: freerange_loop.simps [of p] pages_from_Suc)
qed

lemma unat_pages_from:
  fixes p :: addr
  assumes "unat p + 4096 * n < 2 ^ 64" "i < n"
  shows "unat (p + 4096 * of_nat i) = unat p + 4096 * i"
proof -
  have "unat (4096 * of_nat i :: addr) = 4096 * i"
    using assms unat_of_nat_small [of "4096 * i", where 'a = 64] by simp
  with assms show ?thesis by (simp add: unat_add_no_wrap)
qed

lemma pages_from_distinct:
  assumes "unat p + 4096 * n < 2 ^ 64"
  shows "distinct (pages_from p n)"
proof -
  have "inj_on (\<lambda>i. p + 4096 * of_nat i) {0..<n}"
  proof (rule inj_onI)
    fix i j assume "i \<in> {0..<n}" "j \<in> {0..<n}" "p + 4096 * of_nat i = p + 4096 * (of_nat j :: addr)"
    then have "unat p + 4096 * i = unat p + 4096 * j"
      using unat_pages_from [OF assms] by (metis atLeastLessThan_iff)
    then show "i = j" by simp
  qed
  then show ?thesis by (simp add: pages_from_def distinct_map)
qed

text \<open>The pages of a range inside the memory the allocator accepts.\<close>

lemma pages_from_ok:
  assumes "p mod 4096 = 0" "e \<le> p" "KERNBASE \<le> p"
    and "unat p + 4096 * n \<le> unat (KERNBASE + PHYSTOP)" "q \<in> set (pages_from p n)"
  shows "page_ok e q"
proof -
  obtain i where i: "i < n" "q = p + 4096 * of_nat i" using assms(5) by (auto simp: pages_from_def)
  have q: "unat q = unat p + 4096 * i"
    using assms(4) i by (simp add: unat_pages_from [of p n])
  have "unat q mod 4096 = 0" using assms(1) q by (simp add: aligned_iff)
  moreover have "e \<le> q" using assms(2) q by (simp add: word_le_nat_alt)
  moreover have "unat (q - KERNBASE) = unat q - unat KERNBASE"
    using assms(3) q by (intro unat_sub) (simp add: word_le_nat_alt)
  then have "V2P q < PHYSTOP"
    using assms(4) i q by (simp add: V2P_def word_less_nat_alt)
  ultimately show ?thesis by (simp add: page_ok_def aligned_iff)
qed

section \<open>Properties\<close>

text \<open>
  C18. Pages are conserved and isolated: whatever sequence of \<^verbatim>\<open>kalloc\<close> and \<^verbatim>\<open>kfree\<close> calls a
  client makes, giving back only pages it holds, the pages it holds are distinct from each
  other and from the free ones, together they are exactly the pages that were free at the
  start, and no byte of any other page changes. The only way for the sequence to stop early
  is the panic of an empty free list.
\<close>

theorem kalloc_conserves_pages:
  assumes "kmem_ready s" "free_pages s ps"
  shows "case kmem.client ops [] s of
      Inl e \<Rightarrow> e = Panic ''Out of memory!''
    | Inr (held, s') \<Rightarrow> \<exists>ps'. free_pages s' ps' \<and> distinct (held @ ps') \<and>
        set held \<union> set ps' = set ps \<and>
        (\<forall>x. PGROUNDDOWN x \<notin> set ps \<longrightarrow> mem s' x = mem s x)"
proof -
  have "kmem.owned s [] ps"
    unfolding kmem.owned_def using assms by (simp add: free_pages_def)
  from kmem.client_safe [OF this, of ops] show ?thesis
    by (fastforce simp: kmem.owned_def split: sum.splits)
qed

definition demo_kmem :: "addr list \<Rightarrow> kalloc_state" where
  "demo_kmem ps = ktrace.extend demo_trace
     \<lparr>kmem_use_lock = 1, kmem_freelist = (case ps of [] \<Rightarrow> 0 | p # _ \<Rightarrow> p),
      kend = KERNBASE + 0x100000\<rparr>"

lemma demo_kmem_simps [simp]:
  "kmem_ready (demo_kmem ps)"
  "mem (demo_kmem ps) = (\<lambda>_. 0)"
  "kmem_freelist (demo_kmem ps) = (case ps of [] \<Rightarrow> 0 | p # _ \<Rightarrow> p)"
  "kend (demo_kmem ps) = KERNBASE + 0x100000"
  by (simp_all add: demo_kmem_def demo_trace_def traceinit_def initlock_def ktrace.defs kproc.defs
      demo_sys_def kmem_ready_def lock_free_def cpu_ok_def)

lemma demo_page_ok: "page_ok (KERNBASE + 0x100000) (KERNBASE + 0x101000)"
  by (simp add: page_ok_def V2P_def)

lemma demo_kmem_free: "free_pages (demo_kmem [KERNBASE + 0x101000]) [KERNBASE + 0x101000]"
  using demo_page_ok by (simp add: free_pages_def load64_def)

theorem kalloc_conserves_pages_witness:
  "\<exists>held s'. kmem.client [Alloc, Free 0, Alloc] [] (demo_kmem [KERNBASE + 0x101000]) = Inr (held, s') \<and>
     set held \<subseteq> {KERNBASE + 0x101000}"
proof -
  let ?p = "KERNBASE + 0x101000"
  let ?s = "demo_kmem [?p]"
  have ok: "page_ok (kend ?s) ?p" unfolding demo_kmem_simps by (rule demo_page_ok)
  have r: "kmem_ready ?s \<and> free_pages ?s [?p]" using demo_kmem_simps(1) demo_kmem_free by blast
  obtain s1 where s1: "kalloc ?s = Inr (?p, s1)" "kmem_ready s1 \<and> free_pages s1 []"
    "page_ok (kend s1) = page_ok (kend ?s)"
    using kmem.alloc_ok [OF r] by blast
  obtain s2 where s2: "kfree ?p s1 = Inr s2" "kmem_ready s2 \<and> free_pages s2 [?p]"
    using kmem.free_ok [OF s1(2), of ?p] ok s1(3) by (metis empty_iff list.set(1))
  obtain s3 where s3: "kalloc s2 = Inr (?p, s3)" using kmem.alloc_ok [OF s2(2)] by blast
  have run: "kmem.client [Alloc, Free 0, Alloc] [] ?s = Inr ([?p], s3)"
    using s1(1) s2(1) s3 by simp
  show ?thesis
    using kalloc_conserves_pages [OF demo_kmem_simps(1) demo_kmem_free, of "[Alloc, Free 0, Alloc]"]
      run by auto
qed

text \<open>
  C20. \<^verbatim>\<open>kalloc\<close> never returns a null pointer: it returns the first free page, removed from the
  free list, or panics when there is none.
\<close>

theorem kalloc_never_null:
  assumes "kmem_ready s" "free_pages s ps"
  shows "kalloc s = (case ps of
      [] \<Rightarrow> Inl (Panic ''Out of memory!'')
    | p # qs \<Rightarrow> Inr (p, mem_event ''kalloc'' p (s\<lparr>kmem_freelist := load64 (mem s) p\<rparr>))) \<and>
    0 \<notin> set ps"
proof -
  have "0 \<notin> set ps" using assms(2) page_ok_nz by (auto simp: free_pages_def)
  with assms show ?thesis
    using kalloc_free_pages(1) kalloc_exhausted by (cases ps) auto
qed

theorem kalloc_never_null_witness:
  "kalloc (demo_kmem []) = Inl (Panic ''Out of memory!'')"
proof -
  have "free_pages (demo_kmem []) []" by (simp add: free_pages_def)
  from kalloc_never_null [OF demo_kmem_simps(1) this] show ?thesis by simp
qed

text \<open>
  C19. \<^verbatim>\<open>kinit1\<close> terminates and makes exactly the whole pages of the given range free, when the
  range lies above the kernel image and below the end of physical memory.
\<close>

theorem kinit1_frees_range:
  assumes "KERNBASE \<le> vstart" "kend s \<le> vstart" "vstart \<le> vend" "vend \<le> KERNBASE + PHYSTOP"
  shows "\<exists>s'. kinit1 vstart vend s = Inr s' \<and> free_pages s'
    (rev (pages_from (PGROUNDUP vstart) ((unat vend - unat (PGROUNDUP vstart)) div 4096)))"
proof -
  let ?p = "PGROUNDUP vstart"
  let ?n = "(unat vend - unat ?p) div 4096"
  let ?s = "(initlock Kmem_lock ''kmem'' s)\<lparr>kmem_use_lock := 0, kmem_freelist := 0\<rparr>"
  have bound: "unat vend \<le> 0xFFFF80000E000000" using assms(4) by (simp add: word_le_nat_alt)
  have start: "unat vstart \<le> unat vend" using assms(3) by (simp add: word_le_nat_alt)
  have up: "unat ?p = (unat vstart + 4095) div 4096 * 4096"
    using bound start by (intro unat_PGROUNDUP) simp
  have ge: "vstart \<le> ?p" unfolding word_le_nat_alt up by arith
  have small: "unat ?p + 4096 < 2 ^ 64" unfolding up using bound start by simp
  show ?thesis
  proof (cases "unat ?p \<le> unat vend")
    case True
    have k: "kend ?s = kend s" by (simp add: initlock_def)
    have "unat ?p + 4096 * ?n \<le> unat vend" using True by auto
    moreover have "page_ok (kend s) q" if "q \<in> set (pages_from ?p ?n)" for q
      using that assms(1,2) ge bound True
      by (intro pages_from_ok [of ?p _ ?n]) (auto simp: PGROUNDUP_down)
    moreover have "distinct (pages_from ?p ?n)"
      using bound True by (intro pages_from_distinct) auto
    moreover have "kmem_ready ?s" "free_pages ?s []"
      by (simp_all add: kmem_ready_def free_pages_def)
    ultimately have "\<exists>s'. freerange_loop ?p vend ?s = Inr s' \<and> kmem_ready s' \<and> kend s' = kend ?s \<and>
        free_pages s' (rev (pages_from ?p ?n) @ [])"
      using small k by (intro freerange_loop_run) auto
    then show ?thesis by (auto simp: kinit1_def freerange_def)
  next
    case False
    have "unat (?p + 4096) = unat ?p + 4096" using small by (simp add: unat_add_no_wrap)
    with False have "\<not> ?p + 4096 \<le> vend" by (simp add: word_le_nat_alt)
    with False show ?thesis
      by (simp add: kinit1_def freerange_def freerange_loop.simps free_pages_def)
  qed
qed

theorem kinit1_frees_range_witness:
  "\<exists>s'. kinit1 (KERNBASE + 0x100001) (KERNBASE + 0x103000) (demo_kmem []) = Inr s' \<and>
     free_pages s' [KERNBASE + 0x102000, KERNBASE + 0x101000]"
proof -
  have up: "PGROUNDUP (KERNBASE + 0x100001) = KERNBASE + 0x101000"
    by (simp add: PGROUNDUP_down PGROUNDDOWN_minus)
  have "rev (pages_from (KERNBASE + 0x101000) 2) = [KERNBASE + 0x102000, KERNBASE + 0x101000]"
    by (simp add: pages_from_def numeral_eq_Suc)
  with kinit1_frees_range [of "KERNBASE + 0x100001" "demo_kmem []" "KERNBASE + 0x103000"]
  show ?thesis unfolding up demo_kmem_simps by simp
qed

end
