(* ===== verification/Vm.thy ===== *)
theory Vm
  imports Kalloc
begin

unbundle bit_operations_syntax

text \<open>
  \<^verbatim>\<open>vm.c\<close>: four-level page tables. Tables are pages of byte memory with 512 entries of eight bytes;
  the operations are those of the source, on the allocator of \<open>Kalloc\<close>. A loop
  \<^verbatim>\<open>for(; a < end; a += PGSIZE)\<close> is a recursion over the addresses it visits, which
  \<open>page_range\<close> lists; all bounds are below \<^verbatim>\<open>KERNBASE\<close>, so the counter does not wrap.
  \<^verbatim>\<open>loaduvm\<close> reads a file and belongs with \<^verbatim>\<open>exec\<close>.
\<close>

section \<open>State\<close>

record vm_state = kalloc_state +
  kpdpt :: addr

section \<open>Tables\<close>

text \<open>
  One level of \<^verbatim>\<open>walkpgdir\<close>: follow the entry at address \<open>ent\<close>, or allocate a zeroed table for
  it. \<open>None\<close> is the early \<^verbatim>\<open>return 0\<close>.
\<close>

definition walk_level ::
    "addr \<Rightarrow> bool \<Rightarrow> 'a kalloc_state_scheme \<Rightarrow> stop + addr option \<times> 'a kalloc_state_scheme" where
  "walk_level ent alloc s =
     (if load64 (mem s) ent AND PTE_P \<noteq> 0
      then Inr (Some (P2V (PTE_ADDR (load64 (mem s) ent))), s)
      else if \<not> alloc then Inr (None, s)
      else andthen (kalloc s) (\<lambda>(p, s).
        if p = 0 then Inr (None, s)
        else let s = s\<lparr>mem := memset (mem s) p 0 PGSIZE\<rparr>
             in Inr (Some p, s\<lparr>mem := store64 (mem s) ent (V2P p OR PTE_P OR PTE_W OR PTE_U)\<rparr>)))"

definition walkpgdir ::
    "addr \<Rightarrow> addr \<Rightarrow> bool \<Rightarrow> 'a kalloc_state_scheme \<Rightarrow> stop + addr \<times> 'a kalloc_state_scheme" where
  "walkpgdir pml4 va alloc s =
     andthen (walk_level (pml4 + 8 * PMX va) alloc s) (\<lambda>(r, s).
       case r of None \<Rightarrow> Inr (0, s)
       | Some pdp \<Rightarrow> andthen (walk_level (pdp + 8 * PDPX va) alloc s) (\<lambda>(r, s).
           case r of None \<Rightarrow> Inr (0, s)
           | Some pd \<Rightarrow> andthen (walk_level (pd + 8 * PDX va) alloc s) (\<lambda>(r, s).
               case r of None \<Rightarrow> Inr (0, s)
               | Some pgtab \<Rightarrow> Inr (pgtab + 8 * PTX va, s))))"

text \<open>
  \<^verbatim>\<open>mappages\<close>: \<open>n\<close> is the number of pages after the current one. Both \<^verbatim>\<open>a\<close> and \<^verbatim>\<open>last\<close> are
  page-aligned, so \<^verbatim>\<open>a == last\<close> holds after \<open>(last - a) / PGSIZE\<close> rounds.
\<close>

fun mappages_loop ::
    "addr \<Rightarrow> nat \<Rightarrow> addr \<Rightarrow> addr \<Rightarrow> cint \<Rightarrow> 'a kalloc_state_scheme \<Rightarrow>
       stop + cint \<times> 'a kalloc_state_scheme" where
  "mappages_loop pml4 n a pa perm s =
     andthen (walkpgdir pml4 a True s) (\<lambda>(pte, s).
       if pte = 0 then Inr (-1, s)
       else if load64 (mem s) pte AND PTE_P \<noteq> 0 then Inl (Panic ''remap'')
       else let s = s\<lparr>mem := store64 (mem s) pte (pa OR scast perm OR PTE_P)\<rparr>
            in case n of
                 0 \<Rightarrow> Inr (0, s)
               | Suc k \<Rightarrow> mappages_loop pml4 k (a + PGSIZE) (pa + PGSIZE) perm s)"

declare mappages_loop.simps [simp del]

definition mappages ::
    "addr \<Rightarrow> addr \<Rightarrow> addr \<Rightarrow> addr \<Rightarrow> cint \<Rightarrow> 'a kalloc_state_scheme \<Rightarrow>
       stop + cint \<times> 'a kalloc_state_scheme" where
  "mappages pml4 va msz pa perm s =
     (let a = PGROUNDDOWN va; last = PGROUNDDOWN (va + msz - 1)
      in mappages_loop pml4 (unat (last - a) div 4096) a pa perm s)"

definition setupkvm :: "'a vm_state_scheme \<Rightarrow> stop + addr \<times> 'a vm_state_scheme" where
  "setupkvm s =
     andthen (kalloc s) (\<lambda>(pml4, s).
       let s = s\<lparr>mem := memset (mem s) pml4 0 PGSIZE\<rparr>
       in Inr (pml4, s\<lparr>mem := store64 (mem s) (pml4 + 8 * 256) (V2P (kpdpt s) OR PTE_P OR PTE_W)\<rparr>))"

definition kvmalloc :: "'a vm_state_scheme \<Rightarrow> stop + 'a vm_state_scheme" where
  "kvmalloc s =
     andthen (kalloc s) (\<lambda>(p, s).
       let s = s\<lparr>kpml4 := p, mem := memset (mem s) p 0 PGSIZE\<rparr>
       in andthen (kalloc s) (\<lambda>(q, s).
          let s = s\<lparr>kpdpt := q, mem := memset (mem s) q 0 PGSIZE\<rparr>;
              s = s\<lparr>mem := store64 (mem s) (kpml4 s + 8 * PMX KERNBASE) (V2P q OR PTE_P OR PTE_W)\<rparr>;
              s = s\<lparr>mem := store64 (mem s) q (PTE_PS OR PTE_P OR PTE_W)\<rparr>;
              s = s\<lparr>mem := store64 (mem s) (q + 8 * 3)
                     (0xC0000000 OR PTE_PS OR PTE_P OR PTE_W OR PTE_PWT OR PTE_PCD)\<rparr>
          in Inr (switchkvm s)))"

section \<open>User memory\<close>

definition page_range :: "addr \<Rightarrow> addr \<Rightarrow> addr list" where
  "page_range a b = pages_from a ((unat b - unat a + 4095) div 4096)"

text \<open>\<^verbatim>\<open>inituvm\<close>: \<open>init\<close> is the embedded first program, \<open>isz\<close> its size.\<close>

definition inituvm ::
    "addr \<Rightarrow> addr \<Rightarrow> uint \<Rightarrow> 'a kalloc_state_scheme \<Rightarrow> stop + 'a kalloc_state_scheme" where
  "inituvm pml4 init isz s =
     (if 4096 \<le> isz then Inl (Panic ''inituvm: more than a page'')
      else andthen (kalloc s) (\<lambda>(p, s).
        let s = s\<lparr>mem := memset (mem s) p 0 PGSIZE\<rparr>
        in andthen (mappages pml4 PGSIZE PGSIZE (V2P p) 6 s) (\<lambda>(_, s).
           Inr (s\<lparr>mem := memmove (mem s) p init isz\<rparr>))))"

fun deallocuvm_loop ::
    "addr \<Rightarrow> addr list \<Rightarrow> 'a kalloc_state_scheme \<Rightarrow> stop + 'a kalloc_state_scheme" where
  "deallocuvm_loop pml4 [] s = Inr s"
| "deallocuvm_loop pml4 (a # as) s =
     andthen (walkpgdir pml4 a False s) (\<lambda>(pte, s).
       if pte \<noteq> 0 \<and> load64 (mem s) pte AND PTE_P \<noteq> 0
       then let pa = PTE_ADDR (load64 (mem s) pte)
            in if pa = 0 then Inl (Panic ''kfree'')
               else andthen (kfree (P2V pa) s) (\<lambda>s.
                      deallocuvm_loop pml4 as (s\<lparr>mem := store64 (mem s) pte 0\<rparr>))
       else deallocuvm_loop pml4 as s)"

definition deallocuvm ::
    "addr \<Rightarrow> addr \<Rightarrow> addr \<Rightarrow> 'a kalloc_state_scheme \<Rightarrow> stop + addr \<times> 'a kalloc_state_scheme" where
  "deallocuvm pml4 oldsz newsz s =
     (if oldsz \<le> newsz then Inr (oldsz, s)
      else andthen (deallocuvm_loop pml4 (page_range (PGROUNDUP newsz) oldsz) s) (\<lambda>s.
             Inr (newsz, s)))"

fun allocuvm_loop ::
    "addr \<Rightarrow> addr \<Rightarrow> addr \<Rightarrow> addr list \<Rightarrow> 'a kalloc_state_scheme \<Rightarrow>
       stop + addr \<times> 'a kalloc_state_scheme" where
  "allocuvm_loop pml4 oldsz newsz [] s = Inr (newsz, s)"
| "allocuvm_loop pml4 oldsz newsz (a # as) s =
     andthen (kalloc s) (\<lambda>(p, s).
       if p = 0 then andthen (deallocuvm pml4 newsz oldsz s) (\<lambda>(_, s). Inr (0, s))
       else let s = s\<lparr>mem := memset (mem s) p 0 PGSIZE\<rparr>
            in andthen (mappages pml4 a PGSIZE (V2P p) 6 s) (\<lambda>(r, s).
               if r <s 0
               then andthen (deallocuvm pml4 newsz oldsz s) (\<lambda>(_, s).
                    andthen (kfree p s) (\<lambda>s. Inr (0, s)))
               else allocuvm_loop pml4 oldsz newsz as s))"

definition allocuvm ::
    "addr \<Rightarrow> addr \<Rightarrow> addr \<Rightarrow> 'a kalloc_state_scheme \<Rightarrow> stop + addr \<times> 'a kalloc_state_scheme" where
  "allocuvm pml4 oldsz newsz s =
     (if KERNBASE \<le> newsz then Inr (0, s)
      else if newsz < oldsz then Inr (oldsz, s)
      else allocuvm_loop pml4 oldsz newsz (page_range (PGROUNDUP oldsz) newsz) s)"

text \<open>
  \<^verbatim>\<open>freevm\<close>: \<open>free_entries l t is\<close> is the loop over the entries \<open>is\<close> of table \<open>t\<close>, \<open>l\<close> levels of
  tables above the user pages; each present entry's table is emptied the same way, then the
  page itself is freed.
\<close>

fun free_entries ::
    "nat \<Rightarrow> addr \<Rightarrow> nat list \<Rightarrow> 'a kalloc_state_scheme \<Rightarrow> stop + 'a kalloc_state_scheme" where
  "free_entries l t [] s = Inr s"
| "free_entries l t (i # is) s =
     (let e = load64 (mem s) (t + 8 * of_nat i); v = P2V (PTE_ADDR e)
      in if e AND PTE_P \<noteq> 0
         then andthen (case l of 0 \<Rightarrow> Inr s | Suc k \<Rightarrow> free_entries k v [0..<512] s) (\<lambda>s.
              andthen (kfree v s) (\<lambda>s. free_entries l t is s))
         else free_entries l t is s)"

definition freevm :: "addr \<Rightarrow> 'a kalloc_state_scheme \<Rightarrow> stop + 'a kalloc_state_scheme" where
  "freevm pml4 s =
     (if pml4 = 0 then Inl (Panic ''freevm: no pgdir'')
      else andthen (free_entries 3 pml4 [0..<256] s) (\<lambda>s. kfree pml4 s))"

definition clearpteu ::
    "addr \<Rightarrow> addr \<Rightarrow> 'a kalloc_state_scheme \<Rightarrow> stop + 'a kalloc_state_scheme" where
  "clearpteu pml4 uva s =
     andthen (walkpgdir pml4 uva False s) (\<lambda>(pte, s).
       if pte = 0 then Inl (Panic ''clearpteu'')
       else Inr (s\<lparr>mem := store64 (mem s) pte (load64 (mem s) pte AND NOT PTE_U)\<rparr>))"

fun copyuvm_loop ::
    "addr \<Rightarrow> addr \<Rightarrow> addr list \<Rightarrow> 'a kalloc_state_scheme \<Rightarrow> stop + addr \<times> 'a kalloc_state_scheme" where
  "copyuvm_loop pml4 d [] s = Inr (d, s)"
| "copyuvm_loop pml4 d (i # is) s =
     andthen (walkpgdir pml4 i False s) (\<lambda>(pte, s).
       if pte = 0 then Inl (Panic ''copyuvm: pte should exist'')
       else let e = load64 (mem s) pte
            in if e AND PTE_P = 0 then Inl (Panic ''copyuvm: page not present'')
               else andthen (kalloc s) (\<lambda>(p, s).
                 if p = 0 then andthen (freevm d s) (\<lambda>s. Inr (0, s))
                 else let s = s\<lparr>mem := memmove (mem s) p (P2V (PTE_ADDR e)) 4096\<rparr>
                      in andthen (mappages d i PGSIZE (V2P p) (ucast (PTE_FLAGS e)) s) (\<lambda>(r, s).
                         if r <s 0 then andthen (freevm d s) (\<lambda>s. Inr (0, s))
                         else copyuvm_loop pml4 d is s)))"

definition copyuvm :: "addr \<Rightarrow> uint \<Rightarrow> 'a vm_state_scheme \<Rightarrow> stop + addr \<times> 'a vm_state_scheme" where
  "copyuvm pml4 usz s =
     andthen (setupkvm s) (\<lambda>(d, s).
       if d = 0 then Inr (0, s)
       else copyuvm_loop pml4 d (page_range PGSIZE (ucast usz)) s)"

text \<open>
  \<^verbatim>\<open>uva2ka\<close> reads through the result of \<^verbatim>\<open>walkpgdir\<close> without checking it for 0.
\<close>

definition uva2ka :: "addr \<Rightarrow> addr \<Rightarrow> 'a kalloc_state_scheme \<Rightarrow> stop + addr" where
  "uva2ka pml4 uva s =
     andthen (walkpgdir pml4 uva False s) (\<lambda>(pte, s).
       if pte = 0 then Inl NullDeref
       else if load64 (mem s) pte AND PTE_P = 0 then Inr 0
       else if load64 (mem s) pte AND PTE_U = 0 then Inr 0
       else Inr (P2V (PTE_ADDR (load64 (mem s) pte))))"

text \<open>
  \<^verbatim>\<open>copyout\<close>: \<open>buf\<close> holds the \<^verbatim>\<open>len\<close> bytes at the kernel pointer \<^verbatim>\<open>p\<close>, which is outside user
  memory; \<open>poke\<close> is the \<^verbatim>\<open>memmove\<close> of a piece of it.
\<close>

primrec poke :: "mem \<Rightarrow> addr \<Rightarrow> byte list \<Rightarrow> mem" where
  "poke m a [] = m"
| "poke m a (b # bs) = poke (m(a := b)) (a + 1) bs"

function copyout ::
    "addr \<Rightarrow> addr \<Rightarrow> byte list \<Rightarrow> 'a kalloc_state_scheme \<Rightarrow> stop + cint \<times> 'a kalloc_state_scheme" where
  "copyout pml4 va buf s =
     (if buf = [] then Inr (0, s)
      else let va0 = PGROUNDDOWN va
           in andthen (uva2ka pml4 va0 s) (\<lambda>pa0.
              if pa0 = 0 then Inr (-1, s)
              else let n = min (unat (PGSIZE - (va - va0))) (length buf)
                   in copyout pml4 (va0 + PGSIZE) (drop n buf)
                        (s\<lparr>mem := poke (mem s) (pa0 + (va - va0)) (take n buf)\<rparr>)))"
  by pat_completeness auto
termination
proof (relation "measure (\<lambda>(pml4, va, buf, s). length buf)", simp)
  fix pml4 va :: addr and buf :: "byte list" and s :: "'a kalloc_state_scheme" and va0 pa0 n
  assume "buf \<noteq> []" "va0 = PGROUNDDOWN va" "n = min (unat (4096 - (va - va0))) (length buf)"
  moreover have "va - PGROUNDDOWN va = va mod 4096" by (simp add: PGROUNDDOWN_minus)
  moreover have "4096 - va mod 4096 \<noteq> (0 :: addr)"
  proof
    assume "4096 - va mod 4096 = (0 :: addr)"
    then have "unat (va mod 4096) = unat (4096 :: addr)" by simp
    then show False by (simp add: unat_mod_page)
  qed
  ultimately have "0 < n" by (simp add: unat_gt_0)
  with \<open>buf \<noteq> []\<close> show "((pml4, va0 + 4096, drop n buf,
      s\<lparr>mem := poke (mem s) (pa0 + (va - va0)) (take n buf)\<rparr>), pml4, va, buf, s)
      \<in> measure (\<lambda>(pml4, va, buf, s). length buf)"
    by simp
qed

declare copyout.simps [simp del]

end
