(* ===== verification/PageTable.thy ===== *)
theory PageTable
  imports Vm
begin

unbundle bit_operations_syntax

text \<open>
  What the page tables of \<open>Vm\<close> mean, and that the operations maintain it. A table is read as a
  function from virtual page numbers to entries (\<open>lookup\<close>). The invariant \<open>vm_inv\<close> gives every page
  of an address space one place in the tree, by a map from page addresses to level and
  virtual prefix, so that two virtual pages never share a table entry or a page of memory.
\<close>

section \<open>Entries\<close>

definition idx :: "nat \<Rightarrow> nat \<Rightarrow> nat" where
  "idx l v = v div 512 ^ l mod 512"

definition vpn :: "addr \<Rightarrow> nat" where
  "vpn va = unat va div 4096"

definition entry :: "mem \<Rightarrow> addr \<Rightarrow> nat \<Rightarrow> addr" where
  "entry m t i = load64 m (t + 8 * of_nat i)"

definition present :: "addr \<Rightarrow> bool" where
  "present e \<longleftrightarrow> e AND PTE_P \<noteq> 0"

definition child :: "addr \<Rightarrow> addr" where
  "child e = P2V (PTE_ADDR e)"

lemma idx_less [simp]: "idx l v < 512"
  by (simp add: idx_def)

lemma table_index:
  "drop_bit n va AND 0x1FF = (of_nat (unat va div 2 ^ n mod 512) :: addr)"
proof -
  have "(0x1FF :: addr) = mask 9" by (simp add: mask_eq_exp_minus_1)
  then have "drop_bit n va AND 0x1FF = take_bit 9 (drop_bit n va)" by (simp add: take_bit_eq_mask)
  moreover have "unat (take_bit 9 (drop_bit n va)) = unat va div 2 ^ n mod 512"
    using unat_less [of va]
    by (simp only: unsigned_take_bit_eq unsigned_drop_bit_eq) (simp add: take_bit_eq_mod drop_bit_eq_div)
  ultimately show ?thesis by (metis of_nat_unat ucast_id)
qed

lemma table_indices:
  "PMX va = of_nat (idx 3 (vpn va))" "PDPX va = of_nat (idx 2 (vpn va))"
  "PDX va = of_nat (idx 1 (vpn va))" "PTX va = of_nat (idx 0 (vpn va))"
  by (simp_all add: PMX_def PDPX_def PDX_def PTX_def table_index idx_def vpn_def
      flip: div_mult2_eq)

lemma entry_cong:
  assumes "t mod 4096 = 0" "i < 512" "\<And>x. PGROUNDDOWN x = t \<Longrightarrow> m x = m' x"
  shows "entry m t i = entry m' t i"
  unfolding entry_def
proof (rule load64_cong)
  fix k :: nat assume "k < 8"
  then have "in_range (t + 8 * of_nat i) 8 (t + 8 * of_nat i + of_nat k)" by simp
  with assms show "m (t + 8 * of_nat i + of_nat k) = m' (t + 8 * of_nat i + of_nat k)"
    by (metis word_in_page)
qed

lemma entry_store64:
  assumes t: "t mod 4096 = 0" "i < 512" and q: "q mod 4096 = 0" "j < 512"
  shows "entry (store64 m (t + 8 * of_nat i) v) q j = (if q = t \<and> j = i then v else entry m q j)"
proof (cases "q = t \<and> j = i")
  case True
  then show ?thesis by (simp add: entry_def)
next
  case False
  have "store64 m (t + 8 * of_nat i) v (q + 8 * of_nat j + of_nat k) = m (q + 8 * of_nat j + of_nat k)"
    if k: "k < 8" for k
  proof (rule store64_outside, rule notI)
    let ?x = "q + 8 * of_nat j + of_nat k :: addr"
    assume x: "in_range (t + 8 * of_nat i) 8 ?x"
    have "in_range (q + 8 * of_nat j) 8 ?x" using k by simp
    then have "q = t" using x t q by (metis word_in_page)
    define k' where "k' = unat (?x - (t + 8 * of_nat i))"
    have k': "k' < 8" using x by (simp add: in_range_def k'_def)
    have "q + of_nat (8 * j + k) = t + (of_nat (8 * i + k') :: addr)"
      by (simp add: k'_def)
    then have "of_nat (8 * j + k) = (of_nat (8 * i + k') :: addr)" using \<open>q = t\<close> by (simp only: add_left_cancel)
    moreover have "8 * j + k < 4096" "8 * i + k' < 4096" using q(2) t(2) k k' by simp_all
    ultimately have "8 * j + k = 8 * i + k'" by (subst (asm) of_nat_eq_small) simp_all
    with k k' have "j = i" by presburger
    with False \<open>q = t\<close> show False by simp
  qed
  with False show ?thesis unfolding entry_def by (auto intro: load64_cong)
qed

lemma entry_store64_other:
  "t mod 4096 = 0 \<Longrightarrow> i < 512 \<Longrightarrow> q mod 4096 = 0 \<Longrightarrow> j < 512 \<Longrightarrow> q \<noteq> t \<Longrightarrow>
     entry (store64 m (t + 8 * of_nat i) v) q j = entry m q j"
  by (simp add: entry_store64)

lemma memset_page:
  "p mod 4096 = 0 \<Longrightarrow> memset m p c 4096 x = (if PGROUNDDOWN x = p then ucast c else m x)"
  by (simp add: memset_fill mem_fill_def in_page_iff)

lemma load64_zero: "(\<And>i. i < 8 \<Longrightarrow> m (a + of_nat i) = 0) \<Longrightarrow> load64 m a = 0"
proof -
  assume "\<And>i. i < 8 \<Longrightarrow> m (a + of_nat i) = 0"
  then have "load64 m a = load64 (\<lambda>_. 0) a" by (intro load64_cong) simp
  then show ?thesis by (simp add: load64_def)
qed

lemma entry_zeroed:
  assumes "p mod 4096 = 0" "j < 512"
  shows "entry (memset m p 0 4096) p j = 0"
proof -
  have "entry (memset m p 0 4096) p j = entry (\<lambda>_. 0) p j"
    using assms by (intro entry_cong) (simp_all add: memset_page)
  then show ?thesis by (simp add: entry_def load64_def)
qed

lemma entry_memset_other:
  "p mod 4096 = 0 \<Longrightarrow> t mod 4096 = 0 \<Longrightarrow> i < 512 \<Longrightarrow> t \<noteq> p \<Longrightarrow>
     entry (memset m p c 4096) t i = entry m t i"
  by (intro entry_cong) (simp_all add: memset_page)

text \<open>An entry made of an aligned physical address and flags gives both back.\<close>

lemma low_bits_zero: "a mod 4096 = 0 \<Longrightarrow> a AND 0xFFF = 0" for a :: addr
  by (simp only: and_low)

lemma PTE_ADDR_or:
  assumes "a mod 4096 = 0" "f AND NOT 0xFFF = 0"
  shows "PTE_ADDR (a OR f) = a"
proof -
  have "a AND NOT 0xFFF = a" using assms(1) and_not_low [of a] by simp
  with assms(2) show ?thesis unfolding PTE_ADDR_def bit.conj_disj_distrib2 by simp
qed

lemma PTE_FLAGS_or:
  assumes "a mod 4096 = 0" "f AND NOT 0xFFF = 0"
  shows "PTE_FLAGS (a OR f) = f"
proof -
  have "f AND 0xFFF = (f AND 0xFFF) OR (f AND NOT 0xFFF)" using assms(2) by simp
  also have "\<dots> = f" by (simp flip: bit.conj_disj_distrib)
  finally show ?thesis
    using low_bits_zero [OF assms(1)] unfolding PTE_FLAGS_def bit.conj_disj_distrib2 by simp
qed

lemma and_flag_or:
  fixes a f k :: addr
  assumes "a mod 4096 = 0" "k AND NOT 0xFFF = 0"
  shows "(a OR f) AND k = f AND k"
proof -
  have "k = 0xFFF AND k"
  proof -
    have "k = (k AND 0xFFF) OR (k AND NOT 0xFFF)" by (simp flip: bit.conj_disj_distrib)
    with assms(2) show ?thesis by (simp add: and.commute)
  qed
  then have "a AND k = (a AND 0xFFF) AND k" by (metis and.assoc)
  also have "\<dots> = 0" using low_bits_zero [OF assms(1)] by simp
  finally show ?thesis unfolding bit.conj_disj_distrib2 by simp
qed

lemma V2P_aligned: "p mod 4096 = 0 \<Longrightarrow> V2P p mod 4096 = 0"
proof -
  assume "p mod 4096 = 0"
  then obtain c where c: "unat p = 4096 * c" by (auto simp: aligned_iff)
  have "unat (V2P p) = (if KERNBASE \<le> p then unat p - unat KERNBASE else unat p + 2 ^ 64 - unat KERNBASE)"
    by (simp add: V2P_def unat_sub_if_size word_size word_le_nat_alt)
  also have "\<dots> mod 4096 = 0"
    using c by (simp add: mod_eq_0_iff_dvd dvd_diff_nat)
  finally show ?thesis by (simp add: aligned_iff)
qed

text \<open>The entry \<^verbatim>\<open>V2P(p) | flags\<close> for a page \<open>p\<close>.\<close>

lemma entry_for_page:
  assumes "p mod 4096 = 0" "f AND NOT 0xFFF = 0"
  shows "child (V2P p OR f) = p" "PTE_FLAGS (V2P p OR f) = f" "present (V2P p OR f) = present f"
  using assms
  by (simp_all add: child_def PTE_ADDR_or PTE_FLAGS_or present_def and_flag_or V2P_aligned)

section \<open>Tables as functions\<close>

text \<open>
  \<open>walk m l t v\<close> is the address of the final entry for virtual page \<open>v\<close>, from table \<open>t\<close> of level
  \<open>l\<close> (0 for the last level, 3 for the PML4); \<open>lookup\<close> is that entry, 0 where a table is
  missing.
\<close>

fun walk :: "mem \<Rightarrow> nat \<Rightarrow> addr \<Rightarrow> nat \<Rightarrow> addr option" where
  "walk m 0 t v = Some (t + 8 * of_nat (idx 0 v))"
| "walk m (Suc l) t v =
     (let e = entry m t (idx (Suc l) v) in if present e then walk m l (child e) v else None)"

fun lookup_at :: "mem \<Rightarrow> nat \<Rightarrow> addr \<Rightarrow> nat \<Rightarrow> addr" where
  "lookup_at m 0 t v = entry m t (idx 0 v)"
| "lookup_at m (Suc l) t v =
     (let e = entry m t (idx (Suc l) v) in if present e then lookup_at m l (child e) v else 0)"

abbreviation "lookup m root \<equiv> lookup_at m 3 root"

lemma lookup_walk:
  "lookup_at m l t v = (case walk m l t v of None \<Rightarrow> 0 | Some a \<Rightarrow> load64 m a)"
  by (induction m l t v rule: walk.induct) (simp_all add: entry_def Let_def)

lemma not_present_0 [simp]: "\<not> present 0"
  by (simp add: present_def)

lemma walk_NoneD: "walk m l t v = None \<Longrightarrow> lookup_at m l t v = 0"
  by (simp add: lookup_walk)

text \<open>\<^verbatim>\<open>walkpgdir\<close> without allocation is \<^const>\<open>walk\<close>.\<close>

lemma walk_level_False:
  "walk_level ent False s =
     Inr (if present (load64 (mem s) ent) then Some (child (load64 (mem s) ent)) else None, s)"
  by (simp add: walk_level_def present_def child_def)

lemma walkpgdir_False:
  "walkpgdir root va False s =
     Inr (case walk (mem s) 3 root (vpn va) of None \<Rightarrow> 0 | Some a \<Rightarrow> a, s)"
  by (simp add: walkpgdir_def walk_level_False table_indices numeral_3_eq_3 Let_def
      flip: entry_def) (simp add: numeral_2_eq_2 Let_def)

section \<open>The invariant\<close>

type_synonym pmap = "addr \<Rightarrow> (nat \<times> nat) option"

text \<open>Only the lower half of a PML4 belongs to user memory.\<close>

definition slots :: "nat \<Rightarrow> nat" where
  "slots l = (if l = 3 then 256 else 512)"

text \<open>
  The pages of the address space with root \<open>root\<close> are exactly those of \<open>A\<close>: present entries lead
  to the page with the next place, and every page but the root is reached from its parent.
\<close>

definition linked :: "mem \<Rightarrow> pmap \<Rightarrow> addr \<Rightarrow> nat \<Rightarrow> nat \<Rightarrow> bool" where
  "linked m A p l k \<longleftrightarrow> (\<exists>t. A t = Some (Suc l, k div 512) \<and> k mod 512 < slots l \<and>
     present (entry m t (k mod 512)) \<and> child (entry m t (k mod 512)) = p)"

definition vm_inv :: "mem \<Rightarrow> addr \<Rightarrow> addr \<Rightarrow> pmap \<Rightarrow> bool" where
  "vm_inv m e root A \<longleftrightarrow> A root = Some (4, 0) \<and> (\<forall>p l k. A p = Some (l, k) \<longrightarrow> page_ok e p \<and> l \<le> 4) \<and>
     (\<forall>p l k i. A p = Some (Suc l, k) \<longrightarrow> i < slots l \<longrightarrow> present (entry m p i) \<longrightarrow>
        A (child (entry m p i)) = Some (l, k * 512 + i)) \<and>
     (\<forall>p l k. A p = Some (l, k) \<longrightarrow> p \<noteq> root \<longrightarrow> linked m A p l k)"

lemma slots_le: "i < slots l \<Longrightarrow> i < 512"
  by (simp add: slots_def split: if_splits)

lemma vm_invD:
  assumes "vm_inv m e root A"
  shows "A root = Some (4, 0)" "A p = Some lk \<Longrightarrow> page_ok e p" "A p = Some lk \<Longrightarrow> p mod 4096 = 0"
    and "A p = Some (Suc l, k) \<Longrightarrow> i < slots l \<Longrightarrow> present (entry m p i) \<Longrightarrow>
      A (child (entry m p i)) = Some (l, k * 512 + i)"
    and "A p = Some (l, k) \<Longrightarrow> p \<noteq> root \<Longrightarrow> linked m A p l k" "A p = Some (l, k) \<Longrightarrow> l \<le> 4"
proof -
  note * = assms [unfolded vm_inv_def]
  from * show "A root = Some (4, 0)" by blast
  from * show ok: "A p = Some lk \<Longrightarrow> page_ok e p" by (metis surj_pair)
  show "A p = Some lk \<Longrightarrow> p mod 4096 = 0" by (rule page_ok_aligned [OF ok])
  from * show "A p = Some (Suc l, k) \<Longrightarrow> i < slots l \<Longrightarrow> present (entry m p i) \<Longrightarrow>
      A (child (entry m p i)) = Some (l, k * 512 + i)" by blast
  from * show "A p = Some (l, k) \<Longrightarrow> p \<noteq> root \<Longrightarrow> linked m A p l k" by blast
  from * show "A p = Some (l, k) \<Longrightarrow> l \<le> 4" by blast
qed

text \<open>Every place in the tree has one page.\<close>

lemma place_unique:
  assumes inv: "vm_inv m e root A" and "A p = Some (l, k)" "A q = Some (l, k)"
  shows "p = q"
  using assms(2,3)
proof (induction "4 - l" arbitrary: l k p q)
  case 0
  then have "l = 4" using vm_invD(6) [OF inv] by force
  have "x = root" if "A x = Some (4, k)" for x
    using vm_invD(5) [OF inv that] vm_invD(6) [OF inv] by (force simp: linked_def)
  with 0 \<open>l = 4\<close> show ?case by metis
next
  case (Suc n)
  then have l: "l \<noteq> 4" by auto
  have "p \<noteq> root" "q \<noteq> root" using Suc.prems l vm_invD(1) [OF inv] by auto
  then obtain t t' where t: "A t = Some (Suc l, k div 512)" "child (entry m t (k mod 512)) = p"
    "A t' = Some (Suc l, k div 512)" "child (entry m t' (k mod 512)) = q"
    using vm_invD(5) [OF inv Suc.prems(1)] vm_invD(5) [OF inv Suc.prems(2)] by (auto simp: linked_def)
  have "n = 4 - Suc l" using Suc.hyps(2) by simp
  from Suc.hyps(1) [OF this t(1,3)] t(2,4) show ?case by simp
qed

lemma prefix_step: "v div 512 ^ Suc l * 512 + idx l v = v div 512 ^ l"
proof -
  have "v div 512 ^ Suc l = v div 512 ^ l div 512" by (metis div_mult2_eq power_Suc2)
  then show ?thesis by (simp add: idx_def)
qed

lemma idx_slots: "v < 2 ^ 35 \<Longrightarrow> idx l v < slots l"
  by (auto simp: idx_def slots_def less_mult_imp_div_less)

text \<open>Tables on the way to virtual page \<open>v\<close>.\<close>

definition on_path :: "pmap \<Rightarrow> nat \<Rightarrow> addr \<Rightarrow> nat \<Rightarrow> bool" where
  "on_path A l t v \<longleftrightarrow> A t = Some (Suc l, v div 512 ^ Suc l)"

lemma on_path_root: "vm_inv m e root A \<Longrightarrow> v < 2 ^ 35 \<Longrightarrow> on_path A 3 root v"
  by (simp add: on_path_def vm_invD)

lemma on_path_child:
  assumes "vm_inv m e root A" "v < 2 ^ 35" "on_path A (Suc l) t v" "present (entry m t (idx (Suc l) v))"
  shows "on_path A l (child (entry m t (idx (Suc l) v))) v"
  using vm_invD(4) [OF assms(1), of t "Suc l" "v div 512 ^ Suc (Suc l)" "idx (Suc l) v"] assms
    prefix_step [of v "Suc l"] idx_slots [OF assms(2), of "Suc l"]
  by (simp add: on_path_def)

text \<open>The final entry for \<open>v\<close> is a slot of the one page with that place in the tree.\<close>

lemma walk_on_path:
  assumes "vm_inv m e root A" "v < 2 ^ 35" "on_path A l t v" "walk m l t v = Some a"
  shows "\<exists>p. A p = Some (1, v div 512) \<and> a = p + 8 * of_nat (idx 0 v)"
  using assms(3,4)
proof (induction l arbitrary: t)
  case 0
  then show ?case by (auto simp: on_path_def)
next
  case (Suc l)
  show ?case
  proof (cases "present (entry m t (idx (Suc l) v))")
    case True
    from Suc.IH [OF on_path_child [OF assms(1,2) Suc.prems(1) True]] Suc.prems(2) True
    show ?thesis by (simp add: Let_def)
  next
    case False
    with Suc.prems(2) show ?thesis by (simp add: Let_def)
  qed
qed

text \<open>Final entries are never at address 0.\<close>

lemma final_entry_nz:
  assumes "page_ok e t"
  shows "t + 8 * of_nat (idx 0 v) \<noteq> 0"
proof
  assume "t + 8 * of_nat (idx 0 v) = 0"
  moreover have "PGROUNDDOWN (t + of_nat (8 * idx 0 v)) = t"
    using page_ok_aligned [OF assms] idx_less [of 0 v] by (intro PGROUNDDOWN_offset) simp_all
  moreover have "PGROUNDDOWN 0 = 0" by (simp add: PGROUNDDOWN_def)
  ultimately show False using page_ok_nz [OF assms] by simp
qed

lemma walk_nz:
  assumes "vm_inv m e root A" "v < 2 ^ 35" "walk m 3 root v = Some a"
  shows "a \<noteq> 0"
proof -
  obtain t k where "A t = Some (Suc 0, k)" "a = t + 8 * of_nat (idx 0 v)"
    using walk_on_path [OF assms(1,2) on_path_root [OF assms(1,2)] assms(3)]
    unfolding on_path_def One_nat_def by metis
  with final_entry_nz [OF vm_invD(2) [OF assms(1)]] show ?thesis by simp
qed

text \<open>Different virtual pages use different final entries.\<close>

lemma final_entry_inj:
  assumes "vm_inv m e root A" "A p = Some (1, v div 512)" "A p' = Some (1, v' div 512)"
    and "p + 8 * of_nat (idx 0 v) = p' + (8 * of_nat (idx 0 v') :: addr)"
  shows "v = v'"
proof -
  have al: "p mod 4096 = 0" "p' mod 4096 = 0" using vm_invD(3) [OF assms(1)] assms(2,3) by blast+
  have off: "p + of_nat (8 * idx 0 v) = p' + (of_nat (8 * idx 0 v') :: addr)"
    using assms(4) by simp
  have lt: "8 * idx 0 v < 4096" "8 * idx 0 v' < 4096" using idx_less [of 0] by simp_all
  have "p = p'" using arg_cong [OF off, of PGROUNDDOWN] al lt by (simp only: PGROUNDDOWN_offset)
  with off have "of_nat (8 * idx 0 v) = (of_nat (8 * idx 0 v') :: addr)" by (simp only: add_left_cancel)
  moreover have "8 * idx 0 v < 2 ^ LENGTH(64)" "8 * idx 0 v' < 2 ^ LENGTH(64)"
    by (rule less_trans [OF lt(1)], simp, rule less_trans [OF lt(2)], simp)
  ultimately have "8 * idx 0 v = 8 * idx 0 v'" by (simp only: of_nat_eq_small)
  then have "idx 0 v = idx 0 v'" by simp
  moreover have "v div 512 = v' div 512" using \<open>p = p'\<close> assms(2,3) by simp
  ultimately show ?thesis unfolding idx_def by (metis div_by_1 div_mult_mod_eq power_0)
qed

text \<open>Memory changes that leave the tables alone.\<close>

definition tables_agree :: "pmap \<Rightarrow> mem \<Rightarrow> mem \<Rightarrow> bool" where
  "tables_agree A m m' \<longleftrightarrow> (\<forall>x l k. A (PGROUNDDOWN x) = Some (Suc l, k) \<longrightarrow> m x = m' x)"

lemma entry_agree:
  assumes "vm_inv m e root A" "tables_agree A m m'" "A t = Some (Suc l, k)" "i < 512"
  shows "entry m' t i = entry m t i"
  using assms vm_invD(3) [OF assms(1,3)]
  by (intro entry_cong) (auto simp: tables_agree_def)

lemma linked_agree:
  assumes "vm_inv m e root A" "tables_agree A m m'" "linked m A p l k"
  shows "linked m' A p l k"
  using assms(3) entry_agree [OF assms(1,2)] by (fastforce simp: linked_def)

lemma vm_inv_agree:
  assumes "vm_inv m e root A" "tables_agree A m m'"
  shows "vm_inv m' e root A"
  unfolding vm_inv_def
proof (intro conjI allI impI)
  show "A (child (entry m' p i)) = Some (l, k * 512 + i)"
    if "A p = Some (Suc l, k)" "i < slots l" "present (entry m' p i)" for p l k i
    using that vm_invD(4) [OF assms(1)] entry_agree [OF assms that(1) slots_le [OF that(2)]] by simp
  show "linked m' A p l k" if "A p = Some (l, k)" "p \<noteq> root" for p l k
    using linked_agree [OF assms] vm_invD(5) [OF assms(1) that] .
qed (use vm_invD [OF assms(1)] in auto)

lemma lookup_agree:
  assumes "vm_inv m e root A" "tables_agree A m m'" "v < 2 ^ 35" "on_path A l t v"
  shows "walk m' l t v = walk m l t v" "lookup_at m' l t v = lookup_at m l t v"
proof -
  have "walk m' l t v = walk m l t v \<and> lookup_at m' l t v = lookup_at m l t v"
    using assms(4)
  proof (induction l arbitrary: t)
    case 0
    then show ?case using entry_agree [OF assms(1,2)] by (simp add: on_path_def)
  next
    case (Suc l)
    then have "entry m' t (idx (Suc l) v) = entry m t (idx (Suc l) v)"
      using entry_agree [OF assms(1,2)] by (auto simp: on_path_def)
    with Suc.IH on_path_child [OF assms(1,3) Suc.prems] show ?case by (simp add: Let_def)
  qed
  then show "walk m' l t v = walk m l t v" "lookup_at m' l t v = lookup_at m l t v" by blast+
qed

section \<open>Adding a table\<close>

lemma lookup_zero_table:
  assumes "p mod 4096 = 0" "\<And>j. j < 512 \<Longrightarrow> entry m p j = 0"
  shows "lookup_at m l p v = 0"
  using assms by (cases l) (simp_all add: Let_def)

text \<open>
  A fresh zeroed page becomes the table of entry \<open>i\<close> of table \<open>t\<close>. The invariant is kept and
  no virtual page changes its entry.
\<close>

definition add_table :: "mem \<Rightarrow> addr \<Rightarrow> nat \<Rightarrow> addr \<Rightarrow> mem" where
  "add_table m t i p = store64 (memset m p 0 4096) (t + 8 * of_nat i) (V2P p OR 7)"

definition can_add :: "mem \<Rightarrow> addr \<Rightarrow> addr \<Rightarrow> pmap \<Rightarrow> nat \<Rightarrow> addr \<Rightarrow> nat \<Rightarrow> nat \<Rightarrow> addr \<Rightarrow> bool" where
  "can_add m e root A l t k i p \<longleftrightarrow> vm_inv m e root A \<and> A t = Some (Suc (Suc l), k) \<and>
     i < slots (Suc l) \<and> \<not> present (entry m t i) \<and> page_ok e p \<and> A p = None"

lemma can_addD:
  assumes "can_add m e root A l t k i p"
  shows "vm_inv m e root A" "A t = Some (Suc (Suc l), k)" "\<not> present (entry m t i)" "page_ok e p"
    "A p = None" "t mod 4096 = 0" "p mod 4096 = 0" "i < 512" "p \<noteq> t"
    "present (V2P p OR 7)" "child (V2P p OR 7) = p"
proof -
  show *: "vm_inv m e root A" "A t = Some (Suc (Suc l), k)" "\<not> present (entry m t i)" "page_ok e p"
    "A p = None" using assms by (simp_all add: can_add_def)
  show "t mod 4096 = 0" using vm_invD(3) [OF *(1,2)] .
  show p: "p mod 4096 = 0" using page_ok_aligned [OF *(4)] .
  show "i < 512" using assms slots_le [of i "Suc l"] by (simp add: can_add_def)
  show "p \<noteq> t" using * by auto
  show "present (V2P p OR 7)" "child (V2P p OR 7) = p"
    using entry_for_page [OF p, of 7] by (simp_all add: present_def)
qed

lemma entry_add_table:
  assumes "can_add m e root A l t k i p" "q mod 4096 = 0" "j < 512"
  shows "entry (add_table m t i p) q j =
    (if q = t \<and> j = i then V2P p OR 7 else if q = p then 0 else entry m q j)"
  using assms can_addD [OF assms(1)]
  by (simp add: add_table_def entry_store64 entry_zeroed entry_memset_other)

lemma vm_inv_add_table:
  assumes add: "can_add m e root A l t k i p"
  shows "vm_inv (add_table m t i p) e root (A(p \<mapsto> (Suc l, k * 512 + i)))" (is "vm_inv ?m _ _ ?A")
  unfolding vm_inv_def
proof (intro conjI allI impI)
  note D = can_addD [OF add]
  show "?A root = Some (4, 0)" using vm_invD(1) [OF D(1)] D(5) by auto
  show "page_ok e q" "l' \<le> 4" if "?A q = Some (l', k')" for q l' k'
    using that D(4) vm_invD(2,6) [OF D(1)] vm_invD(6) [OF D(1,2)] by (auto split: if_splits)
  show "linked ?m ?A q l' k'" if "?A q = Some (l', k')" "q \<noteq> root" for q l' k'
  proof (cases "q = p")
    case True
    with that(1) have "l' = Suc l" "k' = k * 512 + i" by simp_all
    with D add entry_add_table [OF add D(6) D(8)] True show ?thesis
      by (auto simp: linked_def can_add_def intro!: exI [of _ t])
  next
    case False
    with that have "linked m A q l' k'" by (intro vm_invD(5) [OF D(1)]) simp_all
    then obtain u where u: "A u = Some (Suc l', k' div 512)"
      "k' mod 512 < slots l'" "present (entry m u (k' mod 512))" "child (entry m u (k' mod 512)) = q"
      by (auto simp: linked_def)
    have "entry ?m u (k' mod 512) = entry m u (k' mod 512)"
      using entry_add_table [OF add vm_invD(3) [OF D(1) u(1)], of "k' mod 512"] u D(3,5) by auto
    with u D(5) show ?thesis by (auto simp: linked_def intro!: exI [of _ u])
  qed
  fix q l' k' j
  assume q: "?A q = Some (Suc l', k')" "j < slots l'" "present (entry ?m q j)"
  have j: "j < 512" using q(2) by (rule slots_le)
  have al: "q mod 4096 = 0" using q(1) D(7) vm_invD(3) [OF D(1)] by (auto split: if_splits)
  note ent = entry_add_table [OF add al j]
  show "?A (child (entry ?m q j)) = Some (l', k' * 512 + j)"
  proof (cases "q = t \<and> j = i")
    case True
    with q(1) D(2,9) have "l' = Suc l" "k' = k" by auto
    with True show ?thesis using ent D(11) by simp
  next
    case False
    with q(3) ent have "q \<noteq> p" by auto
    with False q ent have "A (child (entry m q j)) = Some (l', k' * 512 + j)"
      by (intro vm_invD(4) [OF D(1)]) auto
    with D(5) False \<open>q \<noteq> p\<close> ent show ?thesis by auto
  qed
qed

lemma lookup_add_table:
  assumes add: "can_add m e root A l t k i p" and v: "v < 2 ^ 35" "on_path A l' q v"
  shows "lookup_at (add_table m t i p) l' q v = lookup_at m l' q v"
  using v(2)
proof (induction l' arbitrary: q)
  note D = can_addD [OF add]
  case 0
  then have "q mod 4096 = 0" "q \<noteq> t" "q \<noteq> p" using vm_invD(3) [OF D(1)] D by (auto simp: on_path_def)
  then show ?case using entry_add_table [OF add] by simp
next
  note D = can_addD [OF add]
  case (Suc l')
  then have q: "q mod 4096 = 0" "q \<noteq> p" using vm_invD(3) [OF D(1)] D by (auto simp: on_path_def)
  note ent = entry_add_table [OF add q(1)]
  show ?case
  proof (cases "q = t \<and> idx (Suc l') v = i")
    case True
    have "lookup_at (add_table m t i p) l' p v = 0"
      using lookup_zero_table [OF D(7)] entry_add_table [OF add D(7)] D(9) by simp
    with True D ent [of i] show ?thesis by (simp add: Let_def)
  next
    case False
    with q ent have "entry (add_table m t i p) q (idx (Suc l') v) = entry m q (idx (Suc l') v)" by auto
    with Suc.IH on_path_child [OF D(1) v(1) Suc.prems] show ?thesis by (simp add: Let_def)
  qed
qed

section \<open>The invariant on machine states\<close>

definition uvm :: "'a kalloc_state_scheme \<Rightarrow> addr \<Rightarrow> pmap \<Rightarrow> addr list \<Rightarrow> bool" where
  "uvm s root A ps \<longleftrightarrow> kmem_ready s \<and> free_pages s ps \<and> vm_inv (mem s) (kend s) root A \<and>
     (\<forall>p \<in> set ps. A p = None)"

text \<open>Operations on user memory change memory, the free list, the trace and the CPU state only.\<close>

definition vm_frame :: "'a kalloc_state_scheme \<Rightarrow> 'a kalloc_state_scheme \<Rightarrow> bool" where
  "vm_frame s s' \<longleftrightarrow> s' = s\<lparr>mem := mem s', kmem_freelist := kmem_freelist s',
     traceBuffer := traceBuffer s', cpu := cpu s'\<rparr>"

lemma vm_frame_refl [simp]: "vm_frame s s"
  by (simp add: vm_frame_def)

lemma vm_frame_mem [simp]: "vm_frame s (s\<lparr>mem := m\<rparr>)"
  by (cases s) (simp add: vm_frame_def)

lemma vm_frame_event: "vm_frame s (mem_event n p (s\<lparr>kmem_freelist := f\<rparr>))"
  by (cases s) (simp add: vm_frame_def mem_event_def)

lemma vm_frame_trans: "vm_frame s s1 \<Longrightarrow> vm_frame s1 s2 \<Longrightarrow> vm_frame s s2"
  unfolding vm_frame_def by (cases s; cases s1; cases s2) simp

lemma vm_frameD:
  assumes "vm_frame s s'"
  shows "ptable s' = ptable s" "curproc s' = curproc s" "locks s' = locks s" "kend s' = kend s"
    "kmem_use_lock s' = kmem_use_lock s" "ticks s' = ticks s"
proof -
  have "f s' = f (s\<lparr>mem := mem s', kmem_freelist := kmem_freelist s', traceBuffer := traceBuffer s',
      cpu := cpu s'\<rparr>)" for f :: "'a kalloc_state_scheme \<Rightarrow> 'b"
    using assms unfolding vm_frame_def by (rule arg_cong)
  from this [of ptable] this [of curproc] this [of locks] this [of kend] this [of kmem_use_lock]
    this [of ticks]
  show "ptable s' = ptable s" "curproc s' = curproc s" "locks s' = locks s" "kend s' = kend s"
    "kmem_use_lock s' = kmem_use_lock s" "ticks s' = ticks s" by simp_all
qed

text \<open>
  \<open>grows\<close>: from \<open>(s, A, ps)\<close> to \<open>(s', A', ps')\<close> some free pages became tables; every virtual page
  keeps its entry, every existing table keeps its present entries, and no byte outside the
  tables and the former free pages changed.
\<close>

definition is_table :: "pmap \<Rightarrow> addr \<Rightarrow> bool" where
  "is_table A p \<longleftrightarrow> (\<exists>l k. A p = Some (Suc l, k))"

definition grows ::
    "addr \<Rightarrow> 'a kalloc_state_scheme \<Rightarrow> pmap \<Rightarrow> addr list \<Rightarrow> nat \<Rightarrow>
       'a kalloc_state_scheme \<Rightarrow> pmap \<Rightarrow> addr list \<Rightarrow> bool" where
  "grows root s A ps n s' A' ps' \<longleftrightarrow> uvm s' root A' ps' \<and> vm_frame s s' \<and> A \<subseteq>\<^sub>m A' \<and>
     (\<exists>u. ps = u @ ps' \<and> length u \<le> n \<and> (\<forall>p. A' p \<noteq> A p \<longrightarrow> p \<in> set u \<and> is_table A' p)) \<and>
     (\<forall>v < 2 ^ 35. lookup (mem s') root v = lookup (mem s) root v) \<and>
     (\<forall>t l k i. A t = Some (Suc l, k) \<longrightarrow> i < slots l \<longrightarrow> present (entry (mem s) t i) \<longrightarrow>
        entry (mem s') t i = entry (mem s) t i) \<and>
     (\<forall>x. \<not> is_table A (PGROUNDDOWN x) \<longrightarrow> PGROUNDDOWN x \<notin> set ps \<longrightarrow> mem s' x = mem s x)"

lemma growsD:
  assumes "grows root s A ps n s' A' ps'"
  shows "uvm s' root A' ps'" "vm_frame s s'" "A \<subseteq>\<^sub>m A'" "kend s' = kend s"
    "length ps \<le> length ps' + n"
    "v < 2 ^ 35 \<Longrightarrow> lookup (mem s') root v = lookup (mem s) root v"
    "A t = Some (Suc l, k) \<Longrightarrow> i < slots l \<Longrightarrow> present (entry (mem s) t i) \<Longrightarrow>
       entry (mem s') t i = entry (mem s) t i"
    "\<not> is_table A (PGROUNDDOWN x) \<Longrightarrow> PGROUNDDOWN x \<notin> set ps \<Longrightarrow> mem s' x = mem s x"
  using assms by (auto simp: grows_def dest: vm_frameD)

lemma map_le_Some: "A \<subseteq>\<^sub>m A' \<Longrightarrow> A x = Some y \<Longrightarrow> A' x = Some y"
  by (metis domI map_le_def)

lemma grows_refl: "uvm s root A ps \<Longrightarrow> grows root s A ps 0 s A ps"
  by (simp add: grows_def)

lemma grows_trans:
  assumes 1: "grows root s A ps n s1 A1 ps1" and 2: "grows root s1 A1 ps1 n' s2 A2 ps2"
  shows "grows root s A ps (n + n') s2 A2 ps2"
proof -
  obtain u1 where u1: "ps = u1 @ ps1" "length u1 \<le> n" "\<forall>p. A1 p \<noteq> A p \<longrightarrow> p \<in> set u1 \<and> is_table A1 p"
    using 1 by (auto simp: grows_def)
  obtain u2 where u2: "ps1 = u2 @ ps2" "length u2 \<le> n'" "\<forall>p. A2 p \<noteq> A1 p \<longrightarrow> p \<in> set u2 \<and> is_table A2 p"
    using 2 by (auto simp: grows_def)
  have le: "A \<subseteq>\<^sub>m A1" "A1 \<subseteq>\<^sub>m A2" using 1 2 by (simp_all add: grows_def)
  have tab: "is_table A2 p" if "is_table A1 p" for p
    using that le(2) by (auto simp: is_table_def dest: map_le_Some)
  have new: "p \<in> set (u1 @ u2) \<and> is_table A2 p" if "A2 p \<noteq> A p" for p
    using that u1(3) u2(3) tab by (cases "A1 p = A p") auto
  have keep: "entry (mem s2) t i = entry (mem s) t i"
    if "A t = Some (Suc l, k)" "i < slots l" "present (entry (mem s) t i)" for t l k i
    using growsD(7) [OF 1 that] growsD(7) [OF 2 map_le_Some [OF le(1) that(1)] that(2)] that(3) by simp
  have out: "mem s2 x = mem s x"
    if "\<not> is_table A (PGROUNDDOWN x)" "PGROUNDDOWN x \<notin> set ps" for x
  proof -
    have "\<not> is_table A1 (PGROUNDDOWN x)"
      using that u1 by (metis UnI1 is_table_def set_append)
    with that u1(1) growsD(8) [OF 1] growsD(8) [OF 2] show ?thesis by simp
  qed
  show ?thesis
    unfolding grows_def
  proof (intro conjI exI [of _ "u1 @ u2"] allI impI)
    show "uvm s2 root A2 ps2" by (rule growsD(1) [OF 2])
    show "vm_frame s s2" using growsD(2) [OF 1] growsD(2) [OF 2] by (rule vm_frame_trans)
    show "A \<subseteq>\<^sub>m A2" using le by (rule map_le_trans)
    show "ps = (u1 @ u2) @ ps2" "length (u1 @ u2) \<le> n + n'" using u1(1,2) u2(1,2) by simp_all
    show "lookup (mem s2) root v = lookup (mem s) root v" if "v < 2 ^ 35" for v
      using growsD(6) [OF 1 that] growsD(6) [OF 2 that] by simp
  qed (use new keep out in blast)+
qed

lemma add_table_outside:
  assumes "t mod 4096 = 0" "i < 512" "p mod 4096 = 0" "PGROUNDDOWN x \<noteq> t" "PGROUNDDOWN x \<noteq> p"
  shows "add_table m t i p x = m x"
proof -
  have "\<not> in_range (t + 8 * of_nat i) 8 x" using assms word_in_page by metis
  with assms show ?thesis by (simp add: add_table_def store64_outside memset_page)
qed

lemma uvm_alloc:
  assumes "uvm s root A (p # ps)"
  shows "kalloc s = Inr (p, mem_event ''kalloc'' p (s\<lparr>kmem_freelist := load64 (mem s) p\<rparr>))"
    and "page_ok (kend s) p" "p \<noteq> 0" "A p = None" "p \<notin> set ps"
  using assms kalloc_free_pages [of s p ps] page_ok_nz [of "kend s" p]
  by (auto simp: uvm_def free_pages_def)

text \<open>Filling in memory after an allocation.\<close>

lemma uvm_after_alloc:
  assumes "uvm s root A (p # ps)" "vm_inv m (kend s) root A'"
    and "\<And>x. PGROUNDDOWN x \<in> set ps \<Longrightarrow> m x = mem s x" "\<And>q. q \<in> set ps \<Longrightarrow> A' q = None"
  shows "uvm ((mem_event ''kalloc'' p (s\<lparr>kmem_freelist := load64 (mem s) p\<rparr>))\<lparr>mem := m\<rparr>) root A' ps"
    (is "uvm (?s1\<lparr>mem := m\<rparr>) _ _ _")
proof -
  have "free_pages ?s1 ps"
    using assms(1) kalloc_free_pages [of s p ps] by (simp add: uvm_def)
  with assms(3) have "free_pages (?s1\<lparr>mem := m\<rparr>) ps" by (intro free_pages_mem) auto
  moreover have "kmem_ready (?s1\<lparr>mem := m\<rparr>)"
  proof -
    have "kmem_ready ?s1" using assms(1) by (simp add: uvm_def) (simp add: kmem_ready_def lock_free_def)
    then show ?thesis by (simp only: kmem_ready_def lock_free_def) simp
  qed
  ultimately show ?thesis using assms(2,4) by (simp add: uvm_def)
qed

lemma walk_level_True:
  assumes u: "uvm s root A ps" and v: "v < 2 ^ 35" and t: "on_path A (Suc l) t v" and ps: "ps \<noteq> []"
  obtains c s' A' ps' where
    "walk_level (t + 8 * of_nat (idx (Suc l) v)) True s = Inr (Some c, s')"
    "grows root s A ps 1 s' A' ps'" "on_path A' l c v"
    "present (entry (mem s') t (idx (Suc l) v))" "child (entry (mem s') t (idx (Suc l) v)) = c"
proof -
  have inv: "vm_inv (mem s) (kend s) root A" using u by (simp add: uvm_def)
  show thesis
  proof (cases "present (entry (mem s) t (idx (Suc l) v))")
    case True
    have "walk_level (t + 8 * of_nat (idx (Suc l) v)) True s = Inr (Some (child (entry (mem s) t (idx (Suc l) v))), s)"
      using True by (simp add: walk_level_def present_def child_def entry_def)
    moreover have "grows root s A ps 1 s A ps" using u by (simp add: grows_def)
    moreover have "on_path A l (child (entry (mem s) t (idx (Suc l) v))) v"
      by (rule on_path_child [OF inv v t True])
    ultimately show ?thesis using that True by blast
  next
    case False
    obtain p qs where pq: "ps = p # qs" using ps by (cases ps) auto
    note al = uvm_alloc [OF u [unfolded pq]]
    let ?i = "idx (Suc l) v"
    let ?s1 = "mem_event ''kalloc'' p (s\<lparr>kmem_freelist := load64 (mem s) p\<rparr>)"
    let ?m = "add_table (mem s) t ?i p"
    let ?A = "A(p \<mapsto> (Suc l, v div 512 ^ Suc (Suc l) * 512 + ?i))"
    have add: "can_add (mem s) (kend s) root A l t (v div 512 ^ Suc (Suc l)) ?i p"
      using inv t idx_slots [OF v, of "Suc l"] False al by (simp add: can_add_def on_path_def)
    note D = can_addD [OF add]
    have run: "walk_level (t + 8 * of_nat ?i) True s = Inr (Some p, ?s1\<lparr>mem := ?m\<rparr>)"
      using False al(1,3)
      by (simp add: walk_level_def present_def entry_def add_table_def Let_def)
    have out: "?m x = mem s x" if "PGROUNDDOWN x \<noteq> t" "PGROUNDDOWN x \<noteq> p" for x
      using that D by (intro add_table_outside) simp_all
    have "t \<notin> set qs" using u pq D(2) by (auto simp: uvm_def)
    then have "?m x = mem s x" if "PGROUNDDOWN x \<in> set qs" for x
      using that al(5) by (intro out) auto
    then have u': "uvm (?s1\<lparr>mem := ?m\<rparr>) root ?A qs"
      using u pq al(5) vm_inv_add_table [OF add]
      by (intro uvm_after_alloc) (auto simp: uvm_def)
    have "entry ?m q j = entry (mem s) q j" if "A q = Some (Suc l', k)" "j < slots l'"
      "present (entry (mem s) q j)" for q l' k j
      using that False D(5) slots_le [OF that(2)] vm_invD(3) [OF inv that(1)]
      by (auto simp: entry_add_table [OF add])
    moreover have "lookup ?m root v' = lookup (mem s) root v'" if "v' < 2 ^ 35" for v'
      using lookup_add_table [OF add that on_path_root [OF inv that]] .
    moreover have "A \<subseteq>\<^sub>m ?A" using al(4) by (auto simp: map_le_def)
    moreover have "?m x = mem s x" if "\<not> is_table A (PGROUNDDOWN x)" "PGROUNDDOWN x \<noteq> p" for x
      using that D(2) by (intro out) (auto simp: is_table_def)
    ultimately have g: "grows root s A ps 1 (?s1\<lparr>mem := ?m\<rparr>) ?A qs"
      unfolding grows_def using u' pq
      by (auto simp: is_table_def intro!: exI [of _ "[p]"]
          intro: vm_frame_trans [OF vm_frame_event vm_frame_mem])
    have "on_path ?A l p v" using prefix_step [of v "Suc l"] by (simp add: on_path_def)
    moreover have "entry ?m t ?i = V2P p OR 7"
      using entry_add_table [OF add D(6) idx_less] by simp
    ultimately show ?thesis using that [OF run g] D(10,11) by simp
  qed
qed

text \<open>
  \<^verbatim>\<open>walkpgdir\<close> with allocation, given three free pages: it returns the entry's address and
  changes no virtual page's entry.
\<close>

lemma walkpgdir_True:
  assumes u: "uvm s root A ps" and v: "vpn va < 2 ^ 35" and ps: "3 \<le> length ps"
  obtains t s' A' ps' where
    "walkpgdir root va True s = Inr (t + 8 * of_nat (idx 0 (vpn va)), s')"
    "grows root s A ps 3 s' A' ps'" "on_path A' 0 t (vpn va)"
    "walk (mem s') 3 root (vpn va) = Some (t + 8 * of_nat (idx 0 (vpn va)))"
proof -
  let ?v = "vpn va"
  have n0: "ps \<noteq> []" using ps by auto
  have p3: "on_path A (Suc 2) root ?v"
  proof -
    have "vm_inv (mem s) (kend s) root A" using u by (simp add: uvm_def)
    from on_path_root [OF this v] show ?thesis by (simp add: numeral_3_eq_3)
  qed
  obtain c1 s1 A1 ps1 where 1: "walk_level (root + 8 * of_nat (idx (Suc 2) ?v)) True s = Inr (Some c1, s1)"
    "grows root s A ps 1 s1 A1 ps1" "on_path A1 2 c1 ?v"
    "present (entry (mem s1) root (idx (Suc 2) ?v))" "child (entry (mem s1) root (idx (Suc 2) ?v)) = c1"
    using walk_level_True [OF u v p3 n0] .
  have n1: "ps1 \<noteq> []" using growsD(5) [OF 1(2)] ps by auto
  have p2: "on_path A1 (Suc 1) c1 ?v" using 1(3) by (simp add: numeral_2_eq_2)
  obtain c2 s2 A2 ps2 where 2: "walk_level (c1 + 8 * of_nat (idx (Suc 1) ?v)) True s1 = Inr (Some c2, s2)"
    "grows root s1 A1 ps1 1 s2 A2 ps2" "on_path A2 1 c2 ?v"
    "present (entry (mem s2) c1 (idx (Suc 1) ?v))" "child (entry (mem s2) c1 (idx (Suc 1) ?v)) = c2"
    using walk_level_True [OF growsD(1) [OF 1(2)] v p2 n1] .
  have n2: "ps2 \<noteq> []" using growsD(5) [OF 1(2)] growsD(5) [OF 2(2)] ps by auto
  have p1: "on_path A2 (Suc 0) c2 ?v" using 2(3) by simp
  obtain c3 s3 A3 ps3 where 3: "walk_level (c2 + 8 * of_nat (idx (Suc 0) ?v)) True s2 = Inr (Some c3, s3)"
    "grows root s2 A2 ps2 1 s3 A3 ps3" "on_path A3 0 c3 ?v"
    "present (entry (mem s3) c2 (idx (Suc 0) ?v))" "child (entry (mem s3) c2 (idx (Suc 0) ?v)) = c3"
    using walk_level_True [OF growsD(1) [OF 2(2)] v p1 n2] .
  note sl = idx_slots [OF v]
  have e1: "entry (mem s3) c1 (idx (Suc 1) ?v) = entry (mem s2) c1 (idx (Suc 1) ?v)"
    using growsD(7) [OF 3(2) map_le_Some [OF growsD(3) [OF 2(2)]] sl 2(4)] p2
    by (auto simp: on_path_def)
  have "A2 root = Some (Suc 3, 0)" "A1 root = Some (Suc 3, 0)"
    using growsD(1) [OF 1(2)] growsD(1) [OF 2(2)] by (auto simp: uvm_def vm_inv_def)
  then have e0: "entry (mem s3) root (idx (Suc 2) ?v) = entry (mem s1) root (idx (Suc 2) ?v)"
    using growsD(7) [OF 2(2) _ idx_slots [OF v, where l = 3]] growsD(7) [OF 3(2) _ idx_slots [OF v, where l = 3]] 1(4)
    by (simp add: numeral_3_eq_3)
  have w: "walk (mem s3) (Suc (Suc (Suc 0))) root ?v = Some (c3 + 8 * of_nat (idx 0 ?v))"
    using 1(4,5) 2(4,5) 3(4,5) e0 e1 by (simp add: Let_def numeral_2_eq_2)
  have "grows root s A ps 3 s3 A3 ps3"
    using grows_trans [OF grows_trans [OF 1(2) 2(2)] 3(2)] by (simp add: numeral_3_eq_3)
  moreover have "walkpgdir root va True s = Inr (c3 + 8 * of_nat (idx 0 ?v), s3)"
    using 1(1) 2(1) 3(1) by (simp add: walkpgdir_def table_indices numeral_3_eq_3 numeral_2_eq_2)
  moreover have "walk (mem s3) 3 root ?v = Some (c3 + 8 * of_nat (idx 0 ?v))"
    using w by (simp add: numeral_3_eq_3)
  ultimately show thesis using that 3(3) by blast
qed

section \<open>Changing a final entry\<close>

lemma div_mod_512: "k * 512 + j = v \<Longrightarrow> j < 512 \<Longrightarrow> k = v div 512 \<and> j = v mod 512" for k j v :: nat
  by auto

lemma idx_0: "idx 0 v = v mod 512"
  by (simp add: idx_def)

text \<open>
  Writing the final entry of virtual page \<open>v\<close>. The tables stay; the page \<open>v\<close> maps to may change, and
  every other user page keeps its place.
\<close>

definition set_leaf :: "mem \<Rightarrow> addr \<Rightarrow> nat \<Rightarrow> addr \<Rightarrow> mem" where
  "set_leaf m t v val = store64 m (t + 8 * of_nat (idx 0 v)) val"

lemma entry_set_leaf:
  assumes "t mod 4096 = 0" "q mod 4096 = 0" "j < 512"
  shows "entry (set_leaf m t v val) q j = (if q = t \<and> j = idx 0 v then val else entry m q j)"
  using assms by (simp add: set_leaf_def entry_store64)

lemma lookup_set_leaf:
  assumes inv: "vm_inv m e root A" and t: "on_path A 0 t v" and v': "v' < 2 ^ 35" "on_path A l q v'"
  shows "lookup_at (set_leaf m t v val) l q v' =
     (if v' = v \<and> walk m l q v' \<noteq> None then val else lookup_at m l q v')"
  using v'(2)
proof (induction l arbitrary: q)
  case 0
  have al: "t mod 4096 = 0" "q mod 4096 = 0"
    using vm_invD(3) [OF inv] t 0 by (auto simp: on_path_def)
  have "(q = t \<and> idx 0 v' = idx 0 v) = (v' = v)"
  proof
    assume "q = t \<and> idx 0 v' = idx 0 v"
    with t 0 have "v' div 512 = v div 512" "v' mod 512 = v mod 512" by (auto simp: on_path_def idx_0)
    then show "v' = v" by (metis div_mult_mod_eq)
  next
    assume "v' = v"
    with 0 t show "q = t \<and> idx 0 v' = idx 0 v"
      using place_unique [OF inv] by (auto simp: on_path_def)
  qed
  then show ?case using entry_set_leaf [OF al] by simp
next
  case (Suc l)
  have al: "t mod 4096 = 0" "q mod 4096 = 0" "q \<noteq> t"
    using vm_invD(3) [OF inv] t Suc.prems by (auto simp: on_path_def)
  then have same: "entry (set_leaf m t v val) q (idx (Suc l) v') = entry m q (idx (Suc l) v')"
    using entry_set_leaf [OF al(1,2)] by simp
  show ?case
  proof (cases "present (entry m q (idx (Suc l) v'))")
    case True
    from Suc.IH [OF on_path_child [OF inv v'(1) Suc.prems True]] True same show ?thesis
      by (simp only: lookup_at.simps walk.simps Let_def if_True)
  next
    case False
    with same show ?thesis by (simp add: Let_def)
  qed
qed

text \<open>Mapping a fresh page.\<close>

lemma vm_inv_map_leaf:
  assumes inv: "vm_inv m e root A" and v: "v < 2 ^ 35" and t: "on_path A 0 t v"
    and absent: "\<not> present (entry m t (idx 0 v))"
    and p: "page_ok e p" "A p = None" and val: "present val" "child val = p"
  shows "vm_inv (set_leaf m t v val) e root (A(p \<mapsto> (0, v)))" (is "vm_inv ?m _ _ ?A")
  unfolding vm_inv_def
proof (intro conjI allI impI)
  have tA: "A t = Some (Suc 0, v div 512)" using t by (simp add: on_path_def)
  have al: "t mod 4096 = 0" using vm_invD(3) [OF inv tA] .
  have pt: "p \<noteq> t" "p \<noteq> root" using p(2) tA vm_invD(1) [OF inv] by auto
  show "?A root = Some (4, 0)" using vm_invD(1) [OF inv] pt by auto
  show "page_ok e q" "l \<le> 4" if "?A q = Some (l, k)" for q l k
    using that p vm_invD(2,6) [OF inv] by (auto split: if_splits)
  show "linked ?m ?A q l k" if "?A q = Some (l, k)" "q \<noteq> root" for q l k
  proof (cases "q = p")
    case True
    with that(1) have "l = 0" "k = v" by simp_all
    with True tA pt val entry_set_leaf [OF al al] show ?thesis
      by (auto simp: linked_def idx_0 slots_def intro!: exI [of _ t])
  next
    case False
    with that have "linked m A q l k" by (intro vm_invD(5) [OF inv]) simp_all
    then obtain u where u: "A u = Some (Suc l, k div 512)"
      "k mod 512 < slots l" "present (entry m u (k mod 512))" "child (entry m u (k mod 512)) = q"
      by (auto simp: linked_def)
    have "entry ?m u (k mod 512) = entry m u (k mod 512)"
      using entry_set_leaf [OF al vm_invD(3) [OF inv u(1)]] u(3) absent by auto
    with u p(2) show ?thesis by (auto simp: linked_def intro!: exI [of _ u])
  qed
  fix q l k j
  assume q: "?A q = Some (Suc l, k)" "j < slots l" "present (entry ?m q j)"
  then have qp: "q \<noteq> p" "A q = Some (Suc l, k)" by (auto split: if_splits)
  note ent = entry_set_leaf [OF al vm_invD(3) [OF inv qp(2)] slots_le [OF q(2)]]
  show "?A (child (entry ?m q j)) = Some (l, k * 512 + j)"
  proof (cases "q = t \<and> j = idx 0 v")
    case True
    with qp(2) tA have "l = 0" "k = v div 512" by simp_all
    moreover have "v div 512 * 512 + idx 0 v = v" by (simp add: idx_0)
    ultimately show ?thesis using True ent val by simp
  next
    case False
    with ent q qp have "A (child (entry m q j)) = Some (l, k * 512 + j)"
      by (intro vm_invD(4) [OF inv]) auto
    with p(2) False ent show ?thesis by auto
  qed
qed

text \<open>Clearing an entry: its page leaves the address space.\<close>

lemma vm_inv_clear_leaf:
  assumes inv: "vm_inv m e root A" and v: "v < 2 ^ 35" and t: "on_path A 0 t v"
    and old: "present (entry m t (idx 0 v))"
  shows "A (child (entry m t (idx 0 v))) = Some (0, v)"
    and "vm_inv (set_leaf m t v 0) e root (A(child (entry m t (idx 0 v)) := None))"
    (is "vm_inv ?m _ _ ?A")
proof -
  let ?p = "child (entry m t (idx 0 v))"
  have tA: "A t = Some (Suc 0, v div 512)" using t by (simp add: on_path_def)
  have al: "t mod 4096 = 0" using vm_invD(3) [OF inv tA] .
  show pA: "A ?p = Some (0, v)"
    using vm_invD(4) [OF inv tA idx_slots [OF v] old] by (simp add: idx_0)
  show "vm_inv ?m e root ?A"
    unfolding vm_inv_def
  proof (intro conjI allI impI)
    show "?A root = Some (4, 0)" using vm_invD(1) [OF inv] pA by auto
    show "page_ok e q" "l \<le> 4" if "?A q = Some (l, k)" for q l k
      using that vm_invD(2,6) [OF inv] by (auto split: if_splits)
    show "linked ?m ?A q l k" if qk: "?A q = Some (l, k)" "q \<noteq> root" for q l k
    proof -
      from qk have qA: "q \<noteq> ?p" "A q = Some (l, k)" by (auto split: if_splits)
      then obtain u where u: "A u = Some (Suc l, k div 512)"
        "k mod 512 < slots l" "present (entry m u (k mod 512))" "child (entry m u (k mod 512)) = q"
        using vm_invD(5) [OF inv qA(2) qk(2)] by (auto simp: linked_def)
      have "u \<noteq> ?p" using u(1) pA by auto
      moreover have "\<not> (u = t \<and> k mod 512 = idx 0 v)" using u(4) qA(1) by auto
      then have "entry ?m u (k mod 512) = entry m u (k mod 512)"
        using entry_set_leaf [OF al vm_invD(3) [OF inv u(1)]] by auto
      ultimately show ?thesis using u by (auto simp: linked_def intro!: exI [of _ u])
    qed
    fix q l k j
    assume q: "?A q = Some (Suc l, k)" "j < slots l" "present (entry ?m q j)"
    then have qA: "A q = Some (Suc l, k)" by (auto split: if_splits)
    note ent = entry_set_leaf [OF al vm_invD(3) [OF inv qA] slots_le [OF q(2)]]
    from q(3) ent have ne: "\<not> (q = t \<and> j = idx 0 v)" by auto
    with ent q qA have c: "A (child (entry m q j)) = Some (l, k * 512 + j)"
      by (intro vm_invD(4) [OF inv]) auto
    have "child (entry m q j) \<noteq> ?p"
    proof
      assume "child (entry m q j) = ?p"
      with c pA have "l = 0" "k * 512 + j = v" by simp_all
      with qA tA slots_le [OF q(2)] have "A q = A t" "j = idx 0 v"
        using div_mod_512 [of k j v] by (simp_all add: idx_0)
      with ne place_unique [OF inv] tA show False by metis
    qed
    with c ne ent show "?A (child (entry ?m q j)) = Some (l, k * 512 + j)" by auto
  qed
qed

section \<open>Mapping pages\<close>

text \<open>\<open>extends\<close>: like \<^const>\<open>grows\<close>, but free pages may also have become user pages.\<close>

definition extends ::
    "addr \<Rightarrow> 'a kalloc_state_scheme \<Rightarrow> pmap \<Rightarrow> addr list \<Rightarrow> nat \<Rightarrow>
       'a kalloc_state_scheme \<Rightarrow> pmap \<Rightarrow> addr list \<Rightarrow> bool" where
  "extends root s A ps n s' A' ps' \<longleftrightarrow> uvm s' root A' ps' \<and> vm_frame s s' \<and> A \<subseteq>\<^sub>m A' \<and>
     (\<exists>u. ps = u @ ps' \<and> length u \<le> n \<and> (\<forall>p. A' p \<noteq> A p \<longrightarrow> p \<in> set u)) \<and>
     (\<forall>x. \<not> is_table A (PGROUNDDOWN x) \<longrightarrow> PGROUNDDOWN x \<notin> set ps \<longrightarrow> mem s' x = mem s x)"

lemma extendsD:
  assumes "extends root s A ps n s' A' ps'"
  shows "uvm s' root A' ps'" "vm_frame s s'" "A \<subseteq>\<^sub>m A'" "length ps \<le> length ps' + n"
    "set ps' \<subseteq> set ps" "kend s' = kend s"
    "\<not> is_table A (PGROUNDDOWN x) \<Longrightarrow> PGROUNDDOWN x \<notin> set ps \<Longrightarrow> mem s' x = mem s x"
  using assms by (auto simp: extends_def dest: vm_frameD)

lemma extends_refl: "uvm s root A ps \<Longrightarrow> extends root s A ps 0 s A ps"
  by (simp add: extends_def)

lemma extends_trans:
  assumes 1: "extends root s A ps n s1 A1 ps1" and 2: "extends root s1 A1 ps1 n' s2 A2 ps2"
  shows "extends root s A ps (n + n') s2 A2 ps2"
proof -
  obtain u1 where u1: "ps = u1 @ ps1" "length u1 \<le> n" "\<forall>p. A1 p \<noteq> A p \<longrightarrow> p \<in> set u1"
    using 1 by (auto simp: extends_def)
  obtain u2 where u2: "ps1 = u2 @ ps2" "length u2 \<le> n'" "\<forall>p. A2 p \<noteq> A1 p \<longrightarrow> p \<in> set u2"
    using 2 by (auto simp: extends_def)
  have new: "p \<in> set (u1 @ u2)" if "A2 p \<noteq> A p" for p
    using that u1(3) u2(3) by (cases "A1 p = A p") auto
  have out: "mem s2 x = mem s x" if "\<not> is_table A (PGROUNDDOWN x)" "PGROUNDDOWN x \<notin> set ps" for x
  proof -
    have "\<not> is_table A1 (PGROUNDDOWN x)"
      using that u1 by (metis UnI1 is_table_def set_append)
    with that u1(1) extendsD(7) [OF 1] extendsD(7) [OF 2] show ?thesis by simp
  qed
  show ?thesis
    unfolding extends_def
  proof (intro conjI exI [of _ "u1 @ u2"] allI impI)
    show "uvm s2 root A2 ps2" by (rule extendsD(1) [OF 2])
    show "vm_frame s s2" using extendsD(2) [OF 1] extendsD(2) [OF 2] by (rule vm_frame_trans)
    show "A \<subseteq>\<^sub>m A2" using extendsD(3) [OF 1] extendsD(3) [OF 2] by (rule map_le_trans)
    show "ps = (u1 @ u2) @ ps2" "length (u1 @ u2) \<le> n + n'" using u1(1,2) u2(1,2) by simp_all
  qed (use new out in blast)+
qed

lemma set_leaf_outside:
  "t mod 4096 = 0 \<Longrightarrow> PGROUNDDOWN x \<noteq> t \<Longrightarrow> set_leaf m t v val x = m x"
  unfolding set_leaf_def using word_in_page [of t "idx 0 v" x] by (intro store64_outside) auto

lemma mappages_one:
  assumes "va mod 4096 = 0"
  shows "mappages root va 4096 pa perm s = mappages_loop root 0 va pa perm s"
proof -
  have "PGROUNDDOWN (va + of_nat 4095) = va" using assms by (intro PGROUNDDOWN_offset) simp_all
  then show ?thesis using assms by (simp add: mappages_def PGROUNDDOWN_id add.commute)
qed

lemma lookup_on_path:
  "walk m 3 root v = Some (t + 8 * of_nat (idx 0 v)) \<Longrightarrow> lookup m root v = entry m t (idx 0 v)"
  by (simp add: lookup_walk entry_def)

text \<open>Mapping one page \<open>p\<close>, which is neither free nor part of the address space yet.\<close>

definition mapped_page ::
    "addr \<Rightarrow> 'a kalloc_state_scheme \<Rightarrow> pmap \<Rightarrow> addr list \<Rightarrow> nat \<Rightarrow> addr \<Rightarrow> addr \<Rightarrow>
       'a kalloc_state_scheme \<Rightarrow> pmap \<Rightarrow> addr list \<Rightarrow> bool" where
  "mapped_page root s A ps w p pte s' A' ps' \<longleftrightarrow> uvm s' root A' ps' \<and> vm_frame s s' \<and> A \<subseteq>\<^sub>m A' \<and>
     A' p = Some (0, w) \<and>
     (\<exists>us. ps = us @ ps' \<and> length us \<le> 3 \<and> (\<forall>q. A' q \<noteq> A q \<longrightarrow> q = p \<or> q \<in> set us)) \<and>
     (\<forall>v < 2 ^ 35. lookup (mem s') root v = (if v = w then pte else lookup (mem s) root v)) \<and>
     (\<forall>x. \<not> is_table A (PGROUNDDOWN x) \<longrightarrow> PGROUNDDOWN x \<notin> set ps \<longrightarrow> mem s' x = mem s x)"

lemma mapped_pageD:
  assumes "mapped_page root s A ps w p pte s' A' ps'"
  shows "uvm s' root A' ps'" "vm_frame s s'" "A \<subseteq>\<^sub>m A'" "A' p = Some (0, w)"
    "\<exists>us. ps = us @ ps' \<and> length us \<le> 3 \<and> (\<forall>q. A' q \<noteq> A q \<longrightarrow> q = p \<or> q \<in> set us)"
    "v < 2 ^ 35 \<Longrightarrow> lookup (mem s') root v = (if v = w then pte else lookup (mem s) root v)"
    "\<not> is_table A (PGROUNDDOWN x) \<Longrightarrow> PGROUNDDOWN x \<notin> set ps \<Longrightarrow> mem s' x = mem s x"
  using assms by (simp_all add: mapped_page_def)

lemma mappages_page:
  assumes u: "uvm s root A ps" and va: "va mod 4096 = 0" "vpn va < 2 ^ 35" and ps: "3 \<le> length ps"
    and p: "page_ok (kend s) p" "A p = None" "p \<notin> set ps"
    and absent: "\<not> present (lookup (mem s) root (vpn va))"
    and perm: "scast perm AND NOT 0xFFF = (0 :: addr)"
  obtains s' A' ps' where
    "mappages root va 4096 (V2P p) perm s = Inr (0, s')"
    "mapped_page root s A ps (vpn va) p (V2P p OR (scast perm OR PTE_P)) s' A' ps'"
proof -
  let ?v = "vpn va"
  let ?val = "V2P p OR (scast perm OR 1) :: addr"
  obtain t s1 A1 ps1 where w: "walkpgdir root va True s = Inr (t + 8 * of_nat (idx 0 ?v), s1)"
    "grows root s A ps 3 s1 A1 ps1" "on_path A1 0 t ?v"
    "walk (mem s1) 3 root ?v = Some (t + 8 * of_nat (idx 0 ?v))"
    using walkpgdir_True [OF u va(2) ps] .
  note G = growsD [OF w(2)]
  obtain us where us: "ps = us @ ps1" "length us \<le> 3" "\<forall>q. A1 q \<noteq> A q \<longrightarrow> q \<in> set us \<and> is_table A1 q"
    using w(2) by (auto simp: grows_def)
  have inv: "vm_inv (mem s1) (kend s) root A1" using G(1,4) by (simp add: uvm_def)
  have ent: "entry (mem s1) t (idx 0 ?v) = lookup (mem s) root ?v"
    using lookup_on_path [OF w(4)] G(6) [OF va(2)] by simp
  have al: "t mod 4096 = 0" "page_ok (kend s) t"
    using vm_invD(2,3) [OF inv] w(3) by (auto simp: on_path_def)
  have "t + 8 * of_nat (idx 0 ?v) \<noteq> 0" using al(2) by (rule final_entry_nz)
  then have run: "mappages root va 4096 (V2P p) perm s
      = Inr (0, s1\<lparr>mem := set_leaf (mem s1) t ?v ?val\<rparr>)"
    using w(1) absent ent
    by (simp add: mappages_one va mappages_loop.simps present_def entry_def set_leaf_def Let_def or.assoc)
  have f: "(scast perm OR 1) AND NOT 0xFFF = (0 :: addr)" using perm by (simp add: bit.conj_disj_distrib2)
  have val: "present ?val" "child ?val = p"
    using entry_for_page [OF page_ok_aligned [OF p(1)] f] by (simp_all add: present_def bit.conj_disj_distrib2)
  have A1p: "A1 p = None" using us p by (metis UnI1 set_append)
  have inv': "vm_inv (set_leaf (mem s1) t ?v ?val) (kend s) root (A1(p \<mapsto> (0, ?v)))"
    using vm_inv_map_leaf [OF inv va(2) w(3) _ p(1) A1p val] absent ent by simp
  have tps: "t \<notin> set ps1" using G(1) w(3) by (auto simp: uvm_def on_path_def)
  have out: "set_leaf (mem s1) t ?v ?val x = mem s1 x" if "PGROUNDDOWN x \<noteq> t" for x
    using set_leaf_outside [OF al(1) that] .
  have "set_leaf (mem s1) t ?v ?val x = mem s1 x" if "PGROUNDDOWN x \<in> set ps1" for x
    using that tps by (intro out) auto
  then have "free_pages (s1\<lparr>mem := set_leaf (mem s1) t ?v ?val\<rparr>) ps1"
    using G(1) by (intro free_pages_mem) (auto simp: uvm_def)
  moreover have "kmem_ready (s1\<lparr>mem := set_leaf (mem s1) t ?v ?val\<rparr>)"
    using G(1) by (simp add: uvm_def kmem_ready_def lock_free_def)
  moreover have "\<forall>q \<in> set ps1. (A1(p \<mapsto> (0, ?v))) q = None"
    using G(1) us(1) p(3) by (auto simp: uvm_def)
  ultimately have u': "uvm (s1\<lparr>mem := set_leaf (mem s1) t ?v ?val\<rparr>) root (A1(p \<mapsto> (0, ?v))) ps1"
    using inv' G(4) by (simp add: uvm_def)
  have look: "lookup (set_leaf (mem s1) t ?v ?val) root v
      = (if v = ?v then ?val else lookup (mem s) root v)" if "v < 2 ^ 35" for v
    using lookup_set_leaf [OF inv w(3) that on_path_root [OF inv that], of ?val] w(4) G(6) [OF that]
    by auto
  have "is_table A t \<or> t \<in> set us"
    using us(3) w(3) by (metis is_table_def on_path_def)
  then have "set_leaf (mem s1) t ?v ?val x = mem s x"
    if "\<not> is_table A (PGROUNDDOWN x)" "PGROUNDDOWN x \<notin> set ps" for x
    using that out [of x] G(8) [OF that] us(1) by auto
  moreover have "A \<subseteq>\<^sub>m A1(p \<mapsto> (0, ?v))" using G(3) p(2) by (auto simp: map_le_def)
  moreover have "q = p \<or> q \<in> set us" if "(A1(p \<mapsto> (0, ?v))) q \<noteq> A q" for q
    using that us(3) by (auto split: if_splits)
  ultimately have "mapped_page root s A ps ?v p ?val (s1\<lparr>mem := set_leaf (mem s1) t ?v ?val\<rparr>)
      (A1(p \<mapsto> (0, ?v))) ps1"
    unfolding mapped_page_def
    using u' vm_frame_trans [OF G(2) vm_frame_mem] us(1,2) look by auto
  then show thesis by (rule that [OF run])
qed

section \<open>Growing and shrinking user memory\<close>

definition zero_page :: "mem \<Rightarrow> addr \<Rightarrow> bool" where
  "zero_page m p \<longleftrightarrow> (\<forall>x. PGROUNDDOWN x = p \<longrightarrow> m x = 0)"

text \<open>One round of \<^verbatim>\<open>allocuvm\<close>: a zeroed page, mapped writable for user code.\<close>

lemma alloc_page:
  assumes u: "uvm s root A ps" and va: "va mod 4096 = 0" "vpn va < 2 ^ 35" and ps: "4 \<le> length ps"
    and absent: "\<not> present (lookup (mem s) root (vpn va))"
  obtains s' A' ps' p where
    "\<And>oldsz newsz as. allocuvm_loop root oldsz newsz (va # as) s = allocuvm_loop root oldsz newsz as s'"
    "extends root s A ps 4 s' A' ps'" "A' p = Some (0, vpn va)" "zero_page (mem s') p" "p \<in> set ps"
    "\<And>v. v < 2 ^ 35 \<Longrightarrow> lookup (mem s') root v =
       (if v = vpn va then V2P p OR 7 else lookup (mem s) root v)"
proof -
  obtain p qs where pq: "ps = p # qs" using ps by (cases ps) auto
  note al = uvm_alloc [OF u [unfolded pq]]
  have inv: "vm_inv (mem s) (kend s) root A" using u by (simp add: uvm_def)
  have pal: "p mod 4096 = 0" using page_ok_aligned [OF al(2)] .
  let ?s0 = "mem_event ''kalloc'' p (s\<lparr>kmem_freelist := load64 (mem s) p\<rparr>)"
  let ?m = "memset (mem s) p 0 4096"
  let ?s1 = "?s0\<lparr>mem := ?m\<rparr>"
  have m: "?m x = (if PGROUNDDOWN x = p then 0 else mem s x)" for x
    using memset_page [OF pal] by simp
  have agree: "tables_agree A (mem s) ?m" using al(4) by (auto simp: tables_agree_def m)
  have u1: "uvm ?s1 root A qs"
    using u pq al(5) vm_inv_agree [OF inv agree] m by (intro uvm_after_alloc) (auto simp: uvm_def)
  have k1: "kend ?s1 = kend s" by simp
  have look1: "lookup (mem ?s1) root v = lookup (mem s) root v" if "v < 2 ^ 35" for v
    using lookup_agree(2) [OF inv agree that on_path_root [OF inv that]] by simp
  have fr: "vm_frame s ?s1" using vm_frame_trans [OF vm_frame_event vm_frame_mem] .
  have abs1: "\<not> present (lookup (mem ?s1) root (vpn va))" using absent look1 [OF va(2)] by simp
  have six: "scast (6 :: cint) AND NOT 0xFFF = (0 :: addr)" by simp
  have len: "3 \<le> length qs" and ok1: "page_ok (kend ?s1) p" using ps pq al(2) by simp_all
  obtain s' A' ps' where run: "mappages root va 4096 (V2P p) 6 ?s1 = Inr (0, s')"
    and mp: "mapped_page root ?s1 A qs (vpn va) p (V2P p OR (scast (6 :: cint) OR PTE_P)) s' A' ps'"
    using mappages_page [OF u1 va len ok1 al(4,5) abs1 six] .
  note M = mapped_pageD [OF mp]
  obtain us where us: "qs = us @ ps'" "length us \<le> 3" "\<forall>q. A' q \<noteq> A q \<longrightarrow> q = p \<or> q \<in> set us"
    using M(5) by blast
  have loop: "allocuvm_loop root oldsz newsz (va # as) s = allocuvm_loop root oldsz newsz as s'"
    for oldsz newsz as
    using al(1,3) run by (simp add: Let_def)
  have ext: "extends root s A ps 4 s' A' ps'"
    unfolding extends_def
  proof (intro conjI exI [of _ "p # us"] allI impI)
    show "vm_frame s s'" using fr M(2) by (rule vm_frame_trans)
    show "mem s' x = mem s x" if "\<not> is_table A (PGROUNDDOWN x)" "PGROUNDDOWN x \<notin> set ps" for x
      using M(7) [OF that(1)] that(2) pq m [of x] by simp
  qed (use M(1,3) us pq in auto)
  have "zero_page (mem s') p"
    unfolding zero_page_def using M(7) al(4,5) m by (auto simp: is_table_def)
  moreover have "lookup (mem s') root v = (if v = vpn va then V2P p OR 7 else lookup (mem s) root v)"
    if "v < 2 ^ 35" for v
    using M(6) [OF that] look1 [OF that] by simp
  ultimately show thesis using that loop ext M(4) pq by simp
qed

text \<open>The whole loop. A user page already there keeps its contents.\<close>

lemma allocuvm_loop_run:
  assumes "uvm s root A ps" "\<forall>a \<in> set as. a mod 4096 = 0 \<and> vpn a < 2 ^ 35 \<and>
      \<not> present (lookup (mem s) root (vpn a))"
    and "distinct (map vpn as)" "4 * length as \<le> length ps"
  shows "\<exists>s' A' ps'. allocuvm_loop root oldsz newsz as s = Inr (newsz, s') \<and>
    extends root s A ps (4 * length as) s' A' ps' \<and>
    (\<forall>v < 2 ^ 35. if v \<in> vpn ` set as
      then \<exists>p. lookup (mem s') root v = V2P p OR 7 \<and> A' p = Some (0, v) \<and> p \<in> set ps \<and> zero_page (mem s') p
      else lookup (mem s') root v = lookup (mem s) root v)"
  using assms
proof (induction as arbitrary: s A ps)
  case Nil
  then show ?case using extends_refl by fastforce
next
  case (Cons a as)
  have a: "a mod 4096 = 0" "vpn a < 2 ^ 35" "\<not> present (lookup (mem s) root (vpn a))" "4 \<le> length ps"
    using Cons.prems by simp_all
  obtain p s1 A1 ps1 where s1:
    "\<And>oldsz newsz as. allocuvm_loop root oldsz newsz (a # as) s = allocuvm_loop root oldsz newsz as s1"
    "extends root s A ps 4 s1 A1 ps1" "A1 p = Some (0, vpn a)" "zero_page (mem s1) p" "p \<in> set ps"
    "\<And>v. v < 2 ^ 35 \<Longrightarrow> lookup (mem s1) root v =
       (if v = vpn a then V2P p OR 7 else lookup (mem s) root v)"
    using alloc_page [OF Cons.prems(1) a(1,2,4,3)] by metis
  note E = extendsD [OF s1(2)]
  have ne: "vpn b \<noteq> vpn a" if "b \<in> set as" for b
    using that Cons.prems(3) by (auto simp: image_iff)
  then have "\<forall>b \<in> set as. b mod 4096 = 0 \<and> vpn b < 2 ^ 35 \<and> \<not> present (lookup (mem s1) root (vpn b))"
    using Cons.prems(2) s1(6) by simp
  moreover have "4 * length as \<le> length ps1" using E(4) Cons.prems(4) by simp
  ultimately obtain s2 A2 ps2 where s2:
    "allocuvm_loop root oldsz newsz as s1 = Inr (newsz, s2)"
    "extends root s1 A1 ps1 (4 * length as) s2 A2 ps2"
    "\<forall>v < 2 ^ 35. if v \<in> vpn ` set as
      then \<exists>p. lookup (mem s2) root v = V2P p OR 7 \<and> A2 p = Some (0, v) \<and> p \<in> set ps1 \<and> zero_page (mem s2) p
      else lookup (mem s2) root v = lookup (mem s1) root v"
    using Cons.IH [OF E(1)] Cons.prems(3) by auto
  have notin: "vpn a \<notin> vpn ` set as" using Cons.prems(3) by simp
  have "A2 p = Some (0, vpn a)" using map_le_Some [OF extendsD(3) [OF s2(2)] s1(3)] .
  moreover have "p \<notin> set ps1" using E(1) s1(3) by (auto simp: uvm_def)
  then have "zero_page (mem s2) p"
    using s1(3,4) extendsD(7) [OF s2(2)] by (auto simp: zero_page_def is_table_def)
  ultimately have "if v \<in> vpn ` set (a # as)
      then \<exists>p. lookup (mem s2) root v = V2P p OR 7 \<and> A2 p = Some (0, v) \<and> p \<in> set ps \<and> zero_page (mem s2) p
      else lookup (mem s2) root v = lookup (mem s) root v" if "v < 2 ^ 35" for v
    using s2(3) [rule_format, OF that] s1(5) s1(6) [OF that] notin E(5)
    by (cases "v = vpn a"; cases "v \<in> vpn ` set as") auto
  moreover have "extends root s A ps (4 * length (a # as)) s2 A2 ps2"
    using extends_trans [OF s1(2) s2(2)] by (simp add: algebra_simps)
  ultimately show ?case using s1(1) s2(1) by auto
qed

text \<open>The virtual pages a loop over \<^const>\<open>page_range\<close> visits.\<close>

definition npages :: "addr \<Rightarrow> nat" where
  "npages n = (unat n + 4095) div 4096"

lemma vpn_page_range:
  assumes "a mod 4096 = 0" "unat b \<le> 2 ^ 47"
  shows "map vpn (page_range a b) = [vpn a..<npages b]" "\<forall>x \<in> set (page_range a b). x mod 4096 = 0"
proof -
  obtain c where c: "unat a = 4096 * c" using assms(1) by (auto simp: aligned_iff)
  define n where "n = (unat b - unat a + 4095) div 4096"
  have n: "n = npages b - c" unfolding n_def npages_def c by arith
  have range: "page_range a b = pages_from a n" by (simp add: page_range_def n_def)
  have u: "unat (a + 4096 * of_nat i) = unat a + 4096 * i" if "i < n" for i
  proof -
    have "unat a + 4096 * n < 2 ^ 64" using assms(2) that unfolding n c npages_def by auto
    then show ?thesis using that by (rule unat_pages_from)
  qed
  have "vpn (a + 4096 * of_nat i) = vpn a + i" if "i < n" for i
    using u [OF that] c by (simp add: vpn_def)
  then have "map vpn (page_range a b) = map ((+) (vpn a)) [0..<n]"
    unfolding range pages_from_def by (simp add: comp_def)
  also have "\<dots> = [vpn a..<vpn a + n]" by (intro nth_equalityI) simp_all
  finally show "map vpn (page_range a b) = [vpn a..<npages b]"
    using n c by (cases "c \<le> npages b") (simp_all add: vpn_def)
  show "\<forall>x \<in> set (page_range a b). x mod 4096 = 0"
    using u c unfolding range pages_from_def aligned_iff by simp
qed

lemma vpn_PGROUNDUP: "unat n \<le> 2 ^ 47 \<Longrightarrow> vpn (PGROUNDUP n) = npages n"
  by (simp add: vpn_def npages_def unat_PGROUNDUP)

lemma npages_less: "unat n \<le> 2 ^ 47 \<Longrightarrow> v < npages n \<Longrightarrow> v < 2 ^ 35"
  by (simp add: npages_def)

lemma page_range_sizes:
  assumes "unat old \<le> 2 ^ 47" "unat new \<le> 2 ^ 47"
  shows "vpn ` set (page_range (PGROUNDUP old) new) = {npages old..<npages new}"
    "distinct (map vpn (page_range (PGROUNDUP old) new))"
    "length (page_range (PGROUNDUP old) new) = npages new - npages old"
    "\<forall>a \<in> set (page_range (PGROUNDUP old) new). a mod 4096 = 0"
proof -
  note r = vpn_page_range [OF PGROUNDDOWN_aligned [of "old + 4095", folded PGROUNDUP_down] assms(2)]
  have m: "map vpn (page_range (PGROUNDUP old) new) = [npages old..<npages new]"
    unfolding r(1) using assms(1) by (simp add: vpn_PGROUNDUP)
  from arg_cong [OF m, of set] show "vpn ` set (page_range (PGROUNDUP old) new) = {npages old..<npages new}"
    by simp
  from m show "distinct (map vpn (page_range (PGROUNDUP old) new))" by simp
  from arg_cong [OF m, of length] show "length (page_range (PGROUNDUP old) new) = npages new - npages old"
    by simp
  from r(2) show "\<forall>a \<in> set (page_range (PGROUNDUP old) new). a mod 4096 = 0" .
qed

section \<open>Unmapping\<close>

text \<open>\<open>shrinks\<close>: user pages went back to the free list.\<close>

definition shrinks ::
    "addr \<Rightarrow> 'a kalloc_state_scheme \<Rightarrow> pmap \<Rightarrow> addr list \<Rightarrow>
       'a kalloc_state_scheme \<Rightarrow> pmap \<Rightarrow> addr list \<Rightarrow> bool" where
  "shrinks root s A ps s' A' ps' \<longleftrightarrow> uvm s' root A' ps' \<and> vm_frame s s' \<and> A' \<subseteq>\<^sub>m A \<and>
     (\<exists>u. ps' = u @ ps \<and> set u = {p. A p \<noteq> None \<and> A' p = None}) \<and>
     (\<forall>x. \<not> is_table A (PGROUNDDOWN x) \<longrightarrow> PGROUNDDOWN x \<notin> set ps' \<longrightarrow> mem s' x = mem s x)"

lemma shrinksD:
  assumes "shrinks root s A ps s' A' ps'"
  shows "uvm s' root A' ps'" "vm_frame s s'" "A' \<subseteq>\<^sub>m A" "kend s' = kend s"
    "\<exists>u. ps' = u @ ps \<and> set u = {p. A p \<noteq> None \<and> A' p = None}"
    "\<not> is_table A (PGROUNDDOWN x) \<Longrightarrow> PGROUNDDOWN x \<notin> set ps' \<Longrightarrow> mem s' x = mem s x"
  using assms by (auto simp: shrinks_def dest: vm_frameD)

lemma shrinks_refl: "uvm s root A ps \<Longrightarrow> shrinks root s A ps s A ps"
  by (auto simp: shrinks_def)

lemma vm_frame_free: "vm_frame s (mem_event n p (s\<lparr>mem := m, kmem_freelist := f\<rparr>))"
  by (cases s) (simp add: vm_frame_def mem_event_def)

text \<open>One round of \<^verbatim>\<open>deallocuvm\<close> on a mapped page.\<close>

lemma dealloc_page:
  assumes u: "uvm s root A ps" and v: "vpn va < 2 ^ 35" and k: "KERNBASE < kend s"
    and pr: "present (lookup (mem s) root (vpn va))"
  obtains s' p where
    "\<And>as. deallocuvm_loop root (va # as) s = deallocuvm_loop root as s'"
    "A p = Some (0, vpn va)" "shrinks root s A ps s' (A(p := None)) (p # ps)"
    "\<And>w. w < 2 ^ 35 \<Longrightarrow> lookup (mem s') root w = (if w = vpn va then 0 else lookup (mem s) root w)"
proof -
  let ?v = "vpn va" and ?m = "mem s"
  have inv: "vm_inv ?m (kend s) root A" using u by (simp add: uvm_def)
  obtain a where w: "walk ?m 3 root ?v = Some a"
    using pr by (cases "walk ?m 3 root ?v") (auto dest: walk_NoneD)
  obtain t where t: "A t = Some (1, ?v div 512)" "a = t + 8 * of_nat (idx 0 ?v)"
    using walk_on_path [OF inv v on_path_root [OF inv v] w] by blast
  have path: "on_path A 0 t ?v" using t(1) by (simp add: on_path_def)
  have ent: "lookup ?m root ?v = entry ?m t (idx 0 ?v)" using lookup_on_path w t(2) by simp
  define p where "p = child (entry ?m t (idx 0 ?v))"
  have pA: "A p = Some (0, ?v)"
    using vm_inv_clear_leaf(1) [OF inv v path] pr ent by (simp add: p_def)
  note ok = vm_invD(2) [OF inv pA] and al = vm_invD(3) [OF inv pA] vm_invD(3) [OF inv t(1)]
  have pps: "p \<notin> set ps" "t \<notin> set ps" using u pA t(1) by (auto simp: uvm_def)
  let ?fm = "freed_mem ?m p (kmem_freelist s)"
  let ?s1 = "mem_event ''kfree'' p (s\<lparr>mem := ?fm, kmem_freelist := p\<rparr>)"
  have free: "kfree p s = Inr ?s1" using u ok by (simp add: uvm_def kfree_run)
  have agree: "tables_agree A ?m ?fm"
    unfolding tables_agree_def
  proof (intro allI impI)
    fix x l k assume "A (PGROUNDDOWN x) = Some (Suc l, k)"
    with pA have "PGROUNDDOWN x \<noteq> p" by auto
    with al(1) show "?m x = ?fm x" by (simp add: freed_mem_outside)
  qed
  have inv1: "vm_inv ?fm (kend s) root A" using inv agree by (rule vm_inv_agree)
  have ent1: "entry ?fm t (idx 0 ?v) = entry ?m t (idx 0 ?v)"
    using entry_agree [OF inv agree] t(1) by simp
  let ?s2 = "?s1\<lparr>mem := set_leaf ?fm t ?v 0\<rparr>"
  have anz: "a \<noteq> 0" using final_entry_nz [OF vm_invD(2) [OF inv t(1)]] t(2) by simp
  have pa: "PTE_ADDR (load64 ?m a) \<noteq> 0" "P2V (PTE_ADDR (load64 ?m a)) = p"
    using ok k by (auto simp: p_def child_def entry_def t(2) page_ok_def P2V_def)
  have run: "deallocuvm_loop root (va # as) s = deallocuvm_loop root as ?s2" for as
    using anz pa pr ent t(2) free
    by (simp add: walkpgdir_False w present_def entry_def Let_def set_leaf_def)
  have out: "set_leaf ?fm t ?v 0 x = ?m x" if "PGROUNDDOWN x \<noteq> t" "PGROUNDDOWN x \<noteq> p" for x
    using that al by (simp add: set_leaf_outside freed_mem_outside)
  have "free_pages ?s1 (p # ps)"
    using kfree_free_pages [of s ps p] u ok pps by (simp add: uvm_def)
  moreover have "set_leaf ?fm t ?v 0 x = mem ?s1 x" if "PGROUNDDOWN x \<in> set (p # ps)" for x
  proof -
    have "PGROUNDDOWN x \<noteq> t" using that pps(2) pA t(1) by auto
    then show ?thesis using al(2) by (simp add: set_leaf_outside)
  qed
  ultimately have fp: "free_pages ?s2 (p # ps)" by (rule free_pages_mem)
  have rd: "kmem_ready ?s2"
  proof -
    have "kmem_ready ?s1" using u by (simp add: uvm_def) (simp add: kmem_ready_def lock_free_def)
    then show ?thesis by (simp only: kmem_ready_def lock_free_def) simp
  qed
  have inv2: "vm_inv (set_leaf ?fm t ?v 0) (kend s) root (A(p := None))"
    using vm_inv_clear_leaf(2) [OF inv1 v path] pr ent ent1 by (simp add: p_def)
  have "uvm ?s2 root (A(p := None)) (p # ps)"
    using fp rd inv2 u by (auto simp: uvm_def)
  moreover have "vm_frame s ?s2" using vm_frame_trans [OF vm_frame_free vm_frame_mem] .
  moreover have "mem ?s2 x = mem s x" if "\<not> is_table A (PGROUNDDOWN x)" "PGROUNDDOWN x \<notin> set (p # ps)" for x
    using that t(1) by (simp, intro out) (auto simp: is_table_def)
  ultimately have sh: "shrinks root s A ps ?s2 (A(p := None)) (p # ps)"
    unfolding shrinks_def using pA by (auto simp: map_le_def intro!: exI [of _ "[p]"])
  have "lookup (mem ?s2) root w' = (if w' = ?v then 0 else lookup ?m root w')" if "w' < 2 ^ 35" for w'
    using lookup_set_leaf [OF inv1 path that on_path_root [OF inv1 that], of 0]
      lookup_agree [OF inv agree that on_path_root [OF inv that]] w by auto
  with run pA sh show thesis by (rule that)
qed

end
