(* ===== verification/UserMem.thy ===== *)
theory UserMem
  imports PageTable
begin

unbundle bit_operations_syntax

text \<open>
  User memory as a process sees it: growing (\<^verbatim>\<open>allocuvm\<close>), shrinking (\<^verbatim>\<open>deallocuvm\<close>), copying into it
  from the kernel (\<^verbatim>\<open>copyout\<close>) and duplicating it for a child (\<^verbatim>\<open>copyuvm\<close>).
\<close>

section \<open>Places and lookups\<close>

lemma lookup_via:
  assumes inv: "vm_inv m e root A" and w: "w < 2 ^ 35" and "l \<le> 3" "on_path A l t w"
  shows "lookup m root w = lookup_at m l t w"
  using assms(3,4)
proof (induction "3 - l" arbitrary: l t)
  case 0
  then have "l = 3" by simp
  with 0 on_path_root [OF inv w] place_unique [OF inv] show ?case by (auto simp: on_path_def)
next
  case (Suc n)
  let ?k = "w div 512 ^ Suc l"
  have "A t = Some (Suc l, ?k)" using Suc.prems(2) by (simp add: on_path_def)
  moreover have "t \<noteq> root" using calculation vm_invD(1) [OF inv] Suc.hyps(2) by auto
  ultimately obtain t' where t': "A t' = Some (Suc (Suc l), ?k div 512)"
    "present (entry m t' (?k mod 512))" "child (entry m t' (?k mod 512)) = t"
    using vm_invD(5) [OF inv] by (fastforce simp: linked_def)
  have i: "idx (Suc l) w = ?k mod 512" by (simp add: idx_def)
  have "?k div 512 = w div 512 ^ Suc (Suc l)" by (metis div_mult2_eq power_Suc2)
  with t'(1) have path: "on_path A (Suc l) t' w" by (simp add: on_path_def)
  have "lookup m root w = lookup_at m (Suc l) t' w"
    using Suc.hyps(2) Suc.prems(1) path by (intro Suc.hyps(1)) simp_all
  with t'(2,3) i show ?case by (simp add: Let_def)
qed

text \<open>Virtual page \<open>w\<close> is present exactly when some page has place \<open>(0, w)\<close>, and then maps to it.\<close>

lemma lookup_page:
  assumes inv: "vm_inv m e root A" and w: "w < 2 ^ 35" and "A p = Some (0, w)"
  shows "present (lookup m root w)" "child (lookup m root w) = p"
proof -
  have "p \<noteq> root" using assms(3) vm_invD(1) [OF inv] by auto
  then obtain t where t: "A t = Some (Suc 0, w div 512)"
    "present (entry m t (w mod 512))" "child (entry m t (w mod 512)) = p"
    using vm_invD(5) [OF inv assms(3)] by (auto simp: linked_def)
  then have "lookup m root w = lookup_at m 0 t w"
    using lookup_via [OF inv w, of 0 t] by (simp add: on_path_def)
  with t(2,3) show "present (lookup m root w)" "child (lookup m root w) = p"
    by (simp_all add: idx_0)
qed

lemma present_page:
  assumes inv: "vm_inv m e root A" and w: "w < 2 ^ 35" and "present (lookup m root w)"
  shows "A (child (lookup m root w)) = Some (0, w)"
proof -
  obtain a where a: "walk m 3 root w = Some a"
    using assms(3) by (cases "walk m 3 root w") (auto dest: walk_NoneD)
  obtain t where t: "A t = Some (1, w div 512)" "a = t + 8 * of_nat (idx 0 w)"
    using walk_on_path [OF inv w on_path_root [OF inv w] a] by blast
  have "lookup m root w = entry m t (idx 0 w)" using lookup_on_path a t(2) by simp
  with vm_inv_clear_leaf(1) [OF inv w, of t] t(1) assms(3) show ?thesis by (simp add: on_path_def)
qed

section \<open>Shrinking\<close>

lemma map_le_None: "A \<subseteq>\<^sub>m B \<Longrightarrow> B x = None \<Longrightarrow> A x = None"
  using map_le_implies_dom_le [of A B] by (meson domIff subsetD)

lemma shrinks_trans:
  assumes 1: "shrinks root s A ps s1 A1 ps1" and 2: "shrinks root s1 A1 ps1 s2 A2 ps2"
  shows "shrinks root s A ps s2 A2 ps2"
proof -
  obtain u1 where u1: "ps1 = u1 @ ps" "set u1 = {p. A p \<noteq> None \<and> A1 p = None}"
    using shrinksD(5) [OF 1] by blast
  obtain u2 where u2: "ps2 = u2 @ ps1" "set u2 = {p. A1 p \<noteq> None \<and> A2 p = None}"
    using shrinksD(5) [OF 2] by blast
  have le: "A1 \<subseteq>\<^sub>m A" "A2 \<subseteq>\<^sub>m A1" using shrinksD(3) [OF 1] shrinksD(3) [OF 2] .
  have nn: "A p = None \<Longrightarrow> A1 p = None" "A1 p = None \<Longrightarrow> A2 p = None" for p
    using map_le_None [OF le(1)] map_le_None [OF le(2)] by blast+
  have "(A1 p \<noteq> None \<and> A2 p = None) \<or> (A p \<noteq> None \<and> A1 p = None) \<longleftrightarrow> A p \<noteq> None \<and> A2 p = None" for p
    using nn [of p] by (cases "A p"; cases "A1 p") simp_all
  then have "set (u2 @ u1) = {p. A p \<noteq> None \<and> A2 p = None}"
    unfolding set_append u1(2) u2(2) by (simp add: Collect_disj_eq [symmetric])
  moreover have "mem s2 x = mem s x"
    if "\<not> is_table A (PGROUNDDOWN x)" "PGROUNDDOWN x \<notin> set ps2" for x
  proof -
    have "\<not> is_table A1 (PGROUNDDOWN x)" using that(1) le(1) by (auto simp: is_table_def dest: map_le_Some)
    then show ?thesis using that u2(1) shrinksD(6) [OF 1, of x] shrinksD(6) [OF 2, of x] by auto
  qed
  ultimately show ?thesis
    unfolding shrinks_def
    using shrinksD(1) [OF 2] vm_frame_trans [OF shrinksD(2) [OF 1] shrinksD(2) [OF 2]]
      map_le_trans [OF le(2,1)] u1(1) u2(1)
    by (intro conjI exI [of _ "u2 @ u1"] allI impI) simp_all
qed

lemma deallocuvm_loop_skip:
  assumes "\<not> present (lookup (mem s) root (vpn a))"
  shows "deallocuvm_loop root (a # as) s = deallocuvm_loop root as s"
  using assms
  by (cases "walk (mem s) 3 root (vpn a)")
     (auto simp: walkpgdir_False lookup_walk present_def)

lemma deallocuvm_loop_run:
  assumes "uvm s root A ps" "KERNBASE < kend s" "\<forall>a \<in> set as. vpn a < 2 ^ 35" "distinct (map vpn as)"
  shows "\<exists>s' A' ps'. deallocuvm_loop root as s = Inr s' \<and> shrinks root s A ps s' A' ps' \<and>
    (\<forall>w < 2 ^ 35. lookup (mem s') root w =
       (if w \<in> vpn ` set as \<and> present (lookup (mem s) root w) then 0 else lookup (mem s) root w)) \<and>
    (\<forall>p. A p \<noteq> None \<and> A' p = None \<longleftrightarrow> (\<exists>w \<in> vpn ` set as. A p = Some (0, w)))"
  using assms
proof (induction as arbitrary: s A ps)
  case Nil
  then show ?case using shrinks_refl by fastforce
next
  case (Cons a as)
  have inv: "vm_inv (mem s) (kend s) root A" using Cons.prems(1) by (simp add: uvm_def)
  have a: "vpn a < 2 ^ 35" "vpn a \<notin> vpn ` set as" using Cons.prems by auto
  have rest: "\<forall>b \<in> set as. vpn b < 2 ^ 35" "distinct (map vpn as)" using Cons.prems(3,4) by simp_all
  show ?case
  proof (cases "present (lookup (mem s) root (vpn a))")
    case True
    obtain p s1 where s1: "\<And>as. deallocuvm_loop root (a # as) s = deallocuvm_loop root as s1"
      "A p = Some (0, vpn a)" "shrinks root s A ps s1 (A(p := None)) (p # ps)"
      "\<And>w. w < 2 ^ 35 \<Longrightarrow> lookup (mem s1) root w = (if w = vpn a then 0 else lookup (mem s) root w)"
      using dealloc_page [OF Cons.prems(1) a(1) Cons.prems(2) True] by metis
    have k1: "KERNBASE < kend s1" using Cons.prems(2) shrinksD(4) [OF s1(3)] by simp
    obtain s' A' ps' where s': "deallocuvm_loop root as s1 = Inr s'"
      "shrinks root s1 (A(p := None)) (p # ps) s' A' ps'"
      "\<forall>w < 2 ^ 35. lookup (mem s') root w = (if w \<in> vpn ` set as \<and> present (lookup (mem s1) root w)
         then 0 else lookup (mem s1) root w)"
      "\<forall>q. (A(p := None)) q \<noteq> None \<and> A' q = None \<longleftrightarrow> (\<exists>w \<in> vpn ` set as. (A(p := None)) q = Some (0, w))"
      using Cons.IH [OF shrinksD(1) [OF s1(3)] k1 rest] by blast
    have A'p: "A' p = None" using map_le_None [OF shrinksD(3) [OF s'(2)]] by simp
    have "A q \<noteq> None \<and> A' q = None \<longleftrightarrow> (\<exists>w \<in> vpn ` set (a # as). A q = Some (0, w))" for q
    proof (cases "q = p")
      case False
      then have "A q \<noteq> Some (0, vpn a)" using place_unique [OF inv _ s1(2)] by auto
      with False s'(4) [rule_format, of q] show ?thesis by auto
    next
      case True
      with s1(2) A'p show ?thesis by auto
    qed
    moreover have "lookup (mem s') root w =
       (if w \<in> vpn ` set (a # as) \<and> present (lookup (mem s) root w) then 0 else lookup (mem s) root w)"
      if "w < 2 ^ 35" for w
      using s'(3) [rule_format, OF that] s1(4) [OF that] a(2) True by auto
    ultimately show ?thesis
      unfolding s1(1) using s'(1) shrinks_trans [OF s1(3) s'(2)] by blast
  next
    case False
    obtain s' A' ps' where s': "deallocuvm_loop root as s = Inr s'" "shrinks root s A ps s' A' ps'"
      "\<forall>w < 2 ^ 35. lookup (mem s') root w = (if w \<in> vpn ` set as \<and> present (lookup (mem s) root w)
         then 0 else lookup (mem s) root w)"
      "\<forall>q. A q \<noteq> None \<and> A' q = None \<longleftrightarrow> (\<exists>w \<in> vpn ` set as. A q = Some (0, w))"
      using Cons.IH [OF Cons.prems(1,2) rest] by blast
    have "A q \<noteq> Some (0, vpn a)" for q using lookup_page(1) [OF inv a(1)] False by auto
    with s'(4) have "\<forall>q. A q \<noteq> None \<and> A' q = None \<longleftrightarrow> (\<exists>w \<in> vpn ` set (a # as). A q = Some (0, w))"
      by auto
    moreover have "lookup (mem s') root w =
       (if w \<in> vpn ` set (a # as) \<and> present (lookup (mem s) root w) then 0 else lookup (mem s) root w)"
      if "w < 2 ^ 35" for w
      using s'(3) [rule_format, OF that] False by auto
    ultimately show ?thesis
      unfolding deallocuvm_loop_skip [OF False] using s'(1,2) by blast
  qed
qed

section \<open>Copying out\<close>

text \<open>The byte user code sees at an address.\<close>

definition uread :: "mem \<Rightarrow> addr \<Rightarrow> addr \<Rightarrow> byte" where
  "uread m root va = m (child (lookup m root (vpn va)) + of_nat (unat va mod 4096))"

lemma poke_nth:
  assumes "length bs \<le> 2 ^ 64"
  shows "poke m a bs x = (if in_range a (length bs) x then bs ! unat (x - a) else m x)"
  using assms
proof (induction bs arbitrary: m a)
  case (Cons b bs)
  have len: "length bs < 2 ^ 64" using Cons.prems by simp
  show ?case
  proof (cases "x = a")
    case True
    with Cons.IH len not_in_range_pred [OF len, of a] show ?thesis by simp
  next
    case False
    then have "unat (x - a) = Suc (unat (x - (a + 1)))"
      using unat_minus_one [of "x - a"] by (simp add: diff_diff_eq [symmetric] unat_gt_0)
    with False Cons.IH len show ?thesis by (simp add: in_range_Suc)
  qed
qed simp

text \<open>One piece of \<^verbatim>\<open>copyout\<close>, inside the page \<open>p\<close> that virtual page \<open>w\<close> maps to.\<close>

lemma poke_page:
  assumes "p mod 4096 = 0" "off + length bs \<le> 4096"
  shows "poke m (p + of_nat off) bs x = (if PGROUNDDOWN x = p \<and> off \<le> unat x - unat p \<and>
      unat x - unat p < off + length bs then bs ! (unat x - unat p - off) else m x)"
proof (cases "PGROUNDDOWN x = p")
  case True
  define i where "i = unat (x - p)"
  have i: "i < 4096" using True assms(1) by (simp add: i_def in_page_iff [symmetric] in_range_def)
  have x: "x = p + of_nat i" by (simp add: i_def)
  have ux: "unat x - unat p = i" using unat_offset_page [OF assms(1) i] x by simp
  have val: "unat (x - (p + of_nat off)) = i - off" if "off \<le> i"
  proof -
    have "x - (p + of_nat off) = of_nat (i - off)" using that unfolding x by (simp add: of_nat_diff)
    then show ?thesis using i by (simp add: unat_of_nat_small)
  qed
  have "in_range (p + of_nat off) (length bs) x \<longleftrightarrow> off \<le> i \<and> i < off + length bs"
  proof
    assume r: "in_range (p + of_nat off) (length bs) x"
    define j where "j = unat (x - (p + of_nat off))"
    have j: "j < length bs" using r by (simp add: in_range_def j_def)
    have "x = p + of_nat (off + j)" by (simp add: j_def)
    moreover have "off + j < 4096" using j assms(2) by simp
    ultimately have "unat x = unat p + (off + j)" using assms(1) by (simp only: unat_offset_page)
    with ux j show "off \<le> i \<and> i < off + length bs" by simp
  qed (auto simp: in_range_def val)
  with True ux assms(2) val show ?thesis by (auto simp: poke_nth)
next
  case False
  have "\<not> in_range (p + of_nat off) (length bs) x"
  proof
    assume r: "in_range (p + of_nat off) (length bs) x"
    define j where "j = unat (x - (p + of_nat off))"
    have "j < length bs" using r by (simp add: in_range_def j_def)
    moreover have "x = p + of_nat (off + j)" by (simp add: j_def)
    ultimately have "PGROUNDDOWN x = p" using assms by (simp only: PGROUNDDOWN_offset)
    with False show False ..
  qed
  with False assms(2) show ?thesis by (simp add: poke_nth)
qed

definition user_page :: "mem \<Rightarrow> addr \<Rightarrow> nat \<Rightarrow> bool" where
  "user_page m root w \<longleftrightarrow> present (lookup m root w) \<and> lookup m root w AND PTE_U \<noteq> 0"

lemma uva2ka_run:
  assumes inv: "vm_inv (mem s) e root A" and w: "vpn va < 2 ^ 35"
  shows "uva2ka root va s = (case walk (mem s) 3 root (vpn va) of
      None \<Rightarrow> Inl NullDeref
    | Some a \<Rightarrow> Inr (if user_page (mem s) root (vpn va) then child (lookup (mem s) root (vpn va)) else 0))"
proof (cases "walk (mem s) 3 root (vpn va)")
  case None
  then show ?thesis by (simp add: uva2ka_def walkpgdir_False)
next
  case (Some a)
  with walk_nz [OF inv w] lookup_walk [of "mem s" 3 root "vpn va"] show ?thesis
    by (simp add: uva2ka_def walkpgdir_False user_page_def present_def child_def)
qed

lemma vpn_bounds: "4096 * vpn va \<le> unat va" "unat va < 4096 * vpn va + 4096"
  by (simp_all add: vpn_def)

lemma vpn_small: "unat va < 2 ^ 47 \<Longrightarrow> vpn va < 2 ^ 35"
  by (simp add: vpn_def)

text \<open>The effect of one piece on what user code reads.\<close>

lemma uread_piece:
  assumes inv: "vm_inv m e root A" and w: "vpn va < 2 ^ 35" "present (lookup m root (vpn va))"
    and len: "unat va mod 4096 + length bs \<le> 4096"
  defines "m' \<equiv> poke m (child (lookup m root (vpn va)) + of_nat (unat va mod 4096)) bs"
  shows "vm_inv m' e root A" "v < 2 ^ 35 \<Longrightarrow> lookup m' root v = lookup m root v"
    and "vpn y < 2 ^ 35 \<Longrightarrow> present (lookup m root (vpn y)) \<Longrightarrow> uread m' root y =
      (if unat va \<le> unat y \<and> unat y < unat va + length bs then bs ! (unat y - unat va)
       else uread m root y)"
    and "A (PGROUNDDOWN x) \<noteq> Some (0, vpn va) \<Longrightarrow> m' x = m x"
proof -
  let ?p = "child (lookup m root (vpn va))" and ?o = "unat va mod 4096"
  have pA: "A ?p = Some (0, vpn va)" using present_page [OF inv w] .
  have al: "?p mod 4096 = 0" using vm_invD(3) [OF inv pA] .
  have m': "m' x = (if PGROUNDDOWN x = ?p \<and> ?o \<le> unat x - unat ?p \<and> unat x - unat ?p < ?o + length bs
      then bs ! (unat x - unat ?p - ?o) else m x)" for x
    unfolding m'_def by (rule poke_page [OF al len])
  have agree: "tables_agree A m m'" using pA by (auto simp: tables_agree_def m')
  show "vm_inv m' e root A" using inv agree by (rule vm_inv_agree)
  show look: "lookup m' root v = lookup m root v" if "v < 2 ^ 35" for v
    using lookup_agree(2) [OF inv agree that on_path_root [OF inv that]] .
  show "m' x = m x" if "A (PGROUNDDOWN x) \<noteq> Some (0, vpn va)" for x
    using that pA m' by auto
  assume y: "vpn y < 2 ^ 35" "present (lookup m root (vpn y))"
  let ?q = "child (lookup m root (vpn y))" and ?i = "unat y mod 4096"
  have qA: "A ?q = Some (0, vpn y)" using present_page [OF inv y] .
  have ql: "?q mod 4096 = 0" using vm_invD(3) [OF inv qA] .
  have i: "?i < 4096" by simp
  have pg: "PGROUNDDOWN (?q + of_nat ?i) = ?q" using PGROUNDDOWN_offset [OF ql i] .
  have un: "unat (?q + of_nat ?i) - unat ?q = ?i" using unat_offset_page [OF ql i] by simp
  have uy: "unat y = 4096 * vpn y + ?i" "unat va = 4096 * vpn va + ?o" by (simp_all add: vpn_def)
  have pq: "?q = ?p \<longleftrightarrow> vpn y = vpn va"
  proof
    assume "?q = ?p"
    with qA have "A ?p = Some (0, vpn y)" by simp
    with pA show "vpn y = vpn va" by simp
  qed simp
  show "uread m' root y = (if unat va \<le> unat y \<and> unat y < unat va + length bs
      then bs ! (unat y - unat va) else uread m root y)"
  proof (cases "vpn y = vpn va")
    case True
    then have "(unat va \<le> unat y \<and> unat y < unat va + length bs) =
      (?o \<le> ?i \<and> ?i < ?o + length bs)" "unat y - unat va = ?i - ?o"
      using uy by linarith+
    then show ?thesis using True un pq unfolding uread_def look [OF y(1)] m' pg by simp
  next
    case False
    then have "\<not> (unat va \<le> unat y \<and> unat y < unat va + length bs)"
      using uy len i by linarith
    moreover have "?q \<noteq> ?p" using False pq by blast
    ultimately show ?thesis unfolding uread_def look [OF y(1)] m' pg by (simp only: if_False simp_thms)
  qed
qed

text \<open>\<open>copied\<close>: the bytes \<open>buf\<close> were written at user address \<open>va\<close>, and nothing else changed.\<close>

definition copied ::
    "addr \<Rightarrow> pmap \<Rightarrow> addr list \<Rightarrow> addr \<Rightarrow> byte list \<Rightarrow> 'a kalloc_state_scheme \<Rightarrow> 'a kalloc_state_scheme \<Rightarrow> bool" where
  "copied root A ps va buf s s' \<longleftrightarrow> s' = s\<lparr>mem := mem s'\<rparr> \<and> uvm s' root A ps \<and>
     (\<forall>v < 2 ^ 35. lookup (mem s') root v = lookup (mem s) root v) \<and>
     (\<forall>y. vpn y < 2 ^ 35 \<longrightarrow> present (lookup (mem s) root (vpn y)) \<longrightarrow> uread (mem s') root y =
       (if unat va \<le> unat y \<and> unat y < unat va + length buf then buf ! (unat y - unat va)
        else uread (mem s) root y)) \<and>
     (\<forall>x. (\<forall>w. A (PGROUNDDOWN x) \<noteq> Some (0, w)) \<longrightarrow> mem s' x = mem s x)"

lemma copied_nil: "uvm s root A ps \<Longrightarrow> copied root A ps va [] s s"
  by (auto simp: copied_def)

lemma copied_trans:
  assumes "copied root A ps va b1 s s1" "copied root A ps va1 b2 s1 s2" "unat va1 = unat va + length b1"
  shows "copied root A ps va (b1 @ b2) s s2"
proof -
  note 1 = assms(1) [unfolded copied_def] and 2 = assms(2) [unfolded copied_def]
  have "s2 = s\<lparr>mem := mem s2\<rparr>" using 1 2 by (metis (no_types) machine.update_convs(1) machine.surjective
      machine.select_convs(1))
  moreover have "uread (mem s2) root y =
       (if unat va \<le> unat y \<and> unat y < unat va + length (b1 @ b2) then (b1 @ b2) ! (unat y - unat va)
        else uread (mem s) root y)" if "vpn y < 2 ^ 35" "present (lookup (mem s) root (vpn y))" for y
  proof -
    have "uread (mem s1) root y = (if unat va \<le> unat y \<and> unat y < unat va + length b1
        then b1 ! (unat y - unat va) else uread (mem s) root y)"
      using 1 that by blast
    moreover have "uread (mem s2) root y = (if unat va1 \<le> unat y \<and> unat y < unat va1 + length b2
        then b2 ! (unat y - unat va1) else uread (mem s1) root y)"
      using 1 2 that by metis
    ultimately show ?thesis using assms(3) by (auto simp: nth_append)
  qed
  moreover have "\<forall>x. (\<forall>w. A (PGROUNDDOWN x) \<noteq> Some (0, w)) \<longrightarrow> mem s2 x = mem s x" using 1 2 by metis
  ultimately show ?thesis unfolding copied_def using 1 2 by auto
qed

lemma copied_piece:
  assumes u: "uvm s root A ps" and w: "vpn va < 2 ^ 35" "present (lookup (mem s) root (vpn va))"
    and len: "unat va mod 4096 + length bs \<le> 4096"
  shows "copied root A ps va bs s
    (s\<lparr>mem := poke (mem s) (child (lookup (mem s) root (vpn va)) + of_nat (unat va mod 4096)) bs\<rparr>)"
    (is "copied _ _ _ _ _ _ (s\<lparr>mem := ?m\<rparr>)")
proof -
  have inv: "vm_inv (mem s) (kend s) root A" using u by (simp add: uvm_def)
  note P = uread_piece [OF inv w len]
  have "free_pages (s\<lparr>mem := ?m\<rparr>) ps"
    using u P(4) by (intro free_pages_mem) (auto simp: uvm_def)
  moreover have "kmem_ready (s\<lparr>mem := ?m\<rparr>)" using u by (simp add: uvm_def kmem_ready_def lock_free_def)
  ultimately have "uvm (s\<lparr>mem := ?m\<rparr>) root A ps" using u P(1) by (simp add: uvm_def)
  then show ?thesis unfolding copied_def using P(2-4) by simp
qed

declare copyout.simps [simp del]

lemma copyout_run:
  assumes "uvm s root A ps" "unat va + length buf \<le> 2 ^ 47"
    and "\<And>w. unat va div 4096 \<le> w \<Longrightarrow> w * 4096 < unat va + length buf \<Longrightarrow> user_page (mem s) root w"
  shows "\<exists>s'. copyout root va buf s = Inr (0, s') \<and> copied root A ps va buf s s'"
  using assms
proof (induction "length buf" arbitrary: va buf s rule: less_induct)
  case less
  show ?case
  proof (cases "buf = []")
    case True
    then show ?thesis using less.prems(1) copied_nil by (auto simp: copyout.simps)
  next
    case False
    let ?o = "unat va mod 4096" and ?va0 = "PGROUNDDOWN va" and ?v = "vpn va"
    let ?n = "min (4096 - ?o) (length buf)"
    have len: "0 < length buf" "?n > 0" "?n \<le> length buf" "?o + ?n \<le> 4096" using False by auto
    have va: "unat va < 2 ^ 47" using less.prems(2) len(1) by linarith
    have v: "?v < 2 ^ 35" using va by (rule vpn_small)
    have up: "user_page (mem s) root ?v"
    proof (rule less.prems(3))
      show "unat va div 4096 \<le> ?v" by (simp add: vpn_def)
      show "?v * 4096 < unat va + length buf" using vpn_bounds(1) [of va] len(1) by linarith
    qed
    have v0: "vpn ?va0 = ?v" by (simp add: vpn_def unat_PGROUNDDOWN minus_mod_eq_mult_div)
    have off: "va - ?va0 = of_nat ?o" by (simp add: PGROUNDDOWN_minus flip: unat_mod_page)
    have un: "unat (4096 - (va - ?va0)) = 4096 - ?o"
      by (simp add: PGROUNDDOWN_minus unat_sub word_le_nat_alt unat_mod_page less_imp_le)
    have inv: "vm_inv (mem s) (kend s) root A" using less.prems(1) by (simp add: uvm_def)
    have pr: "present (lookup (mem s) root ?v)" using up by (simp add: user_page_def)
    have pA: "A (child (lookup (mem s) root ?v)) = Some (0, ?v)" using present_page [OF inv v pr] .
    have nz: "child (lookup (mem s) root ?v) \<noteq> 0" using page_ok_nz [OF vm_invD(2) [OF inv pA]] .
    have some: "walk (mem s) 3 root ?v \<noteq> None" using pr walk_NoneD by fastforce
    have ka: "uva2ka root ?va0 s = Inr (child (lookup (mem s) root ?v))"
      using uva2ka_run [OF inv, of ?va0] v v0 some up by auto
    let ?s1 = "s\<lparr>mem := poke (mem s) (child (lookup (mem s) root ?v) + of_nat ?o) (take ?n buf)\<rparr>"
    have run: "copyout root va buf s = copyout root (?va0 + 4096) (drop ?n buf) ?s1"
      using False nz by (subst copyout.simps) (simp add: ka un [unfolded off] off Let_def)
    have c1: "copied root A ps va (take ?n buf) s ?s1"
      using copied_piece [OF less.prems(1) v pr, of "take ?n buf"] len by simp
    show ?thesis
    proof (cases "?n = length buf")
      case True
      then show ?thesis unfolding run using c1 by (auto simp: copyout.simps)
    next
      case n: False
      then have n': "?n = 4096 - ?o" by linarith
      have "unat ?va0 + 4096 < 2 ^ 64" using va by (simp add: unat_PGROUNDDOWN)
      then have nxt: "unat (?va0 + 4096) = unat va + ?n"
        using n' mod_less_eq_dividend [of "unat va" 4096]
        by (simp add: unat_add_no_wrap unat_PGROUNDDOWN)
      have "user_page (mem ?s1) root w"
        if "unat (?va0 + 4096) div 4096 \<le> w" "w * 4096 < unat (?va0 + 4096) + length (drop ?n buf)" for w
      proof -
        have "unat va div 4096 \<le> (unat va + ?n) div 4096" by (rule div_le_mono) simp
        then have "unat va div 4096 \<le> w" using that(1) unfolding nxt by (rule le_trans)
        moreover have b: "w * 4096 < unat va + length buf" using that(2) nxt len(3) by simp
        moreover have "w < 2 ^ 35" using b less.prems(2) by simp
        ultimately show ?thesis using less.prems(3) c1 by (simp add: user_page_def copied_def)
      qed
      moreover have u1: "uvm ?s1 root A ps" using c1 unfolding copied_def by blast
      moreover have small: "length (drop ?n buf) < length buf"
        "unat (?va0 + 4096) + length (drop ?n buf) \<le> 2 ^ 47"
        using len less.prems(2) nxt by simp_all
      ultimately obtain s' where "copyout root (?va0 + 4096) (drop ?n buf) ?s1 = Inr (0, s')"
          "copied root A ps (?va0 + 4096) (drop ?n buf) ?s1 s'"
        using less.hyps [of "drop ?n buf" ?s1 "?va0 + 4096"] u1 small by blast
      moreover from copied_trans [OF c1 this(2)] nxt len(3) have "copied root A ps va buf s s'" by simp
      ultimately show ?thesis unfolding run by blast
    qed
  qed
qed

section \<open>Fresh address spaces\<close>

lemma vm_inv_fresh:
  assumes "page_ok e root" "\<And>i. i < 256 \<Longrightarrow> entry m root i = 0"
  shows "vm_inv m e root [root \<mapsto> (4, 0)]"
  using assms by (auto simp: vm_inv_def slots_def split: if_splits)

lemma lookup_fresh:
  assumes "\<And>i. i < 256 \<Longrightarrow> entry m root i = 0" "v < 2 ^ 35"
  shows "lookup m root v = 0"
proof -
  have "idx 3 v < 256" using idx_slots [OF assms(2), of 3] by (simp add: slots_def)
  then show ?thesis using assms(1) by (simp add: numeral_3_eq_3 Let_def)
qed

lemma entry_zero_page:
  assumes "p mod 4096 = 0" "i < 512" "\<And>x. PGROUNDDOWN x = p \<Longrightarrow> m x = 0"
  shows "entry m p i = 0"
  unfolding entry_def
proof (rule load64_zero)
  fix j :: nat assume "j < 8"
  then have "in_range (p + 8 * of_nat i) 8 (p + 8 * of_nat i + of_nat j)"
    by (simp add: in_range_def unat_of_nat_small)
  with word_in_page [OF assms(1,2)] assms(3) show "m (p + 8 * of_nat i + of_nat j) = 0" by blast
qed

text \<open>A free list laid out in memory, and a state with an empty address space beside it.\<close>

fun link_pages :: "addr list \<Rightarrow> mem \<Rightarrow> mem" where
  "link_pages [] m = m"
| "link_pages (p # ps) m = store64 (link_pages ps m) p (case ps of [] \<Rightarrow> 0 | q # _ \<Rightarrow> q)"

lemma link_pages_outside:
  "PGROUNDDOWN x \<notin> set ps \<Longrightarrow> \<forall>p \<in> set ps. p mod 4096 = 0 \<Longrightarrow> link_pages ps m x = m x"
proof (induction ps)
  case (Cons p ps)
  have "\<not> in_range p 8 x" using word_in_page [of p 0 x] Cons.prems by auto
  with Cons show ?case by (simp add: store64_outside)
qed simp

lemma flist_link_pages:
  assumes "distinct ps" "\<forall>p \<in> set ps. page_ok e p"
  shows "flist (link_pages ps m) (case ps of [] \<Rightarrow> 0 | p # _ \<Rightarrow> p) ps"
  using assms
proof (induction ps)
  case (Cons p ps)
  have al: "\<forall>q \<in> set (p # ps). q mod 4096 = 0" using Cons.prems(2) page_ok_aligned by blast
  have "flist (link_pages (p # ps) m) a ps = flist (link_pages ps m) a ps" for a
  proof (rule flist_cong)
    show "\<forall>x. PGROUNDDOWN x \<in> set ps \<longrightarrow> link_pages (p # ps) m x = link_pages ps m x"
      using Cons.prems(1) al word_in_page [of p 0] by (auto intro!: store64_outside)
  qed (use al in simp)
  with Cons page_ok_nz show ?case by auto
qed simp

definition demo_pages :: "addr list" where
  "demo_pages = map (\<lambda>i. KERNBASE + 0x102000 + 4096 * i) [0, 1, 2, 3, 4, 5]"

definition demo_uvm :: kalloc_state where
  "demo_uvm = (demo_kmem demo_pages)\<lparr>mem := link_pages demo_pages (\<lambda>_. 0)\<rparr>"

abbreviation (input) "demo_root \<equiv> 0xFFFF800000101000 :: addr"

lemma demo_uvm:
  "uvm demo_uvm demo_root [demo_root \<mapsto> (4, 0)] demo_pages"
  "v < 2 ^ 35 \<Longrightarrow> lookup (mem demo_uvm) demo_root v = 0"
proof -
  have ok: "distinct demo_pages" "\<forall>p \<in> set demo_pages. page_ok (KERNBASE + 0x100000) p"
    "demo_root \<notin> set demo_pages" "page_ok (KERNBASE + 0x100000) demo_root"
    by (simp_all add: demo_pages_def page_ok_def V2P_def)
  then have "free_pages demo_uvm demo_pages"
    using flist_link_pages [OF ok(1,2)] by (simp add: free_pages_def demo_uvm_def)
  moreover have ent: "entry (mem demo_uvm) demo_root i = 0" if "i < 512" for i
  proof -
    have "mem demo_uvm x = 0" if "PGROUNDDOWN x = demo_root" for x
      using link_pages_outside [of x demo_pages] that ok(2,3) page_ok_aligned
      by (auto simp: demo_uvm_def)
    then show ?thesis using that ok(4) page_ok_aligned by (intro entry_zero_page) auto
  qed
  moreover have "kmem_ready demo_uvm" using demo_kmem_simps(1) [of demo_pages]
    by (simp add: demo_uvm_def kmem_ready_def lock_free_def)
  ultimately show "uvm demo_uvm demo_root [demo_root \<mapsto> (4, 0)] demo_pages"
    using ok by (auto simp: uvm_def demo_uvm_def intro: vm_inv_fresh)
  show "v < 2 ^ 35 \<Longrightarrow> lookup (mem demo_uvm) demo_root v = 0"
    by (rule lookup_fresh [OF ent]) simp_all
qed

section \<open>Growing and shrinking\<close>

text \<open>What user code reads from a page that was there before survives an extension.\<close>

lemma extends_uread:
  assumes e: "extends root s A ps n s' A' ps'" and u: "uvm s root A ps"
    and y: "vpn y < 2 ^ 35" "present (lookup (mem s) root (vpn y))"
    and same: "lookup (mem s') root (vpn y) = lookup (mem s) root (vpn y)"
  shows "uread (mem s') root y = uread (mem s) root y"
proof -
  have inv: "vm_inv (mem s) (kend s) root A" using u by (simp add: uvm_def)
  let ?p = "child (lookup (mem s) root (vpn y))"
  have p: "A ?p = Some (0, vpn y)" using present_page [OF inv y] .
  have "?p \<notin> set ps" using u p by (auto simp: uvm_def)
  moreover have "PGROUNDDOWN (?p + of_nat (unat y mod 4096)) = ?p"
    using vm_invD(3) [OF inv p] by (intro PGROUNDDOWN_offset) simp_all
  ultimately show ?thesis using extendsD(7) [OF e] p by (simp add: uread_def same is_table_def)
qed

lemma allocuvm_run:
  assumes u: "uvm s root A ps" and sizes: "unat oldsz \<le> unat newsz" "unat newsz \<le> 2 ^ 47"
    and free: "\<forall>v. npages oldsz \<le> v \<longrightarrow> v < npages newsz \<longrightarrow> \<not> present (lookup (mem s) root v)"
    and enough: "4 * (npages newsz - npages oldsz) \<le> length ps"
  shows "\<exists>s' A' ps'. allocuvm root oldsz newsz s = Inr (newsz, s') \<and>
    extends root s A ps (4 * (npages newsz - npages oldsz)) s' A' ps' \<and>
    (\<forall>v < 2 ^ 35. if npages oldsz \<le> v \<and> v < npages newsz
      then \<exists>p. lookup (mem s') root v = V2P p OR 7 \<and> A' p = Some (0, v) \<and> zero_page (mem s') p
      else lookup (mem s') root v = lookup (mem s) root v)"
proof -
  let ?as = "page_range (PGROUNDUP oldsz) newsz"
  have old: "unat oldsz \<le> 2 ^ 47" using sizes by simp
  note R = page_range_sizes [OF old sizes(2)]
  have "\<forall>a \<in> set ?as. a mod 4096 = 0 \<and> vpn a < 2 ^ 35 \<and> \<not> present (lookup (mem s) root (vpn a))"
  proof
    fix a assume a: "a \<in> set ?as"
    then have "vpn a \<in> {npages oldsz..<npages newsz}" using R(1) by blast
    with a R(4) free npages_less [OF sizes(2)]
    show "a mod 4096 = 0 \<and> vpn a < 2 ^ 35 \<and> \<not> present (lookup (mem s) root (vpn a))" by simp
  qed
  from allocuvm_loop_run [OF u this R(2), of oldsz newsz] enough
  obtain s' A' ps' where s': "allocuvm_loop root oldsz newsz ?as s = Inr (newsz, s')"
    "extends root s A ps (4 * (npages newsz - npages oldsz)) s' A' ps'"
    "\<forall>v < 2 ^ 35. if v \<in> {npages oldsz..<npages newsz}
      then \<exists>p. lookup (mem s') root v = V2P p OR 7 \<and> A' p = Some (0, v) \<and> p \<in> set ps \<and> zero_page (mem s') p
      else lookup (mem s') root v = lookup (mem s) root v"
    unfolding R(1,3) by blast
  have "\<not> KERNBASE \<le> newsz" "\<not> newsz < oldsz"
    using sizes by (simp_all add: word_le_nat_alt word_less_nat_alt)
  then have "allocuvm root oldsz newsz s = Inr (newsz, s')" using s'(1) by (simp add: allocuvm_def)
  then show ?thesis using s'(2,3) by (metis atLeastLessThan_iff)
qed

text \<open>
  C21. \<^verbatim>\<open>allocuvm\<close> grows user memory: given enough free pages, every virtual page of the new range
  becomes a user page that reads as zeros, every other virtual page keeps its entry, every page
  mapped before keeps its contents, and the page tables stay well-formed.
\<close>

theorem allocuvm_maps:
  assumes "uvm s root A ps" "unat oldsz \<le> unat newsz" "unat newsz \<le> 2 ^ 47"
    and "\<forall>v. npages oldsz \<le> v \<longrightarrow> v < npages newsz \<longrightarrow> \<not> present (lookup (mem s) root v)"
    and "4 * (npages newsz - npages oldsz) \<le> length ps"
  shows "\<exists>s' A' ps'. allocuvm root oldsz newsz s = Inr (newsz, s') \<and> uvm s' root A' ps' \<and> vm_frame s s' \<and>
    (\<forall>y. npages oldsz \<le> vpn y \<longrightarrow> vpn y < npages newsz \<longrightarrow>
      user_page (mem s') root (vpn y) \<and> uread (mem s') root y = 0) \<and>
    (\<forall>v < 2 ^ 35. \<not> (npages oldsz \<le> v \<and> v < npages newsz) \<longrightarrow>
      lookup (mem s') root v = lookup (mem s) root v) \<and>
    (\<forall>y. vpn y < 2 ^ 35 \<longrightarrow> present (lookup (mem s) root (vpn y)) \<longrightarrow>
      uread (mem s') root y = uread (mem s) root y)"
proof -
  obtain s' A' ps' where s': "allocuvm root oldsz newsz s = Inr (newsz, s')"
    "extends root s A ps (4 * (npages newsz - npages oldsz)) s' A' ps'"
    "\<forall>v < 2 ^ 35. if npages oldsz \<le> v \<and> v < npages newsz
      then \<exists>p. lookup (mem s') root v = V2P p OR 7 \<and> A' p = Some (0, v) \<and> zero_page (mem s') p
      else lookup (mem s') root v = lookup (mem s) root v"
    using allocuvm_run [OF assms] by blast
  note E = extendsD [OF s'(2)]
  have inv: "vm_inv (mem s') (kend s') root A'" using E(1) by (simp add: uvm_def)
  have "user_page (mem s') root (vpn y) \<and> uread (mem s') root y = 0"
    if r: "npages oldsz \<le> vpn y" "vpn y < npages newsz" for y
  proof -
    obtain p where p: "lookup (mem s') root (vpn y) = V2P p OR 7" "A' p = Some (0, vpn y)"
        "zero_page (mem s') p"
      using s'(3) [rule_format, OF npages_less [OF assms(3) r(2)]] r by auto
    have "present (V2P p OR 7) \<and> (V2P p OR 7) AND PTE_U \<noteq> 0 \<and> child (V2P p OR 7) = p"
      using vm_invD(3) [OF inv p(2)]
      by (simp add: entry_for_page) (simp add: present_def and_flag_or V2P_aligned)
    moreover have "PGROUNDDOWN (p + of_nat (unat y mod 4096)) = p"
      using vm_invD(3) [OF inv p(2)] by (intro PGROUNDDOWN_offset) simp_all
    ultimately show ?thesis using p(1,3) by (simp add: user_page_def uread_def zero_page_def)
  qed
  moreover have "uread (mem s') root y = uread (mem s) root y"
    if "vpn y < 2 ^ 35" "present (lookup (mem s) root (vpn y))" for y
    using s'(3) that assms(4) by (intro extends_uread [OF s'(2) assms(1) that]) (metis (full_types))
  moreover have "\<forall>v < 2 ^ 35. \<not> (npages oldsz \<le> v \<and> v < npages newsz) \<longrightarrow>
      lookup (mem s') root v = lookup (mem s) root v" using s'(3) by metis
  ultimately show ?thesis using s'(1) E(1,2) by blast
qed

theorem allocuvm_maps_witness:
  "\<exists>s'. allocuvm demo_root 0 4096 demo_uvm = Inr (4096, s') \<and>
     user_page (mem s') demo_root 0 \<and> uread (mem s') demo_root 4095 = 0"
proof -
  obtain s' where s': "allocuvm demo_root 0 4096 demo_uvm = Inr (4096, s')"
    "\<forall>y. npages 0 \<le> vpn y \<longrightarrow> vpn y < npages 4096 \<longrightarrow>
      user_page (mem s') demo_root (vpn y) \<and> uread (mem s') demo_root y = 0"
    using allocuvm_maps [OF demo_uvm(1), of 0 4096] demo_uvm(2)
    by (auto simp: npages_def demo_pages_def)
  from s'(1) s'(2) [rule_format, of 4095] show ?thesis by (auto simp: npages_def vpn_def)
qed

lemma shrinks_uread:
  assumes sh: "shrinks root s A ps s' A' ps'" and u: "uvm s root A ps"
    and y: "vpn y < 2 ^ 35" "present (lookup (mem s) root (vpn y))"
    and same: "lookup (mem s') root (vpn y) = lookup (mem s) root (vpn y)"
  shows "uread (mem s') root y = uread (mem s) root y"
proof -
  have inv: "vm_inv (mem s) (kend s) root A" and inv': "vm_inv (mem s') (kend s') root A'"
    using u shrinksD(1) [OF sh] by (simp_all add: uvm_def)
  let ?p = "child (lookup (mem s) root (vpn y))"
  have p: "A ?p = Some (0, vpn y)" using present_page [OF inv y] .
  have "A' ?p = Some (0, vpn y)" using present_page [OF inv' y(1)] y(2) same by simp
  then have "?p \<notin> set ps'" using shrinksD(1) [OF sh] by (auto simp: uvm_def)
  moreover have "PGROUNDDOWN (?p + of_nat (unat y mod 4096)) = ?p"
    using vm_invD(3) [OF inv p] by (intro PGROUNDDOWN_offset) simp_all
  ultimately show ?thesis using shrinksD(6) [OF sh] p by (simp add: uread_def same is_table_def)
qed

text \<open>
  C22. \<^verbatim>\<open>deallocuvm\<close> shrinks user memory: the virtual pages above the new size are unmapped, exactly
  the physical pages they led to are added to the free list, the other virtual pages keep their
  entries and contents, and the page tables stay well-formed.
\<close>

theorem deallocuvm_unmaps:
  assumes u: "uvm s root A ps" and k: "KERNBASE < kend s" and sizes: "newsz < oldsz" "unat oldsz \<le> 2 ^ 47"
  shows "\<exists>s' A' u. deallocuvm root oldsz newsz s = Inr (newsz, s') \<and> uvm s' root A' (u @ ps) \<and> vm_frame s s' \<and>
    set u = {child (lookup (mem s) root v) |v. npages newsz \<le> v \<and> v < npages oldsz \<and>
      present (lookup (mem s) root v)} \<and>
    (\<forall>v < 2 ^ 35. lookup (mem s') root v =
      (if npages newsz \<le> v \<and> v < npages oldsz \<and> present (lookup (mem s) root v) then 0
       else lookup (mem s) root v)) \<and>
    (\<forall>y. vpn y < npages newsz \<longrightarrow> present (lookup (mem s) root (vpn y)) \<longrightarrow>
      uread (mem s') root y = uread (mem s) root y)"
proof -
  let ?as = "page_range (PGROUNDUP newsz) oldsz"
  have new: "unat newsz \<le> 2 ^ 47" using sizes by (simp add: word_less_nat_alt)
  note R = page_range_sizes [OF new sizes(2)]
  have lt: "v < 2 ^ 35" if "v < npages oldsz" for v using npages_less [OF sizes(2) that] .
  have "\<forall>a \<in> set ?as. vpn a < 2 ^ 35" using R(1) lt by (metis atLeastLessThan_iff image_eqI)
  from deallocuvm_loop_run [OF u k this R(2)]
  obtain s' A' ps' where s': "deallocuvm_loop root ?as s = Inr s'" "shrinks root s A ps s' A' ps'"
    "\<forall>w < 2 ^ 35. lookup (mem s') root w =
       (if w \<in> {npages newsz..<npages oldsz} \<and> present (lookup (mem s) root w) then 0 else lookup (mem s) root w)"
    "\<forall>p. A p \<noteq> None \<and> A' p = None \<longleftrightarrow> (\<exists>w \<in> {npages newsz..<npages oldsz}. A p = Some (0, w))"
    unfolding R(1) by blast
  obtain us where us: "ps' = us @ ps" "set us = {p. A p \<noteq> None \<and> A' p = None}"
    using shrinksD(5) [OF s'(2)] by blast
  have inv: "vm_inv (mem s) (kend s) root A" using u by (simp add: uvm_def)
  have "A p = Some (0, w) \<longleftrightarrow> present (lookup (mem s) root w) \<and> child (lookup (mem s) root w) = p"
    if "w < 2 ^ 35" for p w
    using lookup_page [OF inv that] present_page [OF inv that] by metis
  then have "set us = {child (lookup (mem s) root v) |v. npages newsz \<le> v \<and> v < npages oldsz \<and>
      present (lookup (mem s) root v)}"
    unfolding us(2) using s'(4) lt by (auto; metis atLeastLessThan_iff)
  moreover have "uread (mem s') root y = uread (mem s) root y"
    if y: "vpn y < npages newsz" "present (lookup (mem s) root (vpn y))" for y
    using s'(3) npages_less [OF new y(1)] y by (intro shrinks_uread [OF s'(2) u]) auto
  moreover have "deallocuvm root oldsz newsz s = Inr (newsz, s')"
    using s'(1) sizes(1) by (auto simp: deallocuvm_def)
  moreover have "\<forall>v < 2 ^ 35. lookup (mem s') root v =
      (if npages newsz \<le> v \<and> v < npages oldsz \<and> present (lookup (mem s) root v) then 0
       else lookup (mem s) root v)" using s'(3) by simp
  ultimately show ?thesis using shrinksD(1,2) [OF s'(2)] us(1) by blast
qed

text \<open>A state with one user page.\<close>

lemma demo_user_page:
  "\<exists>(s :: kalloc_state) A ps. uvm s demo_root A ps \<and> user_page (mem s) demo_root 0 \<and> kend s = KERNBASE + 0x100000"
proof -
  obtain s' A' ps' where s': "extends demo_root demo_uvm [demo_root \<mapsto> (4, 0)] demo_pages 4 s' A' ps'"
    "\<forall>v < 2 ^ 35. if npages 0 \<le> v \<and> v < npages 4096
      then \<exists>p. lookup (mem s') demo_root v = V2P p OR 7 \<and> A' p = Some (0, v) \<and> zero_page (mem s') p
      else lookup (mem s') demo_root v = lookup (mem demo_uvm) demo_root v"
    using allocuvm_run [OF demo_uvm(1), of 0 4096] demo_uvm(2)
    by (auto simp: npages_def demo_pages_def)
  from s'(2) [rule_format, of 0] obtain p where p: "lookup (mem s') demo_root 0 = V2P p OR 7" "A' p = Some (0, 0)"
    by (auto simp: npages_def)
  have "vm_inv (mem s') (kend s') demo_root A'" using extendsD(1) [OF s'(1)] by (simp add: uvm_def)
  then have "p mod 4096 = 0" using p(2) by (rule vm_invD(3))
  then have "user_page (mem s') demo_root 0"
    by (simp add: user_page_def p(1) entry_for_page) (simp add: present_def and_flag_or V2P_aligned)
  with extendsD(1,6) [OF s'(1)] show ?thesis by (auto simp: demo_uvm_def)
qed

theorem deallocuvm_unmaps_witness:
  "\<exists>(s :: kalloc_state) s'. user_page (mem s) demo_root 0 \<and> deallocuvm demo_root 4096 0 s = Inr (0, s') \<and>
     lookup (mem s') demo_root 0 = 0"
proof -
  obtain s :: kalloc_state and A ps where s: "uvm s demo_root A ps" "user_page (mem s) demo_root 0"
    "kend s = KERNBASE + 0x100000" using demo_user_page by blast
  have n: "npages 4096 = 1" "npages 0 = 0" by (simp_all add: npages_def)
  have k: "KERNBASE < kend s" by (simp add: s(3))
  obtain s' where s': "deallocuvm demo_root 4096 0 s = Inr (0, s')"
    "\<forall>v < 2 ^ 35. lookup (mem s') demo_root v =
      (if npages 0 \<le> v \<and> v < npages 4096 \<and> present (lookup (mem s) demo_root v) then 0
       else lookup (mem s) demo_root v)"
    using deallocuvm_unmaps [OF s(1) k, of 0 4096] by auto
  have "lookup (mem s') demo_root 0 = 0" using s'(2) [rule_format, of 0] s(2) n by (simp add: user_page_def)
  with s(2) s'(1) show ?thesis by blast
qed

text \<open>
  C23. \<^verbatim>\<open>copyout\<close> writes the kernel's bytes into user memory: if every page of the range is a user
  page it returns 0, user code then reads exactly the bytes at the range and its old contents
  elsewhere, no page-table entry changes, and no byte outside the address space's data pages.
\<close>

theorem copyout_writes_user_memory:
  assumes "uvm s root A ps" "unat va + length buf \<le> 2 ^ 47"
    and "\<forall>w. unat va div 4096 \<le> w \<longrightarrow> w * 4096 < unat va + length buf \<longrightarrow> user_page (mem s) root w"
  shows "\<exists>m'. copyout root va buf s = Inr (0, s\<lparr>mem := m'\<rparr>) \<and> uvm (s\<lparr>mem := m'\<rparr>) root A ps \<and>
    (\<forall>v < 2 ^ 35. lookup m' root v = lookup (mem s) root v) \<and>
    (\<forall>y. vpn y < 2 ^ 35 \<longrightarrow> present (lookup (mem s) root (vpn y)) \<longrightarrow> uread m' root y =
      (if unat va \<le> unat y \<and> unat y < unat va + length buf then buf ! (unat y - unat va)
       else uread (mem s) root y)) \<and>
    (\<forall>x. (\<forall>w. A (PGROUNDDOWN x) \<noteq> Some (0, w)) \<longrightarrow> m' x = mem s x)"
proof -
  obtain s' where s': "copyout root va buf s = Inr (0, s')" "copied root A ps va buf s s'"
    using copyout_run [OF assms(1,2)] assms(3) by blast
  then have "s' = s\<lparr>mem := mem s'\<rparr>" unfolding copied_def by blast
  then obtain m' where m': "s' = s\<lparr>mem := m'\<rparr>" by blast
  have "mem s' = m'" unfolding m' by simp
  with s' show ?thesis unfolding copied_def m' by (intro exI [of _ m'] conjI) simp_all
qed

theorem copyout_writes_user_memory_witness:
  "\<exists>(s :: kalloc_state) s'. copyout demo_root 100 [1, 2, 3] s = Inr (0, s') \<and> uread (mem s') demo_root 101 = 2"
proof -
  obtain s :: kalloc_state and A ps where s: "uvm s demo_root A ps" "user_page (mem s) demo_root 0" using demo_user_page by blast
  have "\<forall>w. unat (100 :: addr) div 4096 \<le> w \<longrightarrow> w * 4096 < unat (100 :: addr) + length [1, 2, 3 :: byte] \<longrightarrow>
      user_page (mem s) demo_root w"
  proof (intro allI impI)
    fix w :: nat assume "w * 4096 < unat (100 :: addr) + length [1, 2, 3 :: byte]"
    then have "w = 0" by simp
    with s(2) show "user_page (mem s) demo_root w" by simp
  qed
  from copyout_writes_user_memory [OF s(1) _ this]
  obtain m' where m': "copyout demo_root 100 [1, 2, 3] s = Inr (0, s\<lparr>mem := m'\<rparr>)"
    "\<forall>y. vpn y < 2 ^ 35 \<longrightarrow> present (lookup (mem s) demo_root (vpn y)) \<longrightarrow> uread m' demo_root y =
      (if unat (100 :: addr) \<le> unat y \<and> unat y < unat (100 :: addr) + length [1, 2, 3 :: byte]
       then [1, 2, 3] ! (unat y - unat (100 :: addr)) else uread (mem s) demo_root y)"
    by auto
  from m'(2) [rule_format, of 101] s(2) have "uread m' demo_root 101 = 2"
    by (simp add: vpn_def user_page_def)
  with m'(1) show ?thesis by fastforce
qed

text \<open>
  C24. \<^verbatim>\<open>uva2ka\<close> and \<^verbatim>\<open>copyout\<close> on an address whose page tables are missing dereference the null
  pointer that \<^verbatim>\<open>walkpgdir\<close> returned, instead of failing with 0 and -1.
\<close>

theorem copyout_null_table:
  assumes "vm_inv (mem s) e root A" "vpn va < 2 ^ 35" "walk (mem s) 3 root (vpn va) = None" "buf \<noteq> []"
  shows "copyout root va buf s = Inl NullDeref"
proof -
  have "vpn (PGROUNDDOWN va) = vpn va" by (simp add: vpn_def unat_PGROUNDDOWN minus_mod_eq_mult_div)
  then have "uva2ka root (PGROUNDDOWN va) s = Inl NullDeref"
    using uva2ka_run [OF assms(1), of "PGROUNDDOWN va"] assms(2,3) by simp
  with assms(4) show ?thesis by (simp add: copyout.simps)
qed

theorem copyout_null_table_witness: "copyout demo_root 0x40000000 [1] demo_uvm = Inl NullDeref"
proof -
  have inv: "vm_inv (mem demo_uvm) (kend demo_uvm) demo_root [demo_root \<mapsto> (4, 0)]"
    using demo_uvm(1) by (simp add: uvm_def)
  have w: "vpn 0x40000000 < 2 ^ 35" by (simp add: vpn_def)
  have "walk (mem demo_uvm) 3 demo_root (vpn 0x40000000) = None"
  proof (rule ccontr)
    assume "\<not> ?thesis"
    then obtain a where "walk (mem demo_uvm) 3 demo_root (vpn 0x40000000) = Some a" by blast
    with walk_on_path [OF inv w on_path_root [OF inv w]] show False by (auto split: if_splits)
  qed
  then show ?thesis using copyout_null_table [OF inv w] by simp
qed

end
