(* ===== verification/Shell.thy ===== *)
theory Shell
  imports Prelude
begin

text \<open>
  The command-line parser of the shell, \<^verbatim>\<open>sh.c\<close>. The line being parsed is the list \<open>t\<close> of
  characters before its NUL; the pointers \<^verbatim>\<open>s\<close>, \<^verbatim>\<open>*ps\<close>, \<^verbatim>\<open>q\<close>, \<^verbatim>\<open>eq\<close> are indices into it, \<^verbatim>\<open>es\<close> is
  \<open>length t\<close>. Tokens are not copied: a parsed command refers to them by start and end index,
  and \<^verbatim>\<open>nulterminate\<close> writes a NUL at the ends. The shell's \<^verbatim>\<open>panic\<close> prints its message and
  exits. Commands are values of a datatype, so \<^verbatim>\<open>malloc\<close> is taken to succeed.
\<close>

section \<open>Commands\<close>

abbreviation (input) "NUL \<equiv> CHR 0x00"
abbreviation (input) "MAXARGS \<equiv> 10 :: nat"
abbreviation (input) "O_RDONLY \<equiv> 0 :: cint"
abbreviation (input) "O_WRONLY \<equiv> 1 :: cint"
abbreviation (input) "O_RDWR \<equiv> 2 :: cint"
abbreviation (input) "O_CREATE \<equiv> 0x200 :: cint"

text \<open>
  \<^verbatim>\<open>struct cmd\<close> and its variants; the pairs \<^verbatim>\<open>argv[i]\<close>, \<^verbatim>\<open>eargv[i]\<close> up to the null entry are one
  list.
\<close>

datatype cmd =
    EXEC "(nat \<times> nat) list"
  | REDIR cmd nat nat cint cint
  | PIPE cmd cmd
  | LIST cmd cmd
  | BACK cmd

text \<open>
  \<^verbatim>\<open>redircmd\<close> wraps a command. While \<^verbatim>\<open>parseexec\<close> is still filling in the inner \<^verbatim>\<open>execcmd\<close>, the
  redirections already wrapped around it are a list, innermost first.
\<close>

type_synonym redir = "nat \<times> nat \<times> cint \<times> cint"

fun redircmd :: "cmd \<Rightarrow> redir \<Rightarrow> cmd" where
  "redircmd subcmd (file, efile, mode, fd) = REDIR subcmd file efile mode fd"

abbreviation redircmds :: "cmd \<Rightarrow> redir list \<Rightarrow> cmd" where
  "redircmds \<equiv> foldl redircmd"

section \<open>Tokens\<close>

definition whitespace :: string where
  "whitespace = [CHR 0x20, CHR 0x09, CHR 0x0D, CHR 0x0A, CHR 0x0B]"

definition symbols :: string where
  "symbols = ''<|>&;()''"

definition char_at :: "string \<Rightarrow> nat \<Rightarrow> char" where
  "char_at t s = (if s < length t then t ! s else NUL)"

text \<open>The loops \<^verbatim>\<open>while(s < es && ...) s++\<close>.\<close>

function skip_while :: "(char \<Rightarrow> bool) \<Rightarrow> string \<Rightarrow> nat \<Rightarrow> nat" where
  "skip_while P t s = (if s < length t \<and> P (t ! s) then skip_while P t (Suc s) else s)"
  by pat_completeness auto
termination by (relation "measure (\<lambda>(P, t, s). length t - s)") auto

abbreviation skip_space :: "string \<Rightarrow> nat \<Rightarrow> nat" where
  "skip_space \<equiv> skip_while (\<lambda>c. c \<in> set whitespace)"

abbreviation word_char :: "char \<Rightarrow> bool" where
  "word_char c \<equiv> c \<notin> set whitespace \<and> c \<notin> set symbols"

text \<open>The token's code, its start and end, and the new \<^verbatim>\<open>*ps\<close>.\<close>

definition gettoken :: "string \<Rightarrow> nat \<Rightarrow> char \<times> nat \<times> nat \<times> nat" where
  "gettoken t ps =
     (let s = skip_space t ps;
          c = char_at t s;
          (ret, e) =
            (if c = NUL then (c, s)
             else if c \<in> set ''|();&<'' then (c, s + 1)
             else if c = CHR ''>'' then
               (if char_at t (s + 1) = CHR ''>'' then (CHR ''+'', s + 2) else (c, s + 1))
             else (CHR ''a'', skip_while word_char t s))
      in (ret, s, e, skip_space t e))"

definition peek :: "string \<Rightarrow> nat \<Rightarrow> string \<Rightarrow> bool \<times> nat" where
  "peek t ps toks = (let s = skip_space t ps in (char_at t s \<noteq> NUL \<and> char_at t s \<in> set toks, s))"

declare skip_while.simps [simp del]

lemma skip_while_takeWhile: "skip_while P t s = s + length (takeWhile P (drop s t))"
proof (induction P t s rule: skip_while.induct)
  case (1 P t s)
  show ?case
  proof (cases "s < length t")
    case True
    with 1 show ?thesis
      by (subst skip_while.simps) (simp add: Cons_nth_drop_Suc [symmetric])
  next
    case False
    then show ?thesis by (subst skip_while.simps) simp
  qed
qed

lemma skip_while_ge: "s \<le> skip_while P t s"
  by (simp add: skip_while_takeWhile)

lemma skip_while_le: "s \<le> length t \<Longrightarrow> skip_while P t s \<le> length t"
  using length_takeWhile_le [of P "drop s t"] by (simp add: skip_while_takeWhile)

lemma skip_while_stop: "s < length t \<Longrightarrow> skip_while P t s < length t \<Longrightarrow> \<not> P (t ! skip_while P t s)"
  using nth_length_takeWhile [of P "drop s t"] by (simp add: skip_while_takeWhile)

lemma skip_while_in:
  "s \<le> i \<Longrightarrow> i < skip_while P t s \<Longrightarrow> P (t ! i)"
  using nth_mem [of "i - s" "takeWhile P (drop s t)"] takeWhile_nth [of "i - s" P "drop s t"]
    set_takeWhileD [of "t ! i" P "drop s t"] length_takeWhile_le [of P "drop s t"]
  by (auto simp: skip_while_takeWhile)

lemma skip_while_step: "s < length t \<Longrightarrow> P (t ! s) \<Longrightarrow> Suc s \<le> skip_while P t s"
  by (subst skip_while.simps) (simp add: skip_while_ge)

lemma symbols_cases: "c \<in> set symbols \<longleftrightarrow> c \<in> set ''|();&<'' \<or> c = CHR ''>''"
  by (auto simp: symbols_def)

lemma char_at_cases: "char_at t s = c \<Longrightarrow> c \<noteq> NUL \<Longrightarrow> s < length t \<and> t ! s = c"
  by (simp add: char_at_def split: if_splits)

lemma skip_space_stop: "ps \<le> length t \<Longrightarrow> skip_space t ps < length t \<Longrightarrow> t ! skip_space t ps \<notin> set whitespace"
  using skip_while_stop [of ps t "\<lambda>c. c \<in> set whitespace"]
    skip_while_ge [of ps "\<lambda>c. c \<in> set whitespace" t] by simp

text \<open>Positions stay inside the line, and every token but the end consumes something.\<close>

lemma gettoken_pos:
  assumes "gettoken t ps = (ret, q, e, ps')" "ps \<le> length t"
  shows "ps \<le> q" "q \<le> e" "e \<le> ps'" "ps' \<le> length t" "ret \<noteq> NUL \<Longrightarrow> q < e"
proof -
  let ?s = "skip_space t ps" and ?c = "char_at t (skip_space t ps)"
  have s: "ps \<le> ?s" "?s \<le> length t" using skip_while_ge skip_while_le assms(2) by auto
  have w: "?s < length t \<and> Suc ?s \<le> skip_while word_char t ?s"
    if "?c \<noteq> NUL" "?c \<notin> set ''|();&<''" "?c \<noteq> CHR ''>''"
    using char_at_cases [OF refl that(1)] skip_space_stop [OF assms(2)] symbols_cases [of ?c] that
    by (auto intro: skip_while_step)
  have le: "skip_while word_char t ?s \<le> length t" using s(2) by (rule skip_while_le)
  have c: "?c \<noteq> NUL \<Longrightarrow> ?s < length t" "char_at t (Suc ?s) = CHR ''>'' \<Longrightarrow> Suc ?s < length t"
    by (auto simp: char_at_def split: if_splits)
  have e: "?s \<le> e" "e \<le> length t" "q = ?s" "ps' = skip_space t e" "ret \<noteq> NUL \<Longrightarrow> ?s < e"
    using assms(1) s w le c unfolding gettoken_def Let_def
    by (auto split: if_splits)
  with s skip_while_ge [of e _ t] skip_while_le [of e t]
  show "ps \<le> q" "q \<le> e" "e \<le> ps'" "ps' \<le> length t" "ret \<noteq> NUL \<Longrightarrow> q < e" by auto
qed

lemma peek_pos:
  assumes "peek t ps toks = (b, s)"
  shows "ps \<le> s" "ps \<le> length t \<Longrightarrow> s \<le> length t" "b \<Longrightarrow> s < length t" "b \<Longrightarrow> t ! s \<in> set toks \<and> t ! s \<noteq> NUL"
    "s = skip_space t ps"
  using assms skip_while_ge [of ps "\<lambda>c. c \<in> set whitespace" t]
    skip_while_le [of ps t "\<lambda>c. c \<in> set whitespace"]
  by (auto simp: peek_def Let_def char_at_def split: if_splits)

lemma gettoken_inside: "gettoken t ps = (ret, q, e, ps') \<Longrightarrow> ret \<noteq> NUL \<Longrightarrow> ps < length t"
  using skip_while_ge [of ps "\<lambda>c. c \<in> set whitespace" t]
  by (auto simp: gettoken_def Let_def char_at_def split: if_splits)

lemma skip_while_idle: "s < length t \<Longrightarrow> \<not> P (t ! s) \<Longrightarrow> skip_while P t s = s"
  by (subst skip_while.simps) simp

lemma gettoken_symbol:
  assumes "s < length t" "t ! s \<in> set ''|();&<''"
  shows "gettoken t s = (t ! s, s, Suc s, skip_space t (Suc s))"
proof -
  have "t ! s \<notin> set whitespace" using assms(2) by (auto simp: whitespace_def)
  with assms skip_while_idle [of s t] show ?thesis
    by (auto simp: gettoken_def Let_def char_at_def)
qed

section \<open>The parser\<close>

text \<open>
  \<open>Syntax\<close> is the shell's \<^verbatim>\<open>panic\<close>. The mutually recursive functions take fuel; \<open>Fuel\<close> marks a
  run that used it up, which does not happen with the fuel \<^verbatim>\<open>parsecmd\<close> gives them.
\<close>

datatype parse_error = Syntax string | Fuel

function parseredirs :: "redir list \<Rightarrow> string \<Rightarrow> nat \<Rightarrow> parse_error + redir list \<times> nat" where
  "parseredirs rs t ps =
     (case peek t ps ''<>'' of (more, ps) \<Rightarrow>
      if \<not> more then Inr (rs, ps)
      else case gettoken t ps of (tok, _, _, ps) \<Rightarrow>
           case gettoken t ps of (a, q, eq, ps) \<Rightarrow>
             if a \<noteq> CHR ''a'' then Inl (Syntax ''missing file for redirection'')
             else parseredirs
                    (rs @ [if tok = CHR ''<'' then (q, eq, O_RDONLY, 0)
                           else (q, eq, O_WRONLY OR O_CREATE, 1)]) t ps)"
  by pat_completeness auto
termination
proof (relation "measure (\<lambda>(rs, t, ps). length t - ps)", goal_cases)
  case (2 rs t ps x ps1 tok ya q1 yb e1 ps2 a yd q2 ye e2 ps3)
  then have g: "peek t ps ''<>'' = (True, ps1)" "gettoken t ps1 = (tok, q1, e1, ps2)"
    "gettoken t ps2 = (CHR ''a'', q2, e2, ps3)" by simp_all
  note p = peek_pos [OF g(1)]
  then have "ps1 \<le> length t" by simp
  note g2 = gettoken_pos [OF g(2) this]
  note g3 = gettoken_pos [OF g(3) g2(4)]
  show ?case using p(1,3) g2 g3 by simp
qed simp

declare parseredirs.simps [simp del]

text \<open>Induction over the rounds of a successful run.\<close>

lemma parseredirs_run_induct [consumes 2, case_names stop more]:
  assumes "parseredirs rs t ps = Inr (rs', ps')" "ps \<le> length t"
    and "\<And>rs ps. ps \<le> length t \<Longrightarrow> P rs ps rs (skip_space t ps)"
    and "\<And>rs ps tok ps2 q e ps3 rs' ps'. ps < ps2 \<Longrightarrow> ps2 \<le> length t \<Longrightarrow>
      gettoken t ps2 = (CHR ''a'', q, e, ps3) \<Longrightarrow> ps2 < ps3 \<Longrightarrow> ps3 \<le> length t \<Longrightarrow>
      P (rs @ [if tok = CHR ''<'' then (q, e, O_RDONLY, 0) else (q, e, O_WRONLY OR O_CREATE, 1)]) ps3 rs' ps' \<Longrightarrow>
      P rs ps rs' ps'"
  shows "P rs ps rs' ps'"
  using assms(1,2)
proof (induction "length t - ps" arbitrary: rs ps rule: less_induct)
  case less
  obtain more ps1 where p: "peek t ps ''<>'' = (more, ps1)" by fastforce
  obtain tok q1 e1 ps2 where g1: "gettoken t ps1 = (tok, q1, e1, ps2)" by (metis prod_cases4)
  obtain a q2 e2 ps3 where g2: "gettoken t ps2 = (a, q2, e2, ps3)" by (metis prod_cases4)
  note pp = peek_pos [OF p]
  note gp1 = gettoken_pos [OF g1 pp(2) [OF less.prems(2)]]
  note gp2 = gettoken_pos [OF g2 gp1(4)]
  show ?case
  proof (cases "more \<and> a = CHR ''a''")
    case True
    let ?rs = "rs @ [if tok = CHR ''<'' then (q2, e2, O_RDONLY, 0) else (q2, e2, O_WRONLY OR O_CREATE, 1)]"
    have run: "parseredirs ?rs t ps3 = Inr (rs', ps')"
      using less.prems(1) p g1 g2 True by (subst (asm) parseredirs.simps) simp
    have "tok \<noteq> NUL"
    proof -
      have "skip_space t ps1 = ps1" using pp(3,4) True
        by (intro skip_while_idle) (auto simp: whitespace_def)
      with g1 pp(3,4) True show ?thesis by (auto simp: gettoken_def Let_def char_at_def split: if_splits)
    qed
    then have lt: "ps < ps2" using gp1 pp(1) by linarith
    have "P ?rs ps3 rs' ps'" using lt gp2 True by (intro less.hyps [OF _ run]) auto
    then show ?thesis using assms(4) [OF lt gp1(4), of q2 e2 ps3 rs tok] g2 True gp2 by fastforce
  next
    case False
    with less.prems p g1 g2 have "\<not> more" "rs' = rs" "ps' = ps1"
      by (subst (asm) parseredirs.simps, auto split: if_splits)+
    with assms(3) [OF less.prems(2), of rs] pp(5) show ?thesis by simp
  qed
qed

lemma parseredirs_pos:
  "parseredirs rs t ps = Inr (rs', ps') \<Longrightarrow> ps \<le> length t \<Longrightarrow> ps \<le> ps' \<and> ps' \<le> length t"
  by (induction rule: parseredirs_run_induct) (auto intro: skip_while_ge skip_while_le)

text \<open>The argument loop of \<^verbatim>\<open>parseexec\<close>.\<close>

function parseargs ::
    "(nat \<times> nat) list \<Rightarrow> redir list \<Rightarrow> string \<Rightarrow> nat \<Rightarrow> parse_error + (nat \<times> nat) list \<times> redir list \<times> nat" where
  "parseargs argv rs t ps =
     (case peek t ps ''|)&;'' of (stop, ps) \<Rightarrow>
      if stop then Inr (argv, rs, ps)
      else case gettoken t ps of (tok, q, eq, ps) \<Rightarrow>
        if tok = NUL then Inr (argv, rs, ps)
        else if tok \<noteq> CHR ''a'' then Inl (Syntax ''syntax'')
        else let argv = argv @ [(q, eq)]
             in if MAXARGS \<le> length argv then Inl (Syntax ''too many args'')
                else andthen (parseredirs rs t ps) (\<lambda>(rs, ps). parseargs argv rs t ps))"
  by pat_completeness auto
termination
proof (relation "measure (\<lambda>(argv, rs, t, ps). length t - ps)", goal_cases)
  case (2 argv rs t ps stop ps1 tok ya q yb e ps2 argv' r rs' ps3)
  then have g: "peek t ps ''|)&;'' = (False, ps1)" "gettoken t ps1 = (CHR ''a'', q, e, ps2)"
    "parseredirs rs t ps2 = Inr (rs', ps3)" by simp_all
  note p = peek_pos [OF g(1)]
  have "ps1 < length t" using gettoken_inside [OF g(2)] by simp
  then have "ps1 \<le> length t" by simp
  note g2 = gettoken_pos [OF g(2) this]
  have "ps2 \<le> ps3" using parseredirs_pos [OF g(3) g2(4)] by simp
  then show ?case using p(1) g2 \<open>ps1 < length t\<close> by simp
qed simp

declare parseargs.simps [simp del]

text \<open>The loop over \<^verbatim>\<open>&\<close> in \<^verbatim>\<open>parseline\<close>.\<close>

function parsebacks :: "cmd \<Rightarrow> string \<Rightarrow> nat \<Rightarrow> cmd \<times> nat" where
  "parsebacks cmd t ps =
     (case peek t ps ''&'' of (more, ps) \<Rightarrow>
      if \<not> more then (cmd, ps)
      else case gettoken t ps of (_, _, _, ps) \<Rightarrow> parsebacks (BACK cmd) t ps)"
  by pat_completeness auto
termination
proof (relation "measure (\<lambda>(c, t, ps). length t - ps)", goal_cases)
  case (2 c t ps more ps1 tok ya q yb e ps2)
  then have g: "peek t ps ''&'' = (True, ps1)" "gettoken t ps1 = (tok, q, e, ps2)" by simp_all
  note p = peek_pos [OF g(1)]
  then have "Suc ps1 \<le> ps2" using g(2) skip_while_ge [of "Suc ps1" _ t] by (auto simp: gettoken_symbol)
  then show ?case using p(1,3) by simp
qed simp

declare parsebacks.simps [simp del]


fun parseline :: "nat \<Rightarrow> string \<Rightarrow> nat \<Rightarrow> parse_error + cmd \<times> nat"
and parsepipe :: "nat \<Rightarrow> string \<Rightarrow> nat \<Rightarrow> parse_error + cmd \<times> nat"
and parseblock :: "nat \<Rightarrow> string \<Rightarrow> nat \<Rightarrow> parse_error + cmd \<times> nat"
and parseexec :: "nat \<Rightarrow> string \<Rightarrow> nat \<Rightarrow> parse_error + cmd \<times> nat" where
  "parseline 0 t ps = Inl Fuel"
| "parseline (Suc n) t ps =
     andthen (parsepipe n t ps) (\<lambda>(cmd, ps).
       case parsebacks cmd t ps of (cmd, ps) \<Rightarrow>
       case peek t ps '';'' of (semi, ps) \<Rightarrow>
         if semi then
           case gettoken t ps of (_, _, _, ps) \<Rightarrow>
             andthen (parseline n t ps) (\<lambda>(right, ps). Inr (LIST cmd right, ps))
         else Inr (cmd, ps))"
| "parsepipe 0 t ps = Inl Fuel"
| "parsepipe (Suc n) t ps =
     andthen (parseexec n t ps) (\<lambda>(cmd, ps).
       case peek t ps ''|'' of (bar, ps) \<Rightarrow>
         if bar then
           case gettoken t ps of (_, _, _, ps) \<Rightarrow>
             andthen (parsepipe n t ps) (\<lambda>(right, ps). Inr (PIPE cmd right, ps))
         else Inr (cmd, ps))"
| "parseblock 0 t ps = Inl Fuel"
| "parseblock (Suc n) t ps =
     (case peek t ps ''('' of (open, ps) \<Rightarrow>
        if \<not> open then Inl (Syntax ''parseblock'')
        else case gettoken t ps of (_, _, _, ps) \<Rightarrow>
          andthen (parseline n t ps) (\<lambda>(cmd, ps).
            case peek t ps '')'' of (close, ps) \<Rightarrow>
              if \<not> close then Inl (Syntax ''syntax - missing )'')
              else case gettoken t ps of (_, _, _, ps) \<Rightarrow>
                andthen (parseredirs [] t ps) (\<lambda>(rs, ps). Inr (redircmds cmd rs, ps))))"
| "parseexec 0 t ps = Inl Fuel"
| "parseexec (Suc n) t ps =
     (case peek t ps ''('' of (open, ps) \<Rightarrow>
        if open then parseblock n t ps
        else andthen (parseredirs [] t ps) (\<lambda>(rs, ps).
             andthen (parseargs [] rs t ps) (\<lambda>(argv, rs, ps).
               Inr (redircmds (EXEC argv) rs, ps))))"

primrec nulterminate :: "cmd \<Rightarrow> string \<Rightarrow> string" where
  "nulterminate (EXEC argv) b = fold (\<lambda>(q, e) b. b[e := NUL]) argv b"
| "nulterminate (REDIR c file efile mode fd) b = (nulterminate c b)[efile := NUL]"
| "nulterminate (PIPE l r) b = nulterminate r (nulterminate l b)"
| "nulterminate (LIST l r) b = nulterminate r (nulterminate l b)"
| "nulterminate (BACK c) b = nulterminate c b"

text \<open>\<^verbatim>\<open>parsecmd\<close> on the buffer \<open>b\<close> holding a NUL-terminated line: the command and the new buffer.\<close>

definition parsecmd :: "string \<Rightarrow> parse_error + cmd \<times> string" where
  "parsecmd b =
     (let t = takeWhile (\<lambda>c. c \<noteq> NUL) b
      in andthen (parseline (4 * length t + 4) t 0) (\<lambda>(cmd, ps).
           case peek t ps '''' of (_, ps) \<Rightarrow>
             if ps \<noteq> length t then Inl (Syntax ''syntax'')
             else Inr (cmd, nulterminate cmd b)))"

end
