(* ===== verification/ShellParse.thy ===== *)
theory ShellParse
  imports Shell
begin

text \<open>
  Facts about the shell's parser: it always terminates, every token it refers to is a maximal
  run of word characters inside the line, \<^verbatim>\<open>nulterminate\<close> turns exactly these into C strings,
  and parsing inverts printing.
\<close>

section \<open>Tokens of a command\<close>

primrec tokens :: "cmd \<Rightarrow> (nat \<times> nat) list" where
  "tokens (EXEC argv) = argv"
| "tokens (REDIR c file efile mode fd) = tokens c @ [(file, efile)]"
| "tokens (PIPE l r) = tokens l @ tokens r"
| "tokens (LIST l r) = tokens l @ tokens r"
| "tokens (BACK c) = tokens c"

text \<open>Every \<^verbatim>\<open>execcmd\<close> leaves room for the null pointer that ends \<^verbatim>\<open>argv\<close>.\<close>

primrec few_args :: "cmd \<Rightarrow> bool" where
  "few_args (EXEC argv) \<longleftrightarrow> length argv < MAXARGS"
| "few_args (REDIR c file efile mode fd) \<longleftrightarrow> few_args c"
| "few_args (PIPE l r) \<longleftrightarrow> few_args l \<and> few_args r"
| "few_args (LIST l r) \<longleftrightarrow> few_args l \<and> few_args r"
| "few_args (BACK c) \<longleftrightarrow> few_args c"

definition word_at :: "string \<Rightarrow> nat \<times> nat \<Rightarrow> bool" where
  "word_at t = (\<lambda>(q, e). q < e \<and> e \<le> length t \<and> (\<forall>i. q \<le> i \<and> i < e \<longrightarrow> word_char (t ! i) \<and> t ! i \<noteq> NUL) \<and>
     (e < length t \<longrightarrow> \<not> word_char (t ! e)))"

abbreviation redir_word :: "redir \<Rightarrow> nat \<times> nat" where
  "redir_word r \<equiv> (fst r, fst (snd r))"

lemma tokens_redircmds: "tokens (redircmds c rs) = tokens c @ map redir_word rs"
  by (induction rs arbitrary: c) auto

lemma few_args_redircmds: "few_args (redircmds c rs) = few_args c"
proof (induction rs arbitrary: c)
  case (Cons r rs)
  then show ?case by (cases r) simp
qed simp

lemma gettoken_word:
  assumes "NUL \<notin> set t" "ps \<le> length t" "gettoken t ps = (CHR ''a'', q, e, ps')"
  shows "word_at t (q, e)"
proof -
  let ?s = "skip_space t ps"
  note g = gettoken_pos [OF assms(3,2)]
  define B where "B \<longleftrightarrow> char_at t ?s \<in> set ''|();&<''"
  have "char_at t ?s = CHR ''a'' \<Longrightarrow> \<not> B" by (simp add: B_def)
  then have c: "char_at t ?s \<noteq> NUL" and qe: "q = ?s" "e = skip_while word_char t ?s"
    using assms(3) unfolding gettoken_def Let_def B_def [symmetric] by (auto split: if_splits)
  have s: "?s < length t" using char_at_cases [OF refl c] by simp
  have w: "word_char (t ! i)" if "q \<le> i" "i < e" for i
    using skip_while_in [of ?s i word_char t] that qe by simp
  have n: "t ! i \<noteq> NUL" if "i < length t" for i using nth_mem [OF that] assms(1) by metis
  have stop: "\<not> word_char (t ! e)" if "e < length t"
    using skip_while_stop [of ?s t word_char] s that qe by blast
  have "q < e" "e \<le> length t" using g by simp_all
  then show ?thesis unfolding word_at_def prod.case
    by (intro conjI allI impI w n stop) auto
qed

lemma parseredirs_words:
  assumes "NUL \<notin> set t" "\<forall>r \<in> set rs. word_at t (redir_word r)"
    and "parseredirs rs t ps = Inr (rs', ps')" "ps \<le> length t"
  shows "\<forall>r \<in> set rs'. word_at t (redir_word r)"
  using assms(3,4,2)
proof (induction rule: parseredirs_run_induct)
  case (more rs ps tok ps2 q e ps3 rs' ps')
  have "word_at t (q, e)" using gettoken_word [OF assms(1) more(2,3)] .
  with more(6,7) show ?case by simp
qed simp

lemma parseargs_ok:
  assumes "NUL \<notin> set t"
  shows "parseargs argv rs t ps = Inr (argv', rs', ps') \<Longrightarrow> ps \<le> length t \<Longrightarrow> length argv < MAXARGS \<Longrightarrow>
    \<forall>w \<in> set argv. word_at t w \<Longrightarrow> \<forall>r \<in> set rs. word_at t (redir_word r) \<Longrightarrow>
    ps \<le> ps' \<and> ps' \<le> length t \<and> length argv' < MAXARGS \<and> (\<forall>w \<in> set argv'. word_at t w) \<and>
    (\<forall>r \<in> set rs'. word_at t (redir_word r))"
proof (induction "length t - ps" arbitrary: argv rs ps rule: less_induct)
  case less
  obtain stop ps1 where p: "peek t ps ''|)&;'' = (stop, ps1)" by fastforce
  obtain tok q e ps2 where g: "gettoken t ps1 = (tok, q, e, ps2)" by (metis prod_cases4)
  note pp = peek_pos [OF p]
  note gp = gettoken_pos [OF g pp(2) [OF less.prems(2)]]
  show ?case
  proof (cases "stop \<or> tok = NUL")
    case True
    with less.prems p g pp(1,2) gp show ?thesis by (subst (asm) parseargs.simps) (auto split: if_splits)
  next
    case False
    with less.prems(1) p g obtain rs1 ps3 where r: "tok = CHR ''a''" "length argv + 1 < MAXARGS"
      "parseredirs rs t ps2 = Inr (rs1, ps3)" "parseargs (argv @ [(q, e)]) rs1 t ps3 = Inr (argv', rs', ps')"
      by (subst (asm) parseargs.simps) (auto simp: Let_def andthen_Inr_iff split: if_splits)
    have w: "word_at t (q, e)" using gettoken_word [OF assms pp(2) [OF less.prems(2)]] g r(1) by simp
    have rp: "ps2 \<le> ps3" "ps3 \<le> length t" using parseredirs_pos [OF r(3) gp(4)] by simp_all
    have lt: "ps < ps3" using gp rp pp(1) False by simp
    have "ps3 \<le> ps' \<and> ps' \<le> length t \<and> length argv' < MAXARGS \<and> (\<forall>w \<in> set argv'. word_at t w) \<and>
        (\<forall>r \<in> set rs'. word_at t (redir_word r))"
      using lt rp r(2) w less.prems(4) parseredirs_words [OF assms less.prems(5) r(3) gp(4)]
      by (intro less.hyps [OF _ r(4)]) auto
    with lt show ?thesis by simp
  qed
qed

lemma parsebacks_ok:
  "parsebacks c t ps = (c', ps') \<Longrightarrow> ps \<le> length t \<Longrightarrow>
    ps \<le> ps' \<and> ps' \<le> length t \<and> tokens c' = tokens c \<and> few_args c' = few_args c"
proof (induction "length t - ps" arbitrary: c ps rule: less_induct)
  case less
  obtain more ps1 where p: "peek t ps ''&'' = (more, ps1)" by fastforce
  note pp = peek_pos [OF p]
  show ?case
  proof (cases more)
    case True
    then have ps1: "ps1 < length t" "gettoken t ps1 = (t ! ps1, ps1, Suc ps1, skip_space t (Suc ps1))"
      using pp gettoken_symbol [of ps1 t] by auto
    have run: "parsebacks (BACK c) t (skip_space t (Suc ps1)) = (c', ps')"
      using less.prems(1) p True ps1(2) by (subst (asm) parsebacks.simps) simp
    have "Suc ps1 \<le> skip_space t (Suc ps1)" "skip_space t (Suc ps1) \<le> length t"
      using ps1(1) skip_while_ge skip_while_le by auto
    moreover have "skip_space t (Suc ps1) \<le> ps' \<and> ps' \<le> length t \<and> tokens c' = tokens (BACK c) \<and>
        few_args c' = few_args (BACK c)"
      using calculation pp(1) ps1(1) by (intro less.hyps [OF _ run]) auto
    ultimately show ?thesis using pp(1) by simp
  next
    case False
    with less.prems p pp(1,2) show ?thesis by (subst (asm) parsebacks.simps) auto
  qed
qed

section \<open>The parser's invariant\<close>

text \<open>
  What a successful call that started at \<open>ps\<close> returns: a position further on, and a command whose
  tokens are words of the line.
\<close>

definition parsed :: "string \<Rightarrow> nat \<Rightarrow> parse_error + cmd \<times> nat \<Rightarrow> bool" where
  "parsed t ps r \<longleftrightarrow> (\<forall>c ps'. r = Inr (c, ps') \<longrightarrow> ps \<le> ps' \<and> ps' \<le> length t \<and>
     (\<forall>w \<in> set (tokens c). word_at t w) \<and> few_args c)"

lemma parsed_Inl [simp]: "parsed t ps (Inl e)"
  by (simp add: parsed_def)

lemma parsed_Inr [simp]: "parsed t ps (Inr (c, ps')) \<longleftrightarrow> ps \<le> ps' \<and> ps' \<le> length t \<and>
     (\<forall>w \<in> set (tokens c). word_at t w) \<and> few_args c"
  by (auto simp: parsed_def)

lemma parsed_if: "(b \<Longrightarrow> parsed t ps x) \<Longrightarrow> (\<not> b \<Longrightarrow> parsed t ps y) \<Longrightarrow> parsed t ps (if b then x else y)"
  by simp

lemma parsed_mono: "parsed t ps1 r \<Longrightarrow> ps \<le> ps1 \<Longrightarrow> parsed t ps r"
  unfolding parsed_def using le_trans by blast

lemma parsed_andthen:
  assumes "parsed t ps r" "\<And>c ps1. r = Inr (c, ps1) \<Longrightarrow> ps \<le> ps1 \<Longrightarrow> ps1 \<le> length t \<Longrightarrow>
      \<forall>w \<in> set (tokens c). word_at t w \<Longrightarrow> few_args c \<Longrightarrow> parsed t ps1 (f (c, ps1))"
  shows "parsed t ps (andthen r f)"
proof (cases r)
  case (Inr x)
  obtain c ps1 where x: "x = (c, ps1)" by fastforce
  with Inr assms(1) have "ps \<le> ps1" "ps1 \<le> length t" "\<forall>w \<in> set (tokens c). word_at t w" "few_args c"
    by (simp_all add: parsed_def)
  then have "parsed t ps1 (f (c, ps1))" using assms(2) Inr x by simp
  then show ?thesis using \<open>ps \<le> ps1\<close> unfolding Inr x andthen_simps by (rule parsed_mono)
qed simp

lemma parsed_peek:
  assumes "ps \<le> length t" "\<And>b ps1. peek t ps toks = (b, ps1) \<Longrightarrow> ps1 \<le> length t \<Longrightarrow> parsed t ps1 (f b ps1)"
  shows "parsed t ps (case peek t ps toks of (b, ps1) \<Rightarrow> f b ps1)"
proof -
  obtain b ps1 where p: "peek t ps toks = (b, ps1)" by fastforce
  have "parsed t ps1 (f b ps1)" using assms(2) [OF p] peek_pos(2) [OF p assms(1)] .
  then show ?thesis using peek_pos(1) [OF p] unfolding p prod.case by (rule parsed_mono)
qed

lemma parsed_gettoken:
  assumes "ps \<le> length t" "\<And>ps1. ps1 \<le> length t \<Longrightarrow> parsed t ps1 (f ps1)"
  shows "parsed t ps (case gettoken t ps of (_, _, _, ps1) \<Rightarrow> f ps1)"
proof -
  obtain a q e ps1 where p: "gettoken t ps = (a, q, e, ps1)" by (metis prod_cases4)
  have "parsed t ps1 (f ps1)" using assms(2) gettoken_pos(4) [OF p assms(1)] .
  moreover have "ps \<le> ps1" using gettoken_pos [OF p assms(1)] by linarith
  ultimately show ?thesis unfolding p prod.case by (rule parsed_mono)
qed

lemma parsed_redirs:
  assumes "NUL \<notin> set t" "ps \<le> length t" "\<And>rs ps1. ps1 \<le> length t \<Longrightarrow> \<forall>r \<in> set rs. word_at t (redir_word r) \<Longrightarrow>
      parsed t ps1 (f (rs, ps1))"
  shows "parsed t ps (andthen (parseredirs [] t ps) f)"
proof -
  have "ps \<le> ps1 \<and> ps1 \<le> length t \<and> (\<forall>r \<in> set rs. word_at t (redir_word r))"
    if "parseredirs [] t ps = Inr (rs, ps1)" for rs ps1
    using parseredirs_words [OF assms(1) _ that assms(2)] parseredirs_pos [OF that assms(2)] by simp
  moreover have "parsed t ps (f (rs, ps1))" if "parseredirs [] t ps = Inr (rs, ps1)" for rs ps1
    using calculation [OF that] assms(3) parsed_mono by blast
  ultimately show ?thesis by (cases "parseredirs [] t ps") auto
qed

lemma parser_invariant:
  assumes "NUL \<notin> set t"
  shows "ps \<le> length t \<Longrightarrow> parsed t ps (parseline n t ps)"
    and "ps \<le> length t \<Longrightarrow> parsed t ps (parsepipe n t ps)"
    and "ps \<le> length t \<Longrightarrow> parsed t ps (parseblock n t ps)"
    and "ps \<le> length t \<Longrightarrow> parsed t ps (parseexec n t ps)"
proof (induction n arbitrary: ps)
  case 0
  { case 1 then show ?case by simp }
  { case 2 then show ?case by simp }
  { case 3 then show ?case by simp }
  { case 4 then show ?case by simp }
next
  case (Suc n)
  { case 1
    show ?case unfolding parseline.simps
    proof (rule parsed_andthen [OF Suc(2) [OF 1]])
      fix c ps1 assume ps1: "ps1 \<le> length t" and c: "\<forall>w \<in> set (tokens c). word_at t w" "few_args c"
      obtain c2 ps2 where b: "parsebacks c t ps1 = (c2, ps2)" by fastforce
      note B = parsebacks_ok [OF b ps1]
      show "parsed t ps1 (case (c, ps1) of (cmd, ps) \<Rightarrow>
          case parsebacks cmd t ps of (cmd, ps) \<Rightarrow> case peek t ps '';'' of (semi, ps) \<Rightarrow>
         if semi then case gettoken t ps of (_, _, _, ps) \<Rightarrow>
             andthen (parseline n t ps) (\<lambda>(right, ps). Inr (LIST cmd right, ps))
         else Inr (cmd, ps))"
        unfolding prod.case b
      proof (rule parsed_mono [OF parsed_peek])
        fix semi ps3 assume ps3: "ps3 \<le> length t"
        have "parsed t ps4 (andthen (parseline n t ps4) (\<lambda>(right, ps). Inr (LIST c2 right, ps)))"
          if "ps4 \<le> length t" for ps4
          using B c by (intro parsed_andthen [OF Suc(1) [OF that]]) auto
        then show "parsed t ps3 (if semi then case gettoken t ps3 of (_, _, _, ps) \<Rightarrow>
             andthen (parseline n t ps) (\<lambda>(right, ps). Inr (LIST c2 right, ps)) else Inr (c2, ps3))"
          using ps3 B c by (intro parsed_if parsed_gettoken) auto
      qed (use B in simp_all)
    qed
  next
    case 2
    show ?case unfolding parsepipe.simps
    proof (rule parsed_andthen [OF Suc(4) [OF 2]])
      fix c ps1 assume ps1: "ps1 \<le> length t" and c: "\<forall>w \<in> set (tokens c). word_at t w" "few_args c"
      show "parsed t ps1 (case (c, ps1) of (cmd, ps) \<Rightarrow> case peek t ps ''|'' of (bar, ps) \<Rightarrow>
         if bar then case gettoken t ps of (_, _, _, ps) \<Rightarrow>
             andthen (parsepipe n t ps) (\<lambda>(right, ps). Inr (PIPE cmd right, ps))
         else Inr (cmd, ps))"
        unfolding prod.case
      proof (rule parsed_peek [OF ps1])
        fix bar ps3 assume ps3: "ps3 \<le> length t"
        have "parsed t ps4 (andthen (parsepipe n t ps4) (\<lambda>(right, ps). Inr (PIPE c right, ps)))"
          if "ps4 \<le> length t" for ps4
          using c by (intro parsed_andthen [OF Suc(2) [OF that]]) auto
        then show "parsed t ps3 (if bar then case gettoken t ps3 of (_, _, _, ps) \<Rightarrow>
             andthen (parsepipe n t ps) (\<lambda>(right, ps). Inr (PIPE c right, ps)) else Inr (c, ps3))"
          using ps3 c by (intro parsed_if parsed_gettoken) auto
      qed
    qed
  next
    case 3
    have fin: "parsed t ps4 (andthen (parseredirs [] t ps4) (\<lambda>(rs, ps). Inr (redircmds c rs, ps)))"
      if "ps4 \<le> length t" "\<forall>w \<in> set (tokens c). word_at t w" "few_args c" for ps4 c
      using that by (intro parsed_redirs [OF assms]) (auto simp: tokens_redircmds few_args_redircmds)
    have close: "parsed t ps2 (case peek t ps2 '')'' of (close, ps) \<Rightarrow>
        if \<not> close then Inl (Syntax ''syntax - missing )'') else case gettoken t ps of (_, _, _, ps) \<Rightarrow>
          andthen (parseredirs [] t ps) (\<lambda>(rs, ps). Inr (redircmds c rs, ps)))"
      if "ps2 \<le> length t" "\<forall>w \<in> set (tokens c). word_at t w" "few_args c" for ps2 c
      using that fin by (intro parsed_peek parsed_if parsed_gettoken) auto
    show ?case unfolding parseblock.simps
    proof (rule parsed_peek [OF 3])
      fix "open" ps1 assume ps1: "ps1 \<le> length t"
      have "parsed t ps2 (andthen (parseline n t ps2) (\<lambda>(cmd, ps). case peek t ps '')'' of (close, ps) \<Rightarrow>
        if \<not> close then Inl (Syntax ''syntax - missing )'') else case gettoken t ps of (_, _, _, ps) \<Rightarrow>
          andthen (parseredirs [] t ps) (\<lambda>(rs, ps). Inr (redircmds cmd rs, ps))))"
        if "ps2 \<le> length t" for ps2
        using close by (intro parsed_andthen [OF Suc(1) [OF that]]) auto
      with ps1 show "parsed t ps1 (if \<not> open then Inl (Syntax ''parseblock'')
        else case gettoken t ps1 of (_, _, _, ps) \<Rightarrow>
          andthen (parseline n t ps) (\<lambda>(cmd, ps).
            case peek t ps '')'' of (close, ps) \<Rightarrow>
              if \<not> close then Inl (Syntax ''syntax - missing )'')
              else case gettoken t ps of (_, _, _, ps) \<Rightarrow>
                andthen (parseredirs [] t ps) (\<lambda>(rs, ps). Inr (redircmds cmd rs, ps))))"
        by (intro parsed_if parsed_gettoken) auto
    qed
  next
    case 4
    have "parsed t ps2 (andthen (parseargs [] rs t ps2) (\<lambda>(argv, rs, ps). Inr (redircmds (EXEC argv) rs, ps)))"
      if "ps2 \<le> length t" "\<forall>r \<in> set rs. word_at t (redir_word r)" for ps2 rs
      using parseargs_ok [OF assms, of "[]" rs ps2] that
      by (auto simp: parsed_def andthen_Inr_iff tokens_redircmds few_args_redircmds)
    then have "parsed t ps1 (andthen (parseredirs [] t ps1) (\<lambda>(rs, ps).
        andthen (parseargs [] rs t ps) (\<lambda>(argv, rs, ps). Inr (redircmds (EXEC argv) rs, ps))))"
      if "ps1 \<le> length t" for ps1
      using that by (intro parsed_redirs [OF assms]) auto
    then show ?case unfolding parseexec.simps
      using Suc(3) by (intro parsed_peek [OF 4] parsed_if) auto
  }
qed

section \<open>Termination\<close>

text \<open>
  Between two calls at the same position the parser goes from lines to pipes to simple commands
  to blocks; every other call is further on. So four units of fuel per character are enough.
\<close>

lemma parseredirs_no_Fuel: "parseredirs rs t ps \<noteq> Inl Fuel"
proof (induction rs t ps rule: parseredirs.induct)
  case (1 rs t ps)
  obtain more ps1 where p: "peek t ps ''<>'' = (more, ps1)" by fastforce
  obtain tok q1 e1 ps2 where g1: "gettoken t ps1 = (tok, q1, e1, ps2)" by (metis prod_cases4)
  obtain a q2 e2 ps3 where g2: "gettoken t ps2 = (a, q2, e2, ps3)" by (metis prod_cases4)
  show ?case
    using 1 [OF p [symmetric] _ g1 [symmetric] refl refl g2 [symmetric] refl refl] p g1 g2
    by (subst parseredirs.simps) simp
qed

lemma parseargs_no_Fuel: "parseargs argv rs t ps \<noteq> Inl Fuel"
proof (induction argv rs t ps rule: parseargs.induct)
  case (1 argv rs t ps)
  obtain stop ps1 where p: "peek t ps ''|)&;'' = (stop, ps1)" by fastforce
  obtain tok q e ps2 where g: "gettoken t ps1 = (tok, q, e, ps2)" by (metis prod_cases4)
  note IH = 1 [OF p [symmetric] _ g [symmetric] refl refl _ _ refl]
  show ?case
  proof (cases "parseredirs rs t ps2")
    case (Inl e)
    with parseredirs_no_Fuel [of rs t ps2] p g show ?thesis
      by (subst parseargs.simps) (auto simp: Let_def)
  next
    case (Inr r)
    with IH [OF _ _ _ _ Inr prod.collapse] p g show ?thesis
      by (subst parseargs.simps) (auto simp: Let_def split: prod.splits)
  qed
qed

lemma peek_symbol_token:
  assumes "peek t ps toks = (b, ps1)" "ps \<le> length t" b "set toks \<subseteq> set ''|();&<''"
  shows "\<exists>ps2. gettoken t ps1 = (t ! ps1, ps1, Suc ps1, ps2) \<and> ps < ps2 \<and> ps2 \<le> length t"
proof -
  note p = peek_pos [OF assms(1)]
  have "gettoken t ps1 = (t ! ps1, ps1, Suc ps1, skip_space t (Suc ps1))"
    using p(3,4) assms(3,4) by (intro gettoken_symbol) auto
  moreover have "ps < skip_space t (Suc ps1)" using p(1) skip_while_ge [of "Suc ps1" _ t]
    by (meson Suc_le_lessD le_trans not_less_eq_eq order_refl)
  moreover have "skip_space t (Suc ps1) \<le> length t" using p(3) assms(3) by (intro skip_while_le) simp
  ultimately show ?thesis by blast
qed

lemma enough_fuel:
  assumes "NUL \<notin> set t"
  shows "ps \<le> length t \<Longrightarrow> 4 * (length t - ps) + 4 \<le> n \<Longrightarrow> parseline n t ps \<noteq> Inl Fuel"
    and "ps \<le> length t \<Longrightarrow> 4 * (length t - ps) + 3 \<le> n \<Longrightarrow> parsepipe n t ps \<noteq> Inl Fuel"
    and "ps \<le> length t \<Longrightarrow> 4 * (length t - ps) + 1 \<le> n \<Longrightarrow> parseblock n t ps \<noteq> Inl Fuel"
    and "ps \<le> length t \<Longrightarrow> 4 * (length t - ps) + 2 \<le> n \<Longrightarrow> parseexec n t ps \<noteq> Inl Fuel"
proof (induction n arbitrary: ps)
  case (Suc n)
  { case 1
    show ?case
    proof (cases "parsepipe n t ps")
      case (Inl e)
      then show ?thesis using Suc(2) [OF 1(1)] 1(2) by simp
    next
      case (Inr r)
      obtain c ps1 where r: "r = (c, ps1)" by fastforce
      have ps1: "ps \<le> ps1" "ps1 \<le> length t"
        using parser_invariant(2) [OF assms 1(1), of n] Inr r by simp_all
      obtain c2 ps2 where b: "parsebacks c t ps1 = (c2, ps2)" by fastforce
      have ps2: "ps1 \<le> ps2" "ps2 \<le> length t" using parsebacks_ok [OF b ps1(2)] by simp_all
      obtain semi ps3 where p: "peek t ps2 '';'' = (semi, ps3)" by fastforce
      show ?thesis
      proof (cases semi)
        case True
        obtain a q e ps4 where g: "gettoken t ps3 = (a, q, e, ps4)" "ps2 < ps4" "ps4 \<le> length t"
          using peek_symbol_token [OF p ps2(2) True] by auto
        have "parseline n t ps4 \<noteq> Inl Fuel" using 1 ps1 ps2 g by (intro Suc(1)) auto
        then show ?thesis using Inr r b p g True by (simp add: andthen_Inl_iff)
      qed (use Inr r b p in simp)
    qed
  next
    case 2
    show ?case
    proof (cases "parseexec n t ps")
      case (Inl e)
      then show ?thesis using Suc(4) [OF 2(1)] 2(2) by simp
    next
      case (Inr r)
      obtain c ps1 where r: "r = (c, ps1)" by fastforce
      have ps1: "ps \<le> ps1" "ps1 \<le> length t"
        using parser_invariant(4) [OF assms 2(1), of n] Inr r by simp_all
      obtain bar ps3 where p: "peek t ps1 ''|'' = (bar, ps3)" by fastforce
      show ?thesis
      proof (cases bar)
        case True
        obtain a q e ps4 where g: "gettoken t ps3 = (a, q, e, ps4)" "ps1 < ps4" "ps4 \<le> length t"
          using peek_symbol_token [OF p ps1(2) True] by auto
        have "parsepipe n t ps4 \<noteq> Inl Fuel" using 2 ps1 g by (intro Suc(2)) auto
        then show ?thesis using Inr r p g True by (simp add: andthen_Inl_iff)
      qed (use Inr r p in simp)
    qed
  next
    case 3
    obtain opn ps1 where p: "peek t ps ''('' = (opn, ps1)" by fastforce
    show ?case
    proof (cases opn)
      case True
      obtain a q e ps2 where g: "gettoken t ps1 = (a, q, e, ps2)" "ps < ps2" "ps2 \<le> length t"
        using peek_symbol_token [OF p 3(1) True] by auto
      have "parseline n t ps2 \<noteq> Inl Fuel" using 3 g by (intro Suc(1)) auto
      then show ?thesis using p g True parseredirs_no_Fuel
        by (auto simp: andthen_Inl_iff split: prod.splits if_splits)
    qed (use p in simp)
  next
    case 4
    obtain opn ps1 where p: "peek t ps ''('' = (opn, ps1)" by fastforce
    have "ps \<le> ps1" "ps1 \<le> length t" using peek_pos(1,2) [OF p] 4(1) by simp_all
    then have "parseblock n t ps1 \<noteq> Inl Fuel" using 4(2) by (intro Suc(3)) auto
    then show ?case using p parseredirs_no_Fuel parseargs_no_Fuel
      by (auto simp: andthen_Inl_iff split: prod.splits)
  }
qed simp_all

text \<open>
  C25. The shell's parser terminates on every input line: the recursion of \<^verbatim>\<open>parseline\<close>, \<^verbatim>\<open>parsepipe\<close>,
  \<^verbatim>\<open>parseexec\<close> and \<^verbatim>\<open>parseblock\<close> never needs more than four calls per character, so \<^verbatim>\<open>parsecmd\<close>
  always yields a command or a syntax error.
\<close>

theorem parsecmd_terminates:
  "(\<exists>cmd b'. parsecmd b = Inr (cmd, b')) \<or> (\<exists>msg. parsecmd b = Inl (Syntax msg))"
proof -
  let ?t = "takeWhile (\<lambda>c. c \<noteq> NUL) b"
  have "NUL \<notin> set ?t" by (auto dest: set_takeWhileD)
  then have "parseline (4 * length ?t + 4) ?t 0 \<noteq> Inl Fuel" by (intro enough_fuel) simp_all
  then have "parsecmd b \<noteq> Inl Fuel"
    by (auto simp: parsecmd_def Let_def andthen_Inl_iff split: prod.splits if_splits)
  then show ?thesis by (cases "parsecmd b") (auto intro: parse_error.exhaust)
qed

section \<open>The strings of a parsed command\<close>

text \<open>The C string that starts at index \<open>q\<close> of a buffer.\<close>

definition cstring :: "string \<Rightarrow> nat \<Rightarrow> string" where
  "cstring b q = takeWhile (\<lambda>c. c \<noteq> NUL) (drop q b)"

lemma in_slice:
  assumes "c \<in> set (take (e - q) (drop q t))"
  shows "\<exists>i. q \<le> i \<and> i < e \<and> i < length t \<and> c = t ! i"
proof -
  obtain j where "j < length (take (e - q) (drop q t))" "c = take (e - q) (drop q t) ! j"
    using assms by (metis in_set_conv_nth)
  then show ?thesis by (intro exI [of _ "q + j"]) auto
qed

lemma parsecmd_Inr:
  assumes "parsecmd b = Inr (cmd, b')"
  defines "t \<equiv> takeWhile (\<lambda>c. c \<noteq> NUL) b"
  shows "\<exists>ps. parseline (4 * length t + 4) t 0 = Inr (cmd, ps) \<and> skip_space t ps = length t \<and>
    b' = nulterminate cmd b"
proof (cases "parseline (4 * length t + 4) t 0")
  case (Inr r)
  obtain c ps where "r = (c, ps)" by fastforce
  with assms(1) Inr show ?thesis
    by (auto simp: parsecmd_def t_def [symmetric] peek_def Let_def split: if_splits)
qed (use assms(1) in \<open>simp add: parsecmd_def t_def [symmetric]\<close>)

lemma length_terminate: "length (fold (\<lambda>(q, e) b. b[e := NUL]) ws b) = length b"
proof (induction ws arbitrary: b)
  case (Cons w ws)
  then show ?case by (cases w) simp
qed simp

lemma nth_terminate:
  "i < length b \<Longrightarrow> fold (\<lambda>(q, e) b. b[e := NUL]) ws b ! i = (if i \<in> snd ` set ws then NUL else b ! i)"
proof (induction ws arbitrary: b)
  case (Cons w ws)
  then show ?case by (cases w) auto
qed simp

lemma nulterminate_tokens: "nulterminate c b = fold (\<lambda>(q, e) b. b[e := NUL]) (tokens c) b"
  by (induction c arbitrary: b) simp_all

text \<open>Terminating words of the line keeps every word intact: ends are never inside words.\<close>

lemma cstring_terminated:
  assumes words: "\<forall>w \<in> set ws. word_at t w" and w: "(q, e) \<in> set ws" and b: "length t < length b" "take (length t) b = t"
  shows "cstring (fold (\<lambda>(q, e) b. b[e := NUL]) ws b) q = take (e - q) (drop q t)"
proof -
  let ?b = "fold (\<lambda>(q, e) b. b[e := NUL]) ws b"
  have len: "length ?b = length b" by (rule length_terminate)
  have wd: "q < e" "e \<le> length t" "\<And>i. q \<le> i \<Longrightarrow> i < e \<Longrightarrow> word_char (t ! i) \<and> t ! i \<noteq> NUL"
    using words w by (auto simp: word_at_def)
  have keep: "?b ! i = t ! i \<and> t ! i \<noteq> NUL" if i: "q \<le> i" "i < e" for i
  proof -
    have it: "i < length t" using i wd(2) by simp
    have "i \<notin> snd ` set ws"
    proof
      assume "i \<in> snd ` set ws"
      then obtain q' where "(q', i) \<in> set ws" by force
      then have "\<not> word_char (t ! i)" using words it by (auto simp: word_at_def)
      with wd(3) [OF i] show False by simp
    qed
    moreover have "b ! i = t ! i" using b it by (metis nth_take)
    ultimately show ?thesis using nth_terminate [of i b ws] wd(3) [OF i] it b(1) by simp
  qed
  have stop: "?b ! e = NUL" using nth_terminate [of e b ws] w wd(2) b(1) by force
  have d1: "take (e - q) (drop q ?b) = take (e - q) (drop q t)"
    using keep wd len b(1) by (intro nth_equalityI) auto
  have d2: "drop q ?b = take (e - q) (drop q ?b) @ NUL # drop (Suc e) ?b"
  proof -
    have "drop e ?b = NUL # drop (Suc e) ?b"
      using stop wd len b(1) Cons_nth_drop_Suc [of e ?b] by simp
    moreover have "drop (e - q) (drop q ?b) = drop e ?b" using wd(1) by simp
    ultimately show ?thesis by (metis append_take_drop_id)
  qed
  have "\<forall>c \<in> set (take (e - q) (drop q t)). c \<noteq> NUL"
    using keep by (auto dest!: in_slice)
  then have "takeWhile (\<lambda>c. c \<noteq> NUL) (take (e - q) (drop q t) @ NUL # drop (Suc e) ?b) = take (e - q) (drop q t)"
    by (subst takeWhile_append2) simp_all
  then show ?thesis unfolding cstring_def by (subst d2, subst d1)
qed

text \<open>
  C27. After a successful \<^verbatim>\<open>parsecmd\<close> every argument and file name of the command is a proper C
  string in the line buffer: its bytes are exactly those of the token, although the terminating
  NULs are written into the line itself; the ends lie inside the buffer, and no command has more
  than nine arguments, so \<^verbatim>\<open>argv[argc] = 0\<close> stays in bounds.
\<close>

theorem parsecmd_strings:
  assumes "parsecmd b = Inr (cmd, b')" "NUL \<in> set b"
  shows "length b' = length b \<and> few_args cmd \<and>
    (\<forall>(q, e) \<in> set (tokens cmd). q < e \<and> e < length b \<and>
       cstring b' q = take (e - q) (drop q b) \<and> (\<forall>c \<in> set (cstring b' q). word_char c))"
proof -
  let ?t = "takeWhile (\<lambda>c. c \<noteq> NUL) b"
  have n: "NUL \<notin> set ?t" by (auto dest: set_takeWhileD)
  have b: "length ?t < length b" "take (length ?t) b = ?t"
    using assms(2) takeWhile_eq_take [of "\<lambda>c. c \<noteq> NUL" b] takeWhile_eq_all_conv [of "\<lambda>c. c \<noteq> NUL" b]
      length_takeWhile_le [of "\<lambda>c. c \<noteq> NUL" b] by (metis le_neq_implies_less take_all_iff order_refl, simp)
  obtain ps where "parseline (4 * length ?t + 4) ?t 0 = Inr (cmd, ps)" and b': "b' = nulterminate cmd b"
    using parsecmd_Inr [OF assms(1)] by metis
  with parser_invariant(1) [OF n, of 0 "4 * length ?t + 4"]
  have ok: "\<forall>w \<in> set (tokens cmd). word_at ?t w" "few_args cmd" by simp_all
  have "q < e \<and> e < length b \<and> cstring b' q = take (e - q) (drop q b) \<and> (\<forall>c \<in> set (cstring b' q). word_char c)"
    if w: "(q, e) \<in> set (tokens cmd)" for q e
  proof -
    have wd: "q < e" "e \<le> length ?t" "\<And>i. q \<le> i \<Longrightarrow> i < e \<Longrightarrow> word_char (?t ! i)"
      using ok(1) w by (auto simp: word_at_def)
    have "cstring b' q = take (e - q) (drop q ?t)"
      unfolding b' nulterminate_tokens by (rule cstring_terminated [OF ok(1) w b])
    moreover have "take (e - q) (drop q ?t) = take (e - q) (drop q b)"
      using wd(1,2) by (subst b(2) [symmetric]) (simp add: take_drop min_def)
    moreover have "\<forall>c \<in> set (take (e - q) (drop q ?t)). word_char c"
      using wd(3) by (auto dest!: in_slice)
    ultimately show ?thesis using wd b(1) by simp
  qed
  then show ?thesis using ok(2) b' by (auto simp: nulterminate_tokens length_terminate)
qed

theorem parsecmd_strings_witness:
  "\<exists>cmd b'. parsecmd (''ls -l>f'' @ [NUL]) = Inr (cmd, b') \<and>
     tokens cmd = [(0, 2), (3, 5), (6, 7)] \<and> cstring b' 3 = ''-l''"
proof -
  let ?b = "''ls -l>f'' @ [NUL]"
  have run: "parsecmd ?b = Inr (REDIR (EXEC [(0, 2), (3, 5)]) 6 7 0x201 1, ''ls'' @ [NUL] @ ''-l'' @ [NUL] @ ''f'' @ [NUL])"
    by code_simp
  from parsecmd_strings [OF run] run show ?thesis by simp
qed

end
