(* ===== verification/ShellPrint.thy ===== *)
theory ShellPrint
  imports ShellParse
begin

text \<open>
  Commands as the user means them, a printer for them, and the proof that the shell's parser
  reads back what the printer writes.
\<close>

section \<open>Commands and their text\<close>

datatype command =
    Exec "string list"
  | Redirect command string bool
  | Pipe command command
  | Seq command command
  | Background command

fun unwords :: "string list \<Rightarrow> string" where
  "unwords [] = []"
| "unwords [w] = w"
| "unwords (w # ws) = w @ '' '' @ unwords ws"

definition redirect_text :: "string \<times> bool \<Rightarrow> string" where
  "redirect_text = (\<lambda>(f, input). (if input then CHR ''<'' else CHR ''>'') # f)"

definition parens :: "bool \<Rightarrow> string \<Rightarrow> string" where
  "parens b s = (if b then ''('' @ s @ '')'' else s)"

text \<open>
  Level 0 is a simple command or a block with redirections, 1 a pipeline, 2 a pipeline with
  \<^verbatim>\<open>&\<close>, 3 a whole line.
\<close>

primrec command_text :: "nat \<Rightarrow> command \<Rightarrow> string" where
  "command_text l (Exec ws) = unwords ws"
| "command_text l (Redirect c f i) = command_text 0 c @ redirect_text (f, i)"
| "command_text l (Pipe a b) = parens (l < 1) (command_text 0 a @ ''|'' @ command_text 1 b)"
| "command_text l (Seq a b) = parens (l < 3) (command_text 2 a @ '';'' @ command_text 3 b)"
| "command_text l (Background a) = parens (l < 2) (command_text 2 a @ ''&'')"

definition good_word :: "string \<Rightarrow> bool" where
  "good_word w \<longleftrightarrow> w \<noteq> [] \<and> (\<forall>c \<in> set w. word_char c \<and> c \<noteq> NUL)"

primrec printable :: "command \<Rightarrow> bool" where
  "printable (Exec ws) \<longleftrightarrow> length ws < MAXARGS \<and> (\<forall>w \<in> set ws. good_word w)"
| "printable (Redirect c f i) \<longleftrightarrow> printable c \<and> good_word f"
| "printable (Pipe a b) \<longleftrightarrow> printable a \<and> printable b"
| "printable (Seq a b) \<longleftrightarrow> printable a \<and> printable b"
| "printable (Background a) \<longleftrightarrow> printable a"

text \<open>What a parsed command means, with its strings read from the terminated buffer.\<close>

primrec meaning :: "string \<Rightarrow> cmd \<Rightarrow> command" where
  "meaning b (EXEC argv) = Exec (map (\<lambda>(q, e). cstring b q) argv)"
| "meaning b (REDIR c q e mode fd) = Redirect (meaning b c) (cstring b q) (mode = O_RDONLY \<and> fd = 0)"
| "meaning b (PIPE l r) = Pipe (meaning b l) (meaning b r)"
| "meaning b (LIST l r) = Seq (meaning b l) (meaning b r)"
| "meaning b (BACK c) = Background (meaning b c)"

text \<open>The same before termination, with the strings as slices of the line.\<close>

definition text_slice :: "string \<Rightarrow> nat \<times> nat \<Rightarrow> string" where
  "text_slice t = (\<lambda>(q, e). take (e - q) (drop q t))"

primrec reading :: "string \<Rightarrow> cmd \<Rightarrow> command" where
  "reading t (EXEC argv) = Exec (map (text_slice t) argv)"
| "reading t (REDIR c q e mode fd) = Redirect (reading t c) (text_slice t (q, e)) (mode = O_RDONLY \<and> fd = 0)"
| "reading t (PIPE l r) = Pipe (reading t l) (reading t r)"
| "reading t (LIST l r) = Seq (reading t l) (reading t r)"
| "reading t (BACK c) = Background (reading t c)"

section \<open>Scanning known text\<close>

text \<open>\<open>text_at t ps s\<close>: the rest of the line from \<open>ps\<close> on is \<open>s\<close>.\<close>

definition text_at :: "string \<Rightarrow> nat \<Rightarrow> string \<Rightarrow> bool" where
  "text_at t ps s \<longleftrightarrow> (\<exists>pre. t = pre @ s \<and> length pre = ps)"

lemma text_atD:
  assumes "text_at t ps s"
  shows "ps \<le> length t" "drop ps t = s" "length t = ps + length s" "s = c # s' \<Longrightarrow> ps < length t \<and> t ! ps = c"
    "char_at t ps = (case s of [] \<Rightarrow> NUL | c # _ \<Rightarrow> c)"
  using assms by (auto simp: text_at_def char_at_def nth_append split: list.split)

lemma text_at_append: "text_at t ps (u @ s) \<Longrightarrow> text_at t (ps + length u) s"
  by (force simp: text_at_def)

lemma text_at_Cons: "text_at t ps (c # s) \<Longrightarrow> text_at t (Suc ps) s"
  using text_at_append [of t ps "[c]" s] by simp

lemma text_slice_at: "text_at t ps (u @ s) \<Longrightarrow> text_slice t (ps, ps + length u) = u"
  by (auto simp: text_at_def text_slice_def)

lemma skip_at:
  assumes "text_at t ps (u @ s)" "\<forall>c \<in> set u. P c" "s = [] \<or> \<not> P (hd s)"
  shows "skip_while P t ps = ps + length u"
proof -
  have "takeWhile P s = []" using assms(3) by (cases s) auto
  then have "takeWhile P (u @ s) = u" using assms(2) by (simp add: takeWhile_append2)
  then show ?thesis using text_atD(2) [OF assms(1)] by (simp add: skip_while_takeWhile)
qed

text \<open>Text that does not start with white space, and text that does not continue a word.\<close>

definition no_space :: "string \<Rightarrow> bool" where
  "no_space s \<longleftrightarrow> s = [] \<or> hd s \<notin> set whitespace"

definition no_word :: "string \<Rightarrow> bool" where
  "no_word s \<longleftrightarrow> s = [] \<or> \<not> word_char (hd s)"

lemma skip_space_at: "text_at t ps s \<Longrightarrow> no_space s \<Longrightarrow> skip_space t ps = ps"
  using skip_at [of t ps "[]" s "\<lambda>c. c \<in> set whitespace"] by (simp add: no_space_def)

lemma peek_at:
  "text_at t ps s \<Longrightarrow> no_space s \<Longrightarrow> peek t ps toks = (s \<noteq> [] \<and> hd s \<noteq> NUL \<and> hd s \<in> set toks, ps)"
  using text_atD(5) [of t ps s] by (auto simp: peek_def Let_def skip_space_at split: list.splits)

lemma gettoken_symbol_at:
  assumes "text_at t ps (c # s)" "c \<in> set ''|();&<''" "no_space s"
  shows "gettoken t ps = (c, ps, Suc ps, Suc ps)"
  using gettoken_symbol [of ps t] text_atD(4) [OF assms(1) refl] assms(2)
    skip_space_at [OF text_at_Cons [OF assms(1)] assms(3)] by simp

lemma gettoken_gt_at:
  assumes "text_at t ps (CHR ''>'' # s)" "no_space s" "s = [] \<or> hd s \<noteq> CHR ''>''"
  shows "gettoken t ps = (CHR ''>'', ps, Suc ps, Suc ps)"
proof -
  have "skip_space t ps = ps" using skip_space_at [OF assms(1)] by (simp add: no_space_def whitespace_def)
  moreover have "char_at t ps = CHR ''>''" using text_atD(5) [OF assms(1)] by simp
  moreover have "char_at t (Suc ps) \<noteq> CHR ''>''"
    using text_atD(5) [OF text_at_Cons [OF assms(1)]] assms(3) by (auto split: list.splits)
  ultimately show ?thesis
    using skip_space_at [OF text_at_Cons [OF assms(1)] assms(2)] by (simp add: gettoken_def Let_def)
qed

lemma good_word_hd: "good_word w \<Longrightarrow> w \<noteq> [] \<and> word_char (hd w) \<and> hd w \<noteq> NUL"
  by (cases w) (auto simp: good_word_def)

lemma gettoken_word_at:
  assumes "text_at t ps (w @ s)" "good_word w" "no_word s"
  shows "gettoken t ps = (CHR ''a'', ps, ps + length w, skip_space t (ps + length w))"
proof -
  let ?c = "hd w"
  have w: "w \<noteq> []" "word_char ?c" "?c \<noteq> NUL" using good_word_hd [OF assms(2)] by auto
  then have "skip_space t ps = ps" using assms(1) by (intro skip_space_at) (auto simp: no_space_def)
  moreover have "char_at t ps = ?c" using text_atD(5) [OF assms(1)] w(1) by (cases w) auto
  moreover have "skip_while word_char t ps = ps + length w"
    using assms by (intro skip_at) (auto simp: good_word_def no_word_def)
  moreover have "?c \<notin> set ''|();&<''" "?c \<noteq> CHR ''>''" using w(2) symbols_cases by blast+
  ultimately show ?thesis using w(3) by (simp only: gettoken_def Let_def if_False prod.case)
qed

section \<open>Redirections and arguments\<close>

text \<open>What may follow a simple command, pipeline, pipeline with \<^verbatim>\<open>&\<close>, or line.\<close>

definition ends :: "string \<Rightarrow> string \<Rightarrow> bool" where
  "ends cs r \<longleftrightarrow> r = [] \<or> hd r \<in> set cs"

abbreviation redirects_text :: "(string \<times> bool) list \<Rightarrow> string" where
  "redirects_text rs \<equiv> concat (map redirect_text rs)"

abbreviation read_redir :: "string \<Rightarrow> redir \<Rightarrow> string \<times> bool" where
  "read_redir t r \<equiv> case r of (q, e, mode, fd) \<Rightarrow> (text_slice t (q, e), mode = O_RDONLY \<and> fd = 0)"

lemma reading_redircmds:
  "reading t (redircmds c rs) = foldl (\<lambda>c (f, i). Redirect c f i) (reading t c) (map (read_redir t) rs)"
proof (induction rs arbitrary: c)
  case (Cons r rs)
  then show ?case by (cases r) simp
qed simp

lemma ends_follow:
  assumes "ends ''|)&;'' r"
  shows "no_space r" "no_word r" "r \<noteq> [] \<Longrightarrow> hd r \<notin> {CHR ''<'', CHR ''>'', CHR ''('', NUL}"
  using assms by (auto simp: ends_def no_space_def no_word_def whitespace_def symbols_def)

lemma redirects_follow:
  assumes "ends ''|)&;'' r"
  shows "no_space (redirects_text rs @ r)" "no_word (redirects_text rs @ r)"
    "redirects_text rs @ r \<noteq> [] \<Longrightarrow> hd (redirects_text rs @ r) \<notin> {CHR ''('', NUL}"
  using ends_follow [OF assms]
  by (cases rs; auto simp: redirect_text_def no_space_def no_word_def whitespace_def symbols_def
      split: prod.splits)+

lemma parseredirs_none:
  assumes "text_at t ps s" "no_space s" "s = [] \<or> hd s \<notin> {CHR ''<'', CHR ''>''}"
  shows "parseredirs acc t ps = Inr (acc, ps)"
  using assms by (subst parseredirs.simps) (auto simp: peek_at)

lemma parseredirs_at:
  assumes "text_at t ps (redirects_text rs @ r)" "\<forall>(f, i) \<in> set rs. good_word f" "ends ''|)&;'' r"
  shows "\<exists>rs'. parseredirs acc t ps = Inr (acc @ rs', ps + length (redirects_text rs)) \<and> map (read_redir t) rs' = rs"
  using assms(1,2)
proof (induction rs arbitrary: acc ps)
  case Nil
  then show ?case using parseredirs_none [OF Nil(1)] ends_follow [OF assms(3)] by auto
next
  case (Cons x rs)
  obtain f i where x: "x = (f, i)" by fastforce
  let ?c = "if i then CHR ''<'' else CHR ''>''" and ?s = "redirects_text rs @ r"
  have at0: "text_at t ps (?c # f @ ?s)" using Cons.prems(1) by (simp add: x redirect_text_def)
  have f: "good_word f" and good: "\<forall>(f, i) \<in> set rs. good_word f" using Cons.prems(2) x by simp_all
  note fh = good_word_hd [OF f]
  have nf: "no_space (f @ ?s)" "f @ ?s \<noteq> []" "hd (f @ ?s) \<noteq> CHR ''>''"
    using fh by (auto simp: no_space_def symbols_def)
  have p: "peek t ps ''<>'' = (True, ps)"
    using peek_at [OF at0] by (simp add: no_space_def whitespace_def)
  have g1: "gettoken t ps = (?c, ps, Suc ps, Suc ps)"
    using gettoken_symbol_at [OF at0 _ nf(1)] gettoken_gt_at [of t ps "f @ ?s"] at0 nf by (cases i) auto
  have at1: "text_at t (Suc ps) (f @ ?s)" using text_at_Cons [OF at0] .
  have at2: "text_at t (Suc ps + length f) ?s" using text_at_append [OF at1] .
  have g2: "gettoken t (Suc ps) = (CHR ''a'', Suc ps, Suc ps + length f, Suc ps + length f)"
    using gettoken_word_at [OF at1 f redirects_follow(2) [OF assms(3)]]
      skip_space_at [OF at2 redirects_follow(1) [OF assms(3)]] by simp
  let ?r = "if i then (Suc ps, Suc ps + length f, O_RDONLY, 0) else (Suc ps, Suc ps + length f, O_WRONLY OR O_CREATE, 1)"
  have run: "parseredirs acc t ps = parseredirs (acc @ [?r]) t (Suc ps + length f)"
    by (subst parseredirs.simps) (simp add: p g1 g2)
  obtain rs' where rs': "parseredirs (acc @ [?r]) t (Suc ps + length f) =
      Inr ((acc @ [?r]) @ rs', Suc ps + length f + length (redirects_text rs))" "map (read_redir t) rs' = rs"
    using Cons.IH [OF at2, of "acc @ [?r]"] good by blast
  have "read_redir t ?r = x" using text_slice_at [OF at1] x by (cases i) simp_all
  with rs' run show ?case by (intro exI [of _ "?r # rs'"]) (simp add: x redirect_text_def)
qed

lemma parseargs_end:
  assumes "text_at t ps r" "ends ''|)&;'' r"
  shows "parseargs acc rs t ps = Inr (acc, rs, ps)"
proof (cases "r = []")
  case True
  then have at: "text_at t ps []" using assms(1) by simp
  have sk: "skip_space t ps = ps" using skip_space_at [OF at] by (simp add: no_space_def)
  have ch: "char_at t ps = NUL" using text_atD(5) [OF at] by simp
  have "gettoken t ps = (NUL, ps, ps, ps)" by (simp add: gettoken_def sk ch)
  then show ?thesis using peek_at [OF at] by (subst parseargs.simps) (simp add: no_space_def)
next
  case False
  have "peek t ps ''|)&;'' = (True, ps)"
    using peek_at [OF assms(1) ends_follow(1) [OF assms(2)]] ends_follow(3) [OF assms(2) False] assms(2) False
    by (simp add: ends_def)
  then show ?thesis by (subst parseargs.simps) simp
qed

text \<open>A list of words, then redirections.\<close>

lemma parseargs_at:
  assumes "text_at t ps (unwords ws @ redirects_text rs @ r)" "ws \<noteq> []" "\<forall>w \<in> set ws. good_word w"
    and "length acc + length ws < MAXARGS" "\<forall>(f, i) \<in> set rs. good_word f" "ends ''|)&;'' r"
  shows "\<exists>argv rs'. parseargs acc racc t ps =
      Inr (acc @ argv, racc @ rs', ps + length (unwords ws @ redirects_text rs)) \<and>
    map (text_slice t) argv = ws \<and> map (read_redir t) rs' = rs"
  using assms(1-4)
proof (induction ws arbitrary: acc ps rule: unwords.induct)
  case (2 w)
  let ?e = "ps + length w" and ?s = "redirects_text rs @ r"
  have w: "good_word w" using 2 by simp
  have at: "text_at t ps (w @ ?s)" using 2 by simp
  have at1: "text_at t ?e ?s" using text_at_append [OF at] .
  have g: "gettoken t ps = (CHR ''a'', ps, ?e, ?e)"
    using gettoken_word_at [OF at w] redirects_follow [OF assms(6)] skip_space_at [OF at1] by simp
  have p: "peek t ps ''|)&;'' = (False, ps)"
    using peek_at [OF at] good_word_hd [OF w] by (auto simp: no_space_def symbols_def)
  obtain rs' where rs': "parseredirs racc t ?e = Inr (racc @ rs', ?e + length (redirects_text rs))"
    "map (read_redir t) rs' = rs" using parseredirs_at [OF at1 assms(5,6)] by blast
  have "text_at t (?e + length (redirects_text rs)) r" using text_at_append [OF at1] .
  from parseargs_end [OF this assms(6)] rs' g p 2(4)
  have "parseargs acc racc t ps = Inr (acc @ [(ps, ?e)], racc @ rs', ?e + length (redirects_text rs))"
    by (subst parseargs.simps) (simp add: Let_def)
  moreover have "text_slice t (ps, ?e) = w" using text_slice_at [OF at] .
  ultimately show ?case using rs'(2) by (intro exI [of _ "[(ps, ?e)]"] exI [of _ rs']) simp
next
  case (3 w v vs)
  let ?e = "ps + length w" and ?s = "unwords (v # vs) @ redirects_text rs @ r"
  have w: "good_word w" "good_word v" using 3(4) by simp_all
  have at: "text_at t ps (w @ '' '' @ ?s)" using 3 by simp
  have at1: "text_at t ?e ('' '' @ ?s)" using text_at_append [OF at] .
  have at2: "text_at t (Suc ?e) ?s" using text_at_Cons at1 by simp
  have s: "?s \<noteq> [] \<and> word_char (hd ?s) \<and> hd ?s \<noteq> NUL"
    using good_word_hd [OF w(2)] by (cases vs) (auto simp: hd_append)
  have "skip_space t ?e = Suc ?e"
    using skip_at [OF at1, of "\<lambda>c. c \<in> set whitespace"] s by (simp add: whitespace_def)
  then have g: "gettoken t ps = (CHR ''a'', ps, ?e, Suc ?e)"
    using gettoken_word_at [OF at w(1)] by (simp add: no_word_def whitespace_def)
  have p: "peek t ps ''|)&;'' = (False, ps)"
    using peek_at [OF at] good_word_hd [OF w(1)] by (auto simp: no_space_def symbols_def)
  have r: "parseredirs racc t (Suc ?e) = Inr (racc, Suc ?e)"
    using s by (intro parseredirs_none [OF at2]) (auto simp: no_space_def symbols_def)
  have run: "parseargs acc racc t ps = parseargs (acc @ [(ps, ?e)]) racc t (Suc ?e)"
    using g p r 3(5) by (subst parseargs.simps) (simp add: Let_def)
  obtain argv rs' where IH: "parseargs (acc @ [(ps, ?e)]) racc t (Suc ?e) =
      Inr ((acc @ [(ps, ?e)]) @ argv, racc @ rs', Suc ?e + length (unwords (v # vs) @ redirects_text rs))"
    "map (text_slice t) argv = v # vs" "map (read_redir t) rs' = rs"
    using 3(1) [OF at2, of "acc @ [(ps, ?e)]"] 3(4,5) by auto
  have "text_slice t (ps, ?e) = w" using text_slice_at [OF at] .
  then show ?case using IH run by (intro exI [of _ "(ps, ?e) # argv"] exI [of _ rs']) simp
qed simp

lemma parsebacks_at:
  assumes "text_at t ps (replicate k CHR ''&'' @ r)" "ends '';)'' r"
  shows "parsebacks c t ps = ((BACK ^^ k) c, ps + k)"
  using assms(1)
proof (induction k arbitrary: c ps)
  case 0
  have "peek t ps ''&'' = (False, ps)"
    using peek_at [of t ps r] 0 assms(2) by (auto simp: no_space_def ends_def whitespace_def)
  then show ?case by (subst parsebacks.simps) simp
next
  case (Suc k)
  let ?s = "replicate k CHR ''&'' @ r"
  have at: "text_at t ps (CHR ''&'' # ?s)" using Suc.prems by simp
  have ns: "no_space ?s" using assms(2) by (cases k) (auto simp: no_space_def ends_def whitespace_def)
  have "peek t ps ''&'' = (True, ps)" using peek_at [OF at] by (simp add: no_space_def whitespace_def)
  moreover have "gettoken t ps = (CHR ''&'', ps, Suc ps, Suc ps)" using gettoken_symbol_at [OF at _ ns] by simp
  ultimately have "parsebacks c t ps = parsebacks (BACK c) t (Suc ps)" by (subst parsebacks.simps) simp
  with Suc.IH [OF text_at_Cons [OF at]] show ?case by (simp add: funpow_swap1)
qed

section \<open>The levels of the grammar\<close>

definition exec_ok :: "string \<Rightarrow> command \<Rightarrow> bool" where
  "exec_ok t c \<longleftrightarrow> (\<forall>ps rs r n. text_at t ps (command_text 0 c @ redirects_text rs @ r) \<longrightarrow>
     (\<forall>(f, i) \<in> set rs. good_word f) \<longrightarrow> ends ''|)&;'' r \<longrightarrow> 4 * (length t - ps) + 2 \<le> n \<longrightarrow>
     (\<exists>cmd. parseexec n t ps = Inr (cmd, ps + length (command_text 0 c @ redirects_text rs)) \<and>
        reading t cmd = foldl (\<lambda>c (f, i). Redirect c f i) c rs))"

definition pipe_ok :: "string \<Rightarrow> command \<Rightarrow> bool" where
  "pipe_ok t c \<longleftrightarrow> (\<forall>ps r n. text_at t ps (command_text 1 c @ r) \<longrightarrow> ends '')&;'' r \<longrightarrow>
     4 * (length t - ps) + 3 \<le> n \<longrightarrow>
     (\<exists>cmd. parsepipe n t ps = Inr (cmd, ps + length (command_text 1 c)) \<and> reading t cmd = c))"

text \<open>At level 2 the pipeline is parsed first, and some \<^verbatim>\<open>&\<close> are left for the loop.\<close>

definition back_ok :: "string \<Rightarrow> command \<Rightarrow> bool" where
  "back_ok t c \<longleftrightarrow> (\<forall>ps r n. text_at t ps (command_text 2 c @ r) \<longrightarrow> ends '')&;'' r \<longrightarrow>
     4 * (length t - ps) + 3 \<le> n \<longrightarrow>
     (\<exists>cmd k ps1. parsepipe n t ps = Inr (cmd, ps1) \<and> text_at t ps1 (replicate k CHR ''&'' @ r) \<and>
        ps1 + k = ps + length (command_text 2 c) \<and> reading t ((BACK ^^ k) cmd) = c))"

definition line_ok :: "string \<Rightarrow> command \<Rightarrow> bool" where
  "line_ok t c \<longleftrightarrow> (\<forall>ps r n. text_at t ps (command_text 3 c @ r) \<longrightarrow> ends '')'' r \<longrightarrow>
     4 * (length t - ps) + 4 \<le> n \<longrightarrow>
     (\<exists>cmd. parseline n t ps = Inr (cmd, ps + length (command_text 3 c)) \<and> reading t cmd = c))"

lemma exec_ok_plain:
  assumes "exec_ok t c" "text_at t ps (command_text 0 c @ r)" "ends ''|)&;'' r" "4 * (length t - ps) + 2 \<le> n"
  shows "\<exists>cmd. parseexec n t ps = Inr (cmd, ps + length (command_text 0 c)) \<and> reading t cmd = c"
  using assms(1) [unfolded exec_ok_def, THEN spec, of ps, THEN spec, of "[]", THEN spec, of r, THEN spec, of n]
    assms(2-4) by simp

lemma Suc_fuel: "a + Suc k \<le> n \<Longrightarrow> \<exists>m. n = Suc m \<and> a + k \<le> m"
  by (cases n) auto

lemma no_space_symbol [simp]:
  "no_space (CHR ''<'' # s)" "no_space (CHR ''>'' # s)" "no_space (CHR ''|'' # s)" "no_space (CHR '';'' # s)"
  "no_space (CHR ''&'' # s)" "no_space (CHR ''('' # s)" "no_space (CHR '')'' # s)"
  by (simp_all add: no_space_def whitespace_def)

lemma ends_no_space: "ends cs r \<Longrightarrow> set cs \<subseteq> set symbols \<Longrightarrow> no_space r"
  by (auto simp: ends_def no_space_def whitespace_def symbols_def)

lemma command_text_no_space: "printable c \<Longrightarrow> no_space r \<Longrightarrow> no_space (command_text l c @ r)"
proof (induction c arbitrary: l r)
  case (Exec ws)
  then show ?case
    by (cases ws rule: unwords.cases) (auto simp: no_space_def hd_append dest!: good_word_hd)
qed (simp_all add: parens_def redirect_text_def)

lemma pipe_ok_exec:
  assumes "exec_ok t c" "command_text 1 c = command_text 0 c"
  shows "pipe_ok t c"
  unfolding pipe_ok_def
proof (intro allI impI)
  fix ps r n
  assume at: "text_at t ps (command_text 1 c @ r)" and r: "ends '')&;'' r" and n: "4 * (length t - ps) + 3 \<le> n"
  obtain m where m: "n = Suc m" "4 * (length t - ps) + 2 \<le> m" using Suc_fuel [of _ 2] n by auto
  have "ends ''|)&;'' r" using r by (auto simp: ends_def)
  then obtain cmd where cmd: "parseexec m t ps = Inr (cmd, ps + length (command_text 1 c))"
    "reading t cmd = c" using exec_ok_plain [OF assms(1) _ _ m(2)] at unfolding assms(2) by blast
  have "peek t (ps + length (command_text 1 c)) ''|'' = (False, ps + length (command_text 1 c))"
    using peek_at [OF text_at_append [OF at]] r by (auto simp: ends_def no_space_def whitespace_def)
  then have "parsepipe n t ps = Inr (cmd, ps + length (command_text 1 c))" using m cmd by simp
  with cmd(2) show "\<exists>cmd. parsepipe n t ps = Inr (cmd, ps + length (command_text 1 c)) \<and> reading t cmd = c"
    by blast
qed

lemma pipe_ok_Pipe:
  assumes "exec_ok t a" "pipe_ok t b" "printable b"
  shows "pipe_ok t (Pipe a b)"
  unfolding pipe_ok_def
proof (intro allI impI)
  fix ps r n
  assume at: "text_at t ps (command_text 1 (Pipe a b) @ r)" and r: "ends '')&;'' r"
    and n: "4 * (length t - ps) + 3 \<le> n"
  let ?p1 = "ps + length (command_text 0 a)"
  obtain m where m: "n = Suc m" "4 * (length t - ps) + 2 \<le> m" using Suc_fuel [of _ 2] n by auto
  let ?s = "command_text 1 b @ r"
  have at0: "text_at t ps (command_text 0 a @ CHR ''|'' # ?s)" using at by (simp add: parens_def)
  then obtain left where left: "parseexec m t ps = Inr (left, ?p1)" "reading t left = a"
    using exec_ok_plain [OF assms(1) at0 _ m(2)] by (auto simp: ends_def)
  have at1: "text_at t ?p1 (CHR ''|'' # ?s)" using text_at_append [OF at0] .
  have at2: "text_at t (Suc ?p1) ?s" using text_at_Cons [OF at1] .
  have ns: "no_space ?s" using command_text_no_space [OF assms(3) ends_no_space [OF r]] by (simp add: symbols_def)
  have p: "peek t ?p1 ''|'' = (True, ?p1)" using peek_at [OF at1] by (simp add: no_space_def whitespace_def)
  have g: "gettoken t ?p1 = (CHR ''|'', ?p1, Suc ?p1, Suc ?p1)" using gettoken_symbol_at [OF at1 _ ns] by simp
  have "4 * (length t - Suc ?p1) + 3 \<le> m" using m(2) text_atD(3) [OF at1] by simp
  then obtain right where right: "parsepipe m t (Suc ?p1) = Inr (right, Suc ?p1 + length (command_text 1 b))"
    "reading t right = b" using assms(2) at2 r unfolding pipe_ok_def by metis
  have "parsepipe n t ps = Inr (PIPE left right, ps + length (command_text 1 (Pipe a b)))"
    using m(1) left(1) p g right(1) by (simp add: parens_def)
  then show "\<exists>cmd. parsepipe n t ps = Inr (cmd, ps + length (command_text 1 (Pipe a b))) \<and>
      reading t cmd = Pipe a b"
    using left(2) right(2) by (intro exI [of _ "PIPE left right"]) simp
qed

lemma back_ok_pipe:
  assumes "pipe_ok t c" "command_text 2 c = command_text 1 c"
  shows "back_ok t c"
  unfolding back_ok_def
proof (intro allI impI)
  fix ps r n
  assume at: "text_at t ps (command_text 2 c @ r)" and r: "ends '')&;'' r" and n: "4 * (length t - ps) + 3 \<le> n"
  with assms obtain cmd where "parsepipe n t ps = Inr (cmd, ps + length (command_text 2 c))" "reading t cmd = c"
    unfolding pipe_ok_def by metis
  then show "\<exists>cmd k ps1. parsepipe n t ps = Inr (cmd, ps1) \<and> text_at t ps1 (replicate k CHR ''&'' @ r) \<and>
        ps1 + k = ps + length (command_text 2 c) \<and> reading t ((BACK ^^ k) cmd) = c"
    using text_at_append [OF at]
    by (intro exI [of _ cmd] exI [of _ 0] exI [of _ "ps + length (command_text 2 c)"]) auto
qed

lemma back_ok_Background:
  assumes "back_ok t a"
  shows "back_ok t (Background a)"
  unfolding back_ok_def
proof (intro allI impI)
  fix ps r n
  assume at: "text_at t ps (command_text 2 (Background a) @ r)" and r: "ends '')&;'' r"
    and n: "4 * (length t - ps) + 3 \<le> n"
  have "text_at t ps (command_text 2 a @ CHR ''&'' # r)" "ends '')&;'' (CHR ''&'' # r)"
    using at by (simp_all add: parens_def ends_def)
  with assms n obtain cmd k ps1 where "parsepipe n t ps = Inr (cmd, ps1)"
    "text_at t ps1 (replicate k CHR ''&'' @ CHR ''&'' # r)"
    "ps1 + k = ps + length (command_text 2 a)" "reading t ((BACK ^^ k) cmd) = a"
    unfolding back_ok_def by metis
  then show "\<exists>cmd k ps1. parsepipe n t ps = Inr (cmd, ps1) \<and> text_at t ps1 (replicate k CHR ''&'' @ r) \<and>
        ps1 + k = ps + length (command_text 2 (Background a)) \<and> reading t ((BACK ^^ k) cmd) = Background a"
    by (intro exI [of _ cmd] exI [of _ "Suc k"] exI [of _ ps1])
       (simp add: parens_def replicate_append_same [symmetric] del: replicate_append_same)
qed

lemma line_ok_back:
  assumes "back_ok t c" "command_text 3 c = command_text 2 c"
  shows "line_ok t c"
  unfolding line_ok_def
proof (intro allI impI)
  fix ps r n
  assume at: "text_at t ps (command_text 3 c @ r)" and r: "ends '')'' r" and n: "4 * (length t - ps) + 4 \<le> n"
  obtain m where m: "n = Suc m" "4 * (length t - ps) + 3 \<le> m" using Suc_fuel [of _ 3] n by auto
  have r2: "ends '')&;'' r" "ends '';)'' r" using r by (auto simp: ends_def)
  obtain cmd k ps1 where cmd: "parsepipe m t ps = Inr (cmd, ps1)" "text_at t ps1 (replicate k CHR ''&'' @ r)"
      "ps1 + k = ps + length (command_text 3 c)" "reading t ((BACK ^^ k) cmd) = c"
    using assms(1) [unfolded back_ok_def, folded assms(2)] at r2(1) m(2) by blast
  have b: "parsebacks cmd t ps1 = ((BACK ^^ k) cmd, ps1 + k)" using parsebacks_at [OF cmd(2) r2(2)] .
  have "peek t (ps1 + k) '';'' = (False, ps1 + k)"
    using peek_at [OF text_at_append [OF at, folded cmd(3)] ends_no_space [OF r]] r
    by (auto simp: ends_def symbols_def)
  then have "parseline n t ps = Inr ((BACK ^^ k) cmd, ps1 + k)" using m(1) cmd(1) b by simp
  with cmd(3,4) show "\<exists>cmd. parseline n t ps = Inr (cmd, ps + length (command_text 3 c)) \<and> reading t cmd = c"
    by simp
qed

lemma line_ok_Seq:
  assumes "back_ok t a" "line_ok t b" "printable b"
  shows "line_ok t (Seq a b)"
  unfolding line_ok_def
proof (intro allI impI)
  fix ps r n
  assume at: "text_at t ps (command_text 3 (Seq a b) @ r)" and r: "ends '')'' r"
    and n: "4 * (length t - ps) + 4 \<le> n"
  obtain m where m: "n = Suc m" "4 * (length t - ps) + 3 \<le> m" using Suc_fuel [of _ 3] n by auto
  let ?s = "command_text 3 b @ r" and ?p = "ps + length (command_text 2 a)"
  have at0: "text_at t ps (command_text 2 a @ CHR '';'' # ?s)" using at by (simp add: parens_def)
  moreover have semi: "ends '')&;'' (CHR '';'' # ?s)" "ends '';)'' (CHR '';'' # ?s)" by (auto simp: ends_def)
  ultimately obtain cmd k ps1 where cmd: "parsepipe m t ps = Inr (cmd, ps1)"
      "text_at t ps1 (replicate k CHR ''&'' @ CHR '';'' # ?s)" "ps1 + k = ?p" "reading t ((BACK ^^ k) cmd) = a"
    using assms(1) [unfolded back_ok_def] m(2) by blast
  have b: "parsebacks cmd t ps1 = ((BACK ^^ k) cmd, ?p)" using parsebacks_at [OF cmd(2) semi(2)] cmd(3) by simp
  have at1: "text_at t ?p (CHR '';'' # ?s)" using text_at_append [OF at0] .
  have ns: "no_space ?s" using command_text_no_space [OF assms(3) ends_no_space [OF r]] by (simp add: symbols_def)
  have p: "peek t ?p '';'' = (True, ?p)" using peek_at [OF at1] by simp
  have g: "gettoken t ?p = (CHR '';'', ?p, Suc ?p, Suc ?p)" using gettoken_symbol_at [OF at1 _ ns] by simp
  have "4 * (length t - Suc ?p) + 4 \<le> m" using m(2) text_atD(3) [OF at1] by simp
  then obtain right where right: "parseline m t (Suc ?p) = Inr (right, Suc ?p + length (command_text 3 b))"
    "reading t right = b" using assms(2) text_at_Cons [OF at1] r unfolding line_ok_def by metis
  have "parseline n t ps = Inr (LIST ((BACK ^^ k) cmd) right, ps + length (command_text 3 (Seq a b)))"
    using m(1) cmd(1) b p g right(1) by (simp add: parens_def)
  then show "\<exists>cmd. parseline n t ps = Inr (cmd, ps + length (command_text 3 (Seq a b))) \<and> reading t cmd = Seq a b"
    using cmd(4) right(2) by (intro exI [of _ "LIST ((BACK ^^ k) cmd) right"]) simp
qed

lemma exec_ok_parens:
  assumes "line_ok t c" "command_text 0 c = ''('' @ command_text 3 c @ '')''" "printable c"
  shows "exec_ok t c"
  unfolding exec_ok_def
proof (intro allI impI)
  fix ps rs r n
  assume at: "text_at t ps (command_text 0 c @ redirects_text rs @ r)" and rs: "\<forall>(f, i) \<in> set rs. good_word f"
    and r: "ends ''|)&;'' r" and n: "4 * (length t - ps) + 2 \<le> n"
  define m where "m = n - 2"
  have m: "n = Suc (Suc m)" "4 * (length t - ps) \<le> m" using n by (simp_all add: m_def)
  let ?s = "redirects_text rs @ r" and ?p = "Suc ps + length (command_text 3 c)"
  have at0: "text_at t ps (CHR ''('' # command_text 3 c @ CHR '')'' # ?s)" using at assms(2) by simp
  have ns: "no_space (command_text 3 c @ CHR '')'' # ?s)"
    using command_text_no_space [OF assms(3)] by simp
  have p: "peek t ps ''('' = (True, ps)" using peek_at [OF at0] by simp
  have g: "gettoken t ps = (CHR ''('', ps, Suc ps, Suc ps)" using gettoken_symbol_at [OF at0 _ ns] by simp
  have at1: "text_at t (Suc ps) (command_text 3 c @ CHR '')'' # ?s)" using text_at_Cons [OF at0] .
  have "4 * (length t - Suc ps) + 4 \<le> m" using m(2) text_atD(3) [OF at0] by simp
  moreover have "ends '')'' (CHR '')'' # ?s)" by (simp add: ends_def)
  ultimately obtain cmd where cmd: "parseline m t (Suc ps) = Inr (cmd, ?p)" "reading t cmd = c"
    using assms(1) at1 unfolding line_ok_def by blast
  have at2: "text_at t ?p (CHR '')'' # ?s)" using text_at_append [OF at1] .
  have p2: "peek t ?p '')'' = (True, ?p)" using peek_at [OF at2] by simp
  have g2: "gettoken t ?p = (CHR '')'', ?p, Suc ?p, Suc ?p)"
    using gettoken_symbol_at [OF at2] redirects_follow(1) [OF r] by simp
  obtain rs' where rs': "parseredirs [] t (Suc ?p) = Inr (rs', Suc ?p + length (redirects_text rs))"
    "map (read_redir t) rs' = rs" using parseredirs_at [OF text_at_Cons [OF at2] rs r, of "[]"] by auto
  have "parseexec n t ps = Inr (redircmds cmd rs', ps + length (command_text 0 c @ redirects_text rs))"
    using m(1) p g cmd(1) p2 g2 rs'(1) assms(2) by simp
  then show "\<exists>cmd. parseexec n t ps = Inr (cmd, ps + length (command_text 0 c @ redirects_text rs)) \<and>
        reading t cmd = foldl (\<lambda>c (f, i). Redirect c f i) c rs"
    using cmd(2) rs'(2) by (auto simp: reading_redircmds)
qed

lemma exec_ok_Exec:
  assumes "printable (Exec ws)"
  shows "exec_ok t (Exec ws)"
  unfolding exec_ok_def
proof (intro allI impI)
  fix ps rs r n
  assume at: "text_at t ps (command_text 0 (Exec ws) @ redirects_text rs @ r)"
    and rs: "\<forall>(f, i) \<in> set rs. good_word f" and r: "ends ''|)&;'' r" and n: "4 * (length t - ps) + 2 \<le> n"
  obtain m where m: "n = Suc m" using n by (cases n) auto
  let ?len = "length (command_text 0 (Exec ws) @ redirects_text rs)"
  have good: "\<forall>w \<in> set ws. good_word w" "length ws < MAXARGS" using assms by simp_all
  have at': "text_at t ps (unwords ws @ redirects_text rs @ r)" using at by simp
  have hd: "hd (unwords ws) = hd (hd ws) \<and> unwords ws \<noteq> []" if "ws \<noteq> []"
    using that good(1) by (cases ws rule: unwords.cases) (auto simp: hd_append dest: good_word_hd)
  have wh: "word_char (hd (hd ws)) \<and> hd (hd ws) \<noteq> NUL" if "ws \<noteq> []"
    using that good(1) good_word_hd by (cases ws) auto
  have ns: "no_space (unwords ws @ redirects_text rs @ r)"
    using redirects_follow(1) [OF r] hd wh by (cases "ws = []") (auto simp: no_space_def)
  have p: "peek t ps ''('' = (False, ps)"
    using peek_at [OF at' ns] redirects_follow(3) [OF r, of rs] hd wh
    by (cases "ws = []") (auto simp: symbols_def)
  obtain argv rs1 rs2 where run: "parseredirs [] t ps = Inr (rs1, if ws = [] then ps + ?len else ps)"
      "parseargs [] rs1 t (if ws = [] then ps + ?len else ps) = Inr (argv, rs1 @ rs2, ps + ?len)"
      "map (text_slice t) argv = ws" "map (read_redir t) (rs1 @ rs2) = rs"
  proof (cases "ws = []")
    case True
    then have at0: "text_at t ps (redirects_text rs @ r)" using at' by simp
    obtain rs' where "parseredirs [] t ps = Inr (rs', ps + ?len)" "map (read_redir t) rs' = rs"
      using parseredirs_at [OF at0 rs r, of "[]"] True by auto
    moreover have "parseargs [] rs' t (ps + ?len) = Inr ([], rs', ps + ?len)"
      using parseargs_end [OF text_at_append [OF at0] r] True by simp
    ultimately show ?thesis using that [of rs' "[]" "[]"] True by simp
  next
    case False
    have "parseredirs [] t ps = Inr ([], ps)"
      using hd [OF False] wh [OF False] by (intro parseredirs_none [OF at' ns]) (auto simp: symbols_def)
    moreover obtain argv rs' where "parseargs [] [] t ps = Inr (argv, rs', ps + ?len)"
      "map (text_slice t) argv = ws" "map (read_redir t) rs' = rs"
      using parseargs_at [OF at' False good(1) _ rs r, of "[]" "[]"] good(2) by auto
    ultimately show ?thesis using that [of "[]" argv rs'] False by simp
  qed
  have "parseexec n t ps = Inr (redircmds (EXEC argv) (rs1 @ rs2), ps + ?len)"
    using m p run(1,2) by simp
  then show "\<exists>cmd. parseexec n t ps = Inr (cmd, ps + ?len) \<and>
      reading t cmd = foldl (\<lambda>c (f, i). Redirect c f i) (Exec ws) rs"
    using run(3,4) by (intro exI [of _ "redircmds (EXEC argv) (rs1 @ rs2)"]) (simp only: reading_redircmds reading.simps)
qed

lemma exec_ok_Redirect:
  assumes "exec_ok t c" "good_word f"
  shows "exec_ok t (Redirect c f i)"
  unfolding exec_ok_def
proof (intro allI impI)
  fix ps rs r n
  assume "text_at t ps (command_text 0 (Redirect c f i) @ redirects_text rs @ r)"
    "\<forall>(f, i) \<in> set rs. good_word f" "ends ''|)&;'' r" "4 * (length t - ps) + 2 \<le> n"
  then show "\<exists>cmd. parseexec n t ps = Inr (cmd, ps + length (command_text 0 (Redirect c f i) @ redirects_text rs)) \<and>
      reading t cmd = foldl (\<lambda>c (f, i). Redirect c f i) (Redirect c f i) rs"
    using assms(1) [unfolded exec_ok_def, THEN spec, of ps, THEN spec, of "(f, i) # rs", THEN spec, of r,
        THEN spec, of n] assms(2) by simp
qed

lemma levels_ok: "printable c \<Longrightarrow> exec_ok t c \<and> pipe_ok t c \<and> back_ok t c \<and> line_ok t c"
proof (induction c)
  case (Exec ws)
  then have e: "exec_ok t (Exec ws)" by (rule exec_ok_Exec)
  have p: "pipe_ok t (Exec ws)" by (rule pipe_ok_exec [OF e]) simp
  have b: "back_ok t (Exec ws)" by (rule back_ok_pipe [OF p]) simp
  have "line_ok t (Exec ws)" by (rule line_ok_back [OF b]) simp
  with e p b show ?case by blast
next
  case (Redirect c f i)
  then have e: "exec_ok t (Redirect c f i)" by (intro exec_ok_Redirect) simp_all
  have p: "pipe_ok t (Redirect c f i)" by (rule pipe_ok_exec [OF e]) simp
  have b: "back_ok t (Redirect c f i)" by (rule back_ok_pipe [OF p]) simp
  have "line_ok t (Redirect c f i)" by (rule line_ok_back [OF b]) simp
  with e p b show ?case by blast
next
  case (Pipe a b)
  then have p: "pipe_ok t (Pipe a b)" by (intro pipe_ok_Pipe) simp_all
  have k: "back_ok t (Pipe a b)" by (rule back_ok_pipe [OF p]) (simp add: parens_def)
  have l: "line_ok t (Pipe a b)" by (rule line_ok_back [OF k]) (simp add: parens_def)
  have "exec_ok t (Pipe a b)" by (rule exec_ok_parens [OF l _ Pipe.prems]) (simp add: parens_def)
  with p k l show ?case by blast
next
  case (Seq a b)
  then have l: "line_ok t (Seq a b)" by (intro line_ok_Seq) simp_all
  have e: "exec_ok t (Seq a b)" by (rule exec_ok_parens [OF l _ Seq.prems]) (simp add: parens_def)
  have p: "pipe_ok t (Seq a b)" by (rule pipe_ok_exec [OF e]) (simp add: parens_def)
  have "back_ok t (Seq a b)" by (rule back_ok_pipe [OF p]) (simp add: parens_def)
  with e p l show ?case by blast
next
  case (Background a)
  then have b: "back_ok t (Background a)" by (intro back_ok_Background) simp
  have l: "line_ok t (Background a)" by (rule line_ok_back [OF b]) (simp add: parens_def)
  have e: "exec_ok t (Background a)" by (rule exec_ok_parens [OF l _ Background.prems]) (simp add: parens_def)
  have "pipe_ok t (Background a)" by (rule pipe_ok_exec [OF e]) (simp add: parens_def)
  with e b l show ?case by blast
qed

section \<open>Round trip\<close>

lemma command_text_no_NUL: "printable c \<Longrightarrow> NUL \<notin> set (command_text l c)"
proof (induction c arbitrary: l)
  case (Exec ws)
  then have "\<forall>w \<in> set ws. NUL \<notin> set w" by (auto simp: good_word_def)
  then have "NUL \<notin> set (unwords ws)" by (induction ws rule: unwords.induct) auto
  then show ?case by simp
qed (auto simp: parens_def redirect_text_def good_word_def)

lemma meaning_reading:
  "\<forall>(q, e) \<in> set (tokens cmd). cstring b q = text_slice t (q, e) \<Longrightarrow> meaning b cmd = reading t cmd"
  by (induction cmd) (auto simp: split_beta)

text \<open>
  C26. Parsing inverts printing: for every command built from simple commands, redirections,
  pipes, sequences and background jobs, with words free of white space and symbols and fewer than
  ten arguments each, \<^verbatim>\<open>parsecmd\<close> on its text yields a command with exactly that meaning.
\<close>

theorem parsecmd_roundtrip:
  assumes "printable c"
  shows "\<exists>cmd b'. parsecmd (command_text 3 c @ NUL # junk) = Inr (cmd, b') \<and> meaning b' cmd = c"
proof -
  let ?t = "command_text 3 c" and ?b = "command_text 3 c @ NUL # junk"
  have n: "NUL \<notin> set ?t" using assms by (rule command_text_no_NUL)
  then have t: "takeWhile (\<lambda>x. x \<noteq> NUL) ?b = ?t" by (subst takeWhile_append2) auto
  have "text_at ?t 0 (?t @ [])" by (simp add: text_at_def)
  moreover have "ends '')'' []" by (simp add: ends_def)
  moreover have "line_ok ?t c" using levels_ok [OF assms] by blast
  ultimately obtain cmd where cmd: "parseline (4 * length ?t + 4) ?t 0 = Inr (cmd, length ?t)" "reading ?t cmd = c"
    unfolding line_ok_def by fastforce
  have "peek ?t (length ?t) '''' = (False, length ?t)"
    using peek_at [of ?t "length ?t" "[]"] by (simp add: text_at_def no_space_def)
  then have run: "parsecmd ?b = Inr (cmd, nulterminate cmd ?b)" using cmd(1) by (simp add: parsecmd_def t)
  have words: "\<forall>w \<in> set (tokens cmd). word_at ?t w"
    using parser_invariant(1) [OF n, of 0 "4 * length ?t + 4"] cmd(1) by simp
  have "\<forall>(q, e) \<in> set (tokens cmd). cstring (nulterminate cmd ?b) q = text_slice ?t (q, e)"
    unfolding nulterminate_tokens text_slice_def prod.case
    using cstring_terminated [OF words, of _ _ ?b] by auto
  then have "meaning (nulterminate cmd ?b) cmd = c" using cmd(2) by (simp add: meaning_reading)
  with run show ?thesis by blast
qed

theorem parsecmd_roundtrip_witness:
  "\<exists>cmd b'. parsecmd (''(ls;wc)<in|cat -n&'' @ [NUL]) = Inr (cmd, b') \<and>
     meaning b' cmd = Background (Pipe (Redirect (Seq (Exec [''ls'']) (Exec [''wc''])) ''in'' True) (Exec [''cat'', ''-n'']))"
  using parsecmd_roundtrip
    [of "Background (Pipe (Redirect (Seq (Exec [''ls'']) (Exec [''wc''])) ''in'' True) (Exec [''cat'', ''-n'']))" "[]"]
  by (simp add: good_word_def whitespace_def symbols_def parens_def redirect_text_def)

end
