(* ===== verification/Console.thy ===== *)
theory Console
  imports Vm
begin

text \<open>
  \<^verbatim>\<open>console.c\<close> with the serial output of \<^verbatim>\<open>uart.c\<close> and \<^verbatim>\<open>procdump\<close> of \<^verbatim>\<open>proc.c\<close>: the text screen and
  its cursor, number printing and \<^verbatim>\<open>cprintf\<close>, direct video output for the dashboard, and the
  line-edited console input. \<^verbatim>\<open>consoleread\<close> sleeps while there is no input, so its loop returns
  either a result or the point where it waits. Locking the console's inode around it is left to
  its caller in the file layer.
\<close>

section \<open>State\<close>

abbreviation (input) "INPUT_BUF \<equiv> 128 :: uint"
abbreviation (input) "BACKSPACE \<equiv> 0x100 :: cint"

record input_buf =
  in_buf :: "byte list"
  in_r :: uint
  in_w :: uint
  in_e :: uint

text \<open>
  \<open>crt\<close> is the CGA memory, \<open>cursor\<close> the position kept in the CRT controller's two registers,
  \<open>uart_out\<close> what was sent to the serial port. \<open>idt_reset\<close> records the \<^verbatim>\<open>lidt(0,0)\<close> of the reboot
  key.
\<close>

record cons_state = vm_state +
  panicked :: cint
  cons_locking :: cint
  crt :: "nat \<Rightarrow> ushort"
  cursor :: ushort
  uart :: cint
  uart_out :: "byte list"
  input :: input_buf
  idt_reset :: bool

section \<open>The screen\<close>

text \<open>
  \<^verbatim>\<open>cgaputc\<close> in three steps on the position and the cells: placing the character, scrolling up
  when the position leaves line 23, and setting the cursor. Scrolling clears from the new
  position to the end of line 23; from a position so far down that the count is negative it
  would write far outside the screen.
\<close>

definition cga_place :: "cint \<Rightarrow> nat \<Rightarrow> (nat \<Rightarrow> ushort) \<Rightarrow> nat \<times> (nat \<Rightarrow> ushort)" where
  "cga_place c pos m =
     (if c = 10 then (pos + (80 - pos mod 80), m)
      else if c = BACKSPACE then (if 0 < pos then pos - 1 else pos, m)
      else (pos + 1, m(pos := ucast (c AND 0xFF) OR 0x0700)))"

definition cga_scroll :: "nat \<Rightarrow> (nat \<Rightarrow> ushort) \<Rightarrow> (nat \<times> (nat \<Rightarrow> ushort)) option" where
  "cga_scroll pos m =
     (if 24 \<le> pos div 80 then
        let m1 = (\<lambda>i. if i < 23 * 80 then m (i + 80) else m i); pos = pos - 80
        in if 24 * 80 < pos then None
           else Some (pos, \<lambda>i. if pos \<le> i \<and> i < 24 * 80 then 0 else m1 i)
      else Some (pos, m))"

definition cgaputc :: "cint \<Rightarrow> 'a cons_state_scheme \<Rightarrow> stop + 'a cons_state_scheme" where
  "cgaputc c s =
     (case cga_place c (unat (cursor s)) (crt s) of (pos, m) \<Rightarrow>
      case cga_scroll pos m of
        None \<Rightarrow> Inl Fault
      | Some (pos, m) \<Rightarrow> Inr (s\<lparr>cursor := of_nat pos, crt := m(pos := 0x0720)\<rparr>))"

text \<open>\<^verbatim>\<open>uartputc\<close>; the bounded wait for the transmitter is not modelled.\<close>

definition uartputc :: "cint \<Rightarrow> 'a cons_state_scheme \<Rightarrow> 'a cons_state_scheme" where
  "uartputc c s = s\<lparr>uart_out := uart_out s @ (if uart s = 0 then [] else [ucast c])\<rparr>"

definition consputc :: "cint \<Rightarrow> 'a cons_state_scheme \<Rightarrow> stop + 'a cons_state_scheme" where
  "consputc c s =
     (if panicked s \<noteq> 0 then Inl Halt
      else cgaputc c (if c = BACKSPACE then uartputc 8 (uartputc 32 (uartputc 8 s)) else uartputc c s))"

primrec consputs :: "cint list \<Rightarrow> 'a cons_state_scheme \<Rightarrow> stop + 'a cons_state_scheme" where
  "consputs [] s = Inr s"
| "consputs (c # cs) s = andthen (consputc c s) (consputs cs)"

subsection \<open>Direct video output\<close>

definition vidclear :: "'a cons_state_scheme \<Rightarrow> 'a cons_state_scheme" where
  "vidclear s = s\<lparr>crt := (\<lambda>i. if i < 80 * 25 then 0x0720 else crt s i)\<rparr>"

definition vidputc :: "cint \<Rightarrow> cint \<Rightarrow> cint \<Rightarrow> cint \<Rightarrow> 'a cons_state_scheme \<Rightarrow> 'a cons_state_scheme" where
  "vidputc row col ch color s =
     (if row <s 0 \<or> 25 \<le>s row then s
      else if col <s 0 \<or> 80 \<le>s col then s
      else s\<lparr>crt := (crt s)(unat (row * 80 + col) :=
               ucast (ch AND 0xFF) OR ucast (push_bit 8 (color AND 0xFF)))\<rparr>)"

text \<open>\<^verbatim>\<open>vidputs\<close> on the bytes of a string before its NUL; a \<^verbatim>\<open>char\<close> is sign-extended to \<^verbatim>\<open>int\<close>.\<close>

fun vidputs :: "cint \<Rightarrow> cint \<Rightarrow> byte list \<Rightarrow> cint \<Rightarrow> 'a cons_state_scheme \<Rightarrow> 'a cons_state_scheme" where
  "vidputs row col [] color s = s"
| "vidputs row col (c # cs) color s =
     (if col <s 80 then vidputs row (col + 1) cs color (vidputc row col (scast c) color s) else s)"

section \<open>Printing\<close>

definition digits :: "byte list" where
  "digits = map of_char ''0123456789abcdef''"

primrec x64_digits :: "nat \<Rightarrow> addr \<Rightarrow> byte list" where
  "x64_digits 0 x = []"
| "x64_digits (Suc n) x = digits ! unat (drop_bit 60 x) # x64_digits n (push_bit 4 x)"

primrec x32_digits :: "nat \<Rightarrow> uint \<Rightarrow> byte list" where
  "x32_digits 0 x = []"
| "x32_digits (Suc n) x = digits ! unat (drop_bit 28 x) # x32_digits n (push_bit 4 x)"

definition print_x64 :: "addr \<Rightarrow> 'a cons_state_scheme \<Rightarrow> stop + 'a cons_state_scheme" where
  "print_x64 x = consputs (map ucast (x64_digits 16 x))"

definition print_x32 :: "uint \<Rightarrow> 'a cons_state_scheme \<Rightarrow> stop + 'a cons_state_scheme" where
  "print_x32 x = consputs (map ucast (x32_digits 8 x))"

text \<open>
  \<^verbatim>\<open>print_d\<close> collects the digits of a 64-bit value, least significant first, in \<^verbatim>\<open>buf\<close>, then a
  minus sign, and prints \<^verbatim>\<open>buf\<close> backwards.
\<close>

fun d_digits :: "nat \<Rightarrow> byte list" where
  "d_digits x = digits ! (x mod 10) # (if x div 10 = 0 then [] else d_digits (x div 10))"

declare d_digits.simps [simp del]

definition d_text :: "cint \<Rightarrow> byte list" where
  "d_text v =
     (let x = (if v <s 0 then - sint v else sint v)
      in rev (d_digits (nat x) @ (if v <s 0 then [45] else [])))"

definition print_d :: "cint \<Rightarrow> 'a cons_state_scheme \<Rightarrow> stop + 'a cons_state_scheme" where
  "print_d v = consputs (map ucast (d_text v))"

text \<open>
  \<^verbatim>\<open>cprintf\<close>. The variable arguments are a list of tagged values; a conversion that does not fit
  the next argument is undefined behaviour in C. A null \<^verbatim>\<open>%s\<close> argument is \<open>StrArg None\<close>.
\<close>

datatype arg = IntArg cint | PtrArg addr | StrArg "byte list option"

fun cprintf_loop :: "byte list \<Rightarrow> arg list \<Rightarrow> 'a cons_state_scheme \<Rightarrow> stop + 'a cons_state_scheme" where
  "cprintf_loop [] args s = Inr s"
| "cprintf_loop (c # cs) args s =
     (if c \<noteq> 37 then andthen (consputc (ucast c) s) (cprintf_loop cs args)
      else case cs of
        [] \<Rightarrow> Inr s
      | d # ds \<Rightarrow>
          if d = 100 then
            (case args of IntArg v # args \<Rightarrow> andthen (print_d v s) (cprintf_loop ds args) | _ \<Rightarrow> Inl Fault)
          else if d = 120 then
            (case args of IntArg v # args \<Rightarrow> andthen (print_x32 v s) (cprintf_loop ds args) | _ \<Rightarrow> Inl Fault)
          else if d = 112 then
            (case args of PtrArg p # args \<Rightarrow> andthen (print_x64 p s) (cprintf_loop ds args) | _ \<Rightarrow> Inl Fault)
          else if d = 115 then
            (case args of
               StrArg p # args \<Rightarrow>
                 andthen (consputs (map scast (case p of Some t \<Rightarrow> t | None \<Rightarrow> map of_char ''(null)'')) s)
                   (cprintf_loop ds args)
             | _ \<Rightarrow> Inl Fault)
          else if d = 37 then andthen (consputc 37 s) (cprintf_loop ds args)
          else andthen (consputc 37 s) (\<lambda>s. andthen (consputc (ucast d) s) (cprintf_loop ds args)))"

definition cprintf :: "byte list option \<Rightarrow> arg list \<Rightarrow> 'a cons_state_scheme \<Rightarrow> stop + 'a cons_state_scheme" where
  "cprintf fmt args s =
     (let locking = cons_locking s
      in andthen (if locking \<noteq> 0 then acquire Cons_lock s else Inr s) (\<lambda>s.
         case fmt of
           None \<Rightarrow> Inl (Panic ''null fmt'')
         | Some f \<Rightarrow> andthen (cprintf_loop f args s) (\<lambda>s.
             if locking \<noteq> 0 then release Cons_lock s else Inr s)))"

abbreviation printf_str :: "string \<Rightarrow> byte list option" where
  "printf_str f \<equiv> Some (map of_char f)"

text \<open>\<^verbatim>\<open>panic\<close>, up to the loop in which it halts; \<open>stack\<close> holds the ten return addresses it prints.\<close>

definition panic :: "byte list \<Rightarrow> addr list \<Rightarrow> 'a cons_state_scheme \<Rightarrow> stop + 'a cons_state_scheme" where
  "panic msg stack s =
     (let s = s\<lparr>cpu := (cpu s)\<lparr>if_flag := False\<rparr>, cons_locking := 0\<rparr>
      in andthen (cprintf (printf_str ''cpu%d: panic: '') [IntArg (of_nat (cpu_id (cpu s)))] s) (\<lambda>s.
         andthen (cprintf (Some msg) [] s) (\<lambda>s.
         andthen (cprintf (printf_str [CHR 0x0A]) [] s) (\<lambda>s.
         andthen (fold (\<lambda>pc r. andthen r (cprintf (printf_str ('' %p'' @ [CHR 0x0A])) [PtrArg pc])) stack (Inr s)) (\<lambda>s.
         Inr (s\<lparr>panicked := 1\<rparr>))))))"

section \<open>Console input\<close>

subsection \<open>Outcomes of code that may sleep\<close>

text \<open>
  A function that can sleep returns, or stops in \<^verbatim>\<open>sleep\<close> with what it needs to continue and the
  interrupt flag that \<^verbatim>\<open>sched\<close> saved.
\<close>

datatype ('k, 'r) outcome = Returns 'r | Sleeps 'k bool

definition sleeping ::
    "'k \<Rightarrow> chan \<Rightarrow> lockid \<Rightarrow> 'a kproc_scheme \<Rightarrow> stop + ('k, 'r) outcome \<times> 'a kproc_scheme" where
  "sleeping k c lk s = andthen (sleep_enter c lk s) (\<lambda>(ie, s). Inr (Sleeps k ie, s))"

definition returning ::
    "'r \<Rightarrow> lockid \<Rightarrow> 'a machine_scheme \<Rightarrow> stop + ('k, 'r) outcome \<times> 'a machine_scheme" where
  "returning r lk s = andthen (release lk s) (\<lambda>s. Inr (Returns r, s))"

definition proc_killed :: "'a kproc_scheme \<Rightarrow> bool" where
  "proc_killed s = (case curproc s of Some i \<Rightarrow> killed (ptable s ! i) \<noteq> 0 | None \<Rightarrow> False)"

subsection \<open>Keystrokes\<close>

text \<open>
  \<^verbatim>\<open>procdump\<close> prints the process table; the return addresses of a sleeping process come from its
  saved stack, given by \<open>stack\<close>.
\<close>

definition state_name :: "procstate \<Rightarrow> string" where
  "state_name st =
     (case st of UNUSED \<Rightarrow> ''unused'' | EMBRYO \<Rightarrow> ''embryo'' | SLEEPING \<Rightarrow> ''sleep ''
      | RUNNABLE \<Rightarrow> ''runble'' | RUNNING \<Rightarrow> ''run   '' | ZOMBIE \<Rightarrow> ''zombie'')"

definition cstr_bytes :: "byte list \<Rightarrow> byte list" where
  "cstr_bytes b = takeWhile (\<lambda>c. c \<noteq> 0) b"

fun procdump :: "(nat \<Rightarrow> addr list) \<Rightarrow> nat list \<Rightarrow> 'a cons_state_scheme \<Rightarrow> stop + 'a cons_state_scheme" where
  "procdump stack [] s = Inr s"
| "procdump stack (i # is) s =
     (let p = ptable s ! i
      in if pstate p = UNUSED then procdump stack is s
         else andthen (cprintf (printf_str ''%d %s %s'')
                [IntArg (pid p), StrArg (printf_str (state_name (pstate p))), StrArg (Some (cstr_bytes (pname p)))] s) (\<lambda>s.
              andthen (if pstate p = SLEEPING
                 then fold (\<lambda>pc r. andthen r (cprintf (printf_str '' %p'') [PtrArg pc]))
                        (takeWhile (\<lambda>pc. pc \<noteq> 0) (take 10 (stack i))) (Inr s)
                 else Inr s) (\<lambda>s.
              andthen (cprintf (printf_str [CHR 0x0A]) [] s) (procdump stack is))))"

text \<open>Printing a character changes the screen, the cursor and the serial output only.\<close>

lemma consputc_frame:
  assumes "consputc c s = Inr s'"
  shows "\<exists>p m u. s' = s\<lparr>cursor := p, crt := m, uart_out := u\<rparr>"
proof -
  obtain s1 u where s1: "cgaputc c s1 = Inr s'" "s1 = s\<lparr>uart_out := u\<rparr>"
    using assms by (auto simp: consputc_def uartputc_def split: if_splits)
  moreover obtain p m where "s' = s1\<lparr>cursor := p, crt := m\<rparr>"
    using s1(1) by (auto simp: cgaputc_def split: prod.splits option.splits)
  ultimately have "s' = s\<lparr>cursor := p, crt := m, uart_out := u\<rparr>" by simp
  then show ?thesis by blast
qed

lemma consputc_input: "consputc c s = Inr s' \<Longrightarrow> input s' = input s"
  by (auto dest: consputc_frame)

text \<open>\<^verbatim>\<open>C('U')\<close>: erase back to the last newline or the start of the line being edited.\<close>

function kill_line :: "'a cons_state_scheme \<Rightarrow> stop + 'a cons_state_scheme" where
  "kill_line s =
     (if in_e (input s) \<noteq> in_w (input s) \<and>
         in_buf (input s) ! unat ((in_e (input s) - 1) mod INPUT_BUF) \<noteq> 10
      then andthen (consputc BACKSPACE (s\<lparr>input := (input s)\<lparr>in_e := in_e (input s) - 1\<rparr>\<rparr>)) kill_line
      else Inr s)"
  by pat_completeness auto
termination
proof (relation "measure (\<lambda>s. unat (in_e (input s) - in_w (input s)))", goal_cases)
  case (2 s s')
  let ?e = "in_e (input s)" and ?w = "in_w (input s)"
  have "input s' = (input s)\<lparr>in_e := ?e - 1\<rparr>" using consputc_input [OF 2(2)] by simp
  moreover have "unat (?e - 1 - ?w) < unat (?e - ?w)"
  proof -
    have eq: "?e - 1 - ?w = (?e - ?w) - 1" by simp
    have "?e - ?w \<noteq> 0" using 2(1) by simp
    then show ?thesis unfolding eq using unat_minus_one [of "?e - ?w"] unat_gt_0 [of "?e - ?w"] by simp
  qed
  ultimately show ?case by simp
qed simp

declare kill_line.simps [simp del]

text \<open>One round of the loop in \<^verbatim>\<open>consoleintr\<close>.\<close>

definition console_key :: "(nat \<Rightarrow> addr list) \<Rightarrow> cint \<Rightarrow> 'a cons_state_scheme \<Rightarrow> stop + 'a cons_state_scheme" where
  "console_key stack c s =
     (if c = 26 then Inr (s\<lparr>idt_reset := True\<rparr>)
      else if c = 16 then procdump stack [0..<NPROC] s
      else if c = 21 then kill_line s
      else if c = 8 \<or> c = 0x7F then
        (if in_e (input s) \<noteq> in_w (input s)
         then consputc BACKSPACE (s\<lparr>input := (input s)\<lparr>in_e := in_e (input s) - 1\<rparr>\<rparr>)
         else Inr s)
      else if c \<noteq> 0 \<and> in_e (input s) - in_r (input s) < INPUT_BUF then
        let c = (if c = 13 then 10 else c);
            i = input s;
            i = i\<lparr>in_buf := (in_buf i)[unat (in_e i mod INPUT_BUF) := ucast c], in_e := in_e i + 1\<rparr>
        in andthen (consputc c (s\<lparr>input := i\<rparr>)) (\<lambda>s.
             if c = 10 \<or> c = 4 \<or> in_e (input s) = in_r (input s) + INPUT_BUF
             then wakeup Input_chan (s\<lparr>input := (input s)\<lparr>in_w := in_e (input s)\<rparr>\<rparr>)
             else Inr s)
      else Inr s)"

primrec console_keys :: "(nat \<Rightarrow> addr list) \<Rightarrow> cint list \<Rightarrow> 'a cons_state_scheme \<Rightarrow> stop + 'a cons_state_scheme" where
  "console_keys stack [] s = Inr s"
| "console_keys stack (c # cs) s = andthen (console_key stack c s) (console_keys stack cs)"

text \<open>\<^verbatim>\<open>consoleintr\<close>; \<open>keys\<close> are the results of \<^verbatim>\<open>getc\<close> before the first negative one.\<close>

definition consoleintr :: "(nat \<Rightarrow> addr list) \<Rightarrow> cint list \<Rightarrow> 'a cons_state_scheme \<Rightarrow> stop + 'a cons_state_scheme" where
  "consoleintr stack keys s =
     andthen (acquire Input_lock s) (\<lambda>s.
     andthen (console_keys stack keys s) (\<lambda>s. release Input_lock s))"

subsection \<open>Reading and writing\<close>

text \<open>
  The loop of \<^verbatim>\<open>consoleread\<close>, entered with the input lock held: \<open>n\<close> more bytes are wanted of the
  \<open>target\<close> asked for, \<open>dst\<close> is what was stored so far. It returns the count or -1 and the bytes.
\<close>

fun consoleread_loop ::
    "nat \<Rightarrow> nat \<Rightarrow> byte list \<Rightarrow> 'a cons_state_scheme \<Rightarrow>
       stop + (nat \<times> byte list, cint \<times> byte list) outcome \<times> 'a cons_state_scheme" where
  "consoleread_loop 0 target dst s = returning (of_nat target, dst) Input_lock s"
| "consoleread_loop (Suc n) target dst s =
     (let i = input s
      in if in_r i = in_w i then
           (if proc_killed s then returning (-1, dst) Input_lock s
            else sleeping (Suc n, dst) Input_chan Input_lock s)
         else let c = in_buf i ! unat (in_r i mod INPUT_BUF);
                  s = s\<lparr>input := i\<lparr>in_r := in_r i + 1\<rparr>\<rparr>
              in if c = 4 then
                   (let s = (if Suc n < target then s\<lparr>input := i\<lparr>in_r := in_r i\<rparr>\<rparr> else s)
                    in returning (of_nat (target - Suc n), dst) Input_lock s)
                 else if c = 10 then returning (of_nat (target - n), dst @ [c]) Input_lock s
                 else consoleread_loop n target (dst @ [c]) s)"

definition consoleread ::
    "cint \<Rightarrow> 'a cons_state_scheme \<Rightarrow> stop + (nat \<times> byte list, cint \<times> byte list) outcome \<times> 'a cons_state_scheme" where
  "consoleread n s =
     andthen (acquire Input_lock s) (\<lambda>s.
       if n \<le>s 0 then returning (0, []) Input_lock s
       else consoleread_loop (unat n) (unat n) [] s)"

text \<open>What follows when the sleeping reader is resumed.\<close>

definition consoleread_resume ::
    "nat \<Rightarrow> nat \<Rightarrow> nat \<times> byte list \<Rightarrow> bool \<Rightarrow> 'a cons_state_scheme \<Rightarrow>
       stop + (nat \<times> byte list, cint \<times> byte list) outcome \<times> 'a cons_state_scheme" where
  "consoleread_resume p target k ie s =
     andthen (sleep_resume p Input_lock ie s) (\<lambda>s. consoleread_loop (fst k) target (snd k) s)"

definition consolewrite :: "byte list \<Rightarrow> 'a cons_state_scheme \<Rightarrow> stop + cint \<times> 'a cons_state_scheme" where
  "consolewrite bytes s =
     andthen (acquire Cons_lock s) (\<lambda>s.
     andthen (consputs (map ucast bytes) s) (\<lambda>s.
     andthen (release Cons_lock s) (\<lambda>s. Inr (of_nat (length bytes), s))))"

definition consoleinit :: "'a cons_state_scheme \<Rightarrow> 'a cons_state_scheme" where
  "consoleinit s = (initlock Input_lock ''input'' (initlock Cons_lock ''console'' s))\<lparr>cons_locking := 1\<rparr>"

end
