(* ===== verification/Dashboard.thy ===== *)
theory Dashboard
  imports Console
begin

text \<open>
  \<^verbatim>\<open>trace.c\<close>, the live trace dashboard: a user program that reads trace events one at a time,
  filters and counts them, keeps a window of the last 32 and an activity graph of the last 50
  ticks, and draws them with \<^verbatim>\<open>vidputs\<close>. The program's globals and the locals of \<^verbatim>\<open>main\<close> are one
  record; drawing acts on the screen of \<open>Console\<close>. What the system calls of the main loop
  answer (\<^verbatim>\<open>traceread\<close>, \<^verbatim>\<open>uptime\<close>) is the input of the loop.
\<close>

section \<open>State\<close>

abbreviation (input) "MAX_TRACE_ROWS \<equiv> 32 :: nat"
abbreviation (input) "COLOR_NORMAL \<equiv> 0x07 :: cint"
abbreviation (input) "COLOR_TITLE \<equiv> 0x0f :: cint"
abbreviation (input) "COLOR_GREEN \<equiv> 0x0a :: cint"
abbreviation (input) "COLOR_CYAN \<equiv> 0x0b :: cint"
abbreviation (input) "COLOR_YELLOW \<equiv> 0x0e :: cint"
abbreviation (input) "COLOR_RED \<equiv> 0x0c :: cint"
abbreviation (input) "GRAPH_WIDTH \<equiv> 50 :: nat"

text \<open>
  The four counters of a kind are a record. Array positions are natural numbers, since the
  code only ever reduces them modulo the array size; counts and ticks are 32-bit words.
\<close>

record counts =
  n_sys :: cint
  n_proc :: cint
  n_mem :: cint
  n_trap :: cint

record dash_args =
  filter_type :: cint
  filter_pid :: cint
  limit :: cint
  limit_set :: bool
  display_rows :: cint

record dash =
  win_counts :: counts
  total_counts :: counts
  recent :: "trace_event list"
  recent_count :: nat
  recent_start :: nat
  seen :: cint
  activity :: "cint list"
  activity_pos :: nat
  last_tick :: cint
  dropped :: cint

section \<open>Names, colours, filters, counters\<close>

definition typename :: "cint \<Rightarrow> byte list" where
  "typename ty =
     map of_char
      (if ty = TRACE_TYPE_SYSCALL then ''syscall''
       else if ty = TRACE_TYPE_PROC then ''proc''
       else if ty = TRACE_TYPE_TRAP then ''trap''
       else if ty = TRACE_TYPE_MEM then ''mem''
       else ''all'')"

definition type_color :: "cint \<Rightarrow> cint" where
  "type_color ty =
     (if ty = TRACE_TYPE_SYSCALL then COLOR_CYAN
      else if ty = TRACE_TYPE_PROC then COLOR_GREEN
      else if ty = TRACE_TYPE_MEM then COLOR_YELLOW
      else if ty = TRACE_TYPE_TRAP then COLOR_RED
      else COLOR_NORMAL)"

definition detail_color :: "trace_event \<Rightarrow> cint" where
  "detail_color ev =
     (if ev_type ev = TRACE_TYPE_TRAP then COLOR_RED
      else if ev_type ev = TRACE_TYPE_MEM then COLOR_YELLOW
      else if ev_type ev = TRACE_TYPE_PROC then COLOR_GREEN
      else if ev_type ev = TRACE_TYPE_SYSCALL
        then (if ev_arg1 ev <s 0 then COLOR_RED else COLOR_CYAN)
      else COLOR_NORMAL)"

definition latency_color :: "cint \<Rightarrow> cint" where
  "latency_color latency =
     (if 5 \<le>s latency then COLOR_RED else if 2 \<le>s latency then COLOR_YELLOW else COLOR_GREEN)"

definition want_event :: "trace_event \<Rightarrow> cint \<Rightarrow> cint \<Rightarrow> cint \<Rightarrow> bool" where
  "want_event ev type_filter pid_filter self_pid =
     (if ev_pid ev = self_pid then False
      else if type_filter \<noteq> 0 \<and> ev_type ev \<noteq> type_filter then False
      else if pid_filter \<noteq> - 1 \<and> ev_pid ev \<noteq> pid_filter then False
      else True)"

text \<open>The two update functions differ only in the group of globals they increment.\<close>

definition update_counts :: "trace_event \<Rightarrow> counts \<Rightarrow> counts" where
  "update_counts ev c =
     (if ev_type ev = TRACE_TYPE_SYSCALL then c\<lparr>n_sys := n_sys c + 1\<rparr>
      else if ev_type ev = TRACE_TYPE_PROC then c\<lparr>n_proc := n_proc c + 1\<rparr>
      else if ev_type ev = TRACE_TYPE_MEM then c\<lparr>n_mem := n_mem c + 1\<rparr>
      else if ev_type ev = TRACE_TYPE_TRAP then c\<lparr>n_trap := n_trap c + 1\<rparr>
      else c)"

definition update_window_counts :: "trace_event \<Rightarrow> dash \<Rightarrow> dash" where
  "update_window_counts ev d = d\<lparr>win_counts := update_counts ev (win_counts d)\<rparr>"

definition update_total_counts :: "trace_event \<Rightarrow> dash \<Rightarrow> dash" where
  "update_total_counts ev d = d\<lparr>total_counts := update_counts ev (total_counts d)\<rparr>"

section \<open>Numbers\<close>

text \<open>
  \<^verbatim>\<open>temp\<close> takes at most 15 digits, least significant first; the text is \<^verbatim>\<open>temp\<close> backwards. The
  value of the digit loop is positive, so the signed division is the unsigned one. Negating the
  least integer leaves it unchanged.
\<close>

fun itoa_digits :: "nat \<Rightarrow> cint \<Rightarrow> byte list" where
  "itoa_digits 0 val = []"
| "itoa_digits (Suc room) val =
     (if 0 <s val then (48 + ucast (val mod 10)) # itoa_digits room (val div 10) else [])"

definition itoa :: "cint \<Rightarrow> byte list" where
  "itoa val =
     (let neg = val <s 0; val = (if neg then - val else val)
      in if val = 0 then [48]
         else let temp = itoa_digits 15 val;
                  temp = (if neg \<and> length temp < 15 then temp @ [45] else temp)
              in rev temp)"

fun itox_digits :: "nat \<Rightarrow> uint \<Rightarrow> byte list" where
  "itox_digits 0 val = []"
| "itox_digits (Suc room) val =
     (if 0 < val then digits ! unat (val mod 16) # itox_digits room (val div 16) else [])"

definition itox :: "uint \<Rightarrow> byte list" where
  "itox val = (if val = 0 then [48] else rev (itox_digits 15 val))"

section \<open>Drawing\<close>

abbreviation (input) "str s \<equiv> map of_char s :: byte list"

definition drawnum :: "cint \<Rightarrow> cint \<Rightarrow> cint \<Rightarrow> cint \<Rightarrow> 'a cons_state_scheme \<Rightarrow> 'a cons_state_scheme" where
  "drawnum row col val color = vidputs row col (itoa val) color"

definition drawhex :: "cint \<Rightarrow> cint \<Rightarrow> uint \<Rightarrow> cint \<Rightarrow> 'a cons_state_scheme \<Rightarrow> 'a cons_state_scheme" where
  "drawhex row col val color s =
     vidputs row (col + 2) (itox val) color (vidputs row col (str ''0x'') color s)"

text \<open>The detail columns of an event row, by the type of the event.\<close>

definition draw_details :: "cint \<Rightarrow> trace_event \<Rightarrow> 'a cons_state_scheme \<Rightarrow> 'a cons_state_scheme" where
  "draw_details row ev s =
     (if ev_type ev = TRACE_TYPE_SYSCALL then
        drawnum row 70 (ev_arg1 ev) (detail_color ev)
         (vidputs row 64 (str ''ret = '') COLOR_NORMAL
          (drawnum row 60 (ev_arg0 ev) COLOR_CYAN
           (vidputs row 54 (str ''num = '') COLOR_NORMAL s)))
      else if ev_type ev = TRACE_TYPE_PROC then
        drawnum row 62 (ev_arg0 ev) COLOR_GREEN (vidputs row 54 (str ''child = '') COLOR_NORMAL s)
      else if ev_type ev = TRACE_TYPE_MEM then
        drawhex row 61 (ev_arg0 ev) COLOR_YELLOW (vidputs row 54 (str ''page = '') COLOR_NORMAL s)
      else if ev_type ev = TRACE_TYPE_TRAP then
        drawnum row 72 (ev_arg1 ev) COLOR_RED
         (vidputs row 66 (str ''err = '') COLOR_RED
          (drawnum row 62 (ev_arg0 ev) COLOR_RED
           (vidputs row 54 (str ''cause = '') COLOR_RED s)))
      else s)"

definition draweventrow :: "cint \<Rightarrow> trace_event \<Rightarrow> 'a cons_state_scheme \<Rightarrow> 'a cons_state_scheme" where
  "draweventrow row ev s =
     (let s = vidputs row 0 (replicate 80 32) COLOR_NORMAL s;
          s = drawnum row 0 (ev_seq ev) COLOR_NORMAL s;
          s = drawnum row 5 (ev_ticks ev) COLOR_NORMAL s;
          s = drawnum row 12 (ev_pid ev) (type_color (ev_type ev)) s;
          s = vidputs row 17 (arr_str (ev_comm ev)) (type_color (ev_type ev)) s;
          s = vidputs row 34 (typename (ev_type ev)) (type_color (ev_type ev)) s;
          s = vidputs row 43 (arr_str (ev_event ev)) (type_color (ev_type ev)) s
      in draw_details row ev s)"

definition graph_bar :: "cint \<Rightarrow> byte \<times> cint" where
  "graph_bar count =
     (if count = 0 then (of_char CHR ''.'', COLOR_NORMAL)
      else if count <s 3 then (of_char CHR ''-'', COLOR_GREEN)
      else if count <s 7 then (of_char CHR ''='', COLOR_YELLOW)
      else (of_char CHR ''#'', COLOR_RED))"

definition draw_graph :: "cint \<Rightarrow> cint \<Rightarrow> cint list \<Rightarrow> nat \<Rightarrow> 'a cons_state_scheme \<Rightarrow> 'a cons_state_scheme" where
  "draw_graph row col act pos s =
     fold (\<lambda>i s. case graph_bar (act ! ((pos + 1 + i) mod GRAPH_WIDTH)) of
             (bar, color) \<Rightarrow> vidputs (row + 1) (col + of_nat i) [bar] color s)
       [0..<GRAPH_WIDTH]
       (vidputs row col (str ''event rate last 50 ticks: . none | - low | = medium | # high'') COLOR_TITLE s)"

definition draw_counts :: "cint \<Rightarrow> string \<Rightarrow> counts \<Rightarrow> 'a cons_state_scheme \<Rightarrow> 'a cons_state_scheme" where
  "draw_counts row title c s =
     (let s = vidputs row 26 (str title) COLOR_NORMAL s;
          s = drawnum row 45 (n_sys c) COLOR_CYAN s;
          s = vidputs row 48 (str '' proc = '') COLOR_NORMAL s;
          s = drawnum row 56 (n_proc c) COLOR_GREEN s;
          s = vidputs row 59 (str '' mem = '') COLOR_NORMAL s;
          s = drawnum row 66 (n_mem c) COLOR_YELLOW s;
          s = vidputs row 69 (str '' trap = '') COLOR_NORMAL s
      in drawnum row 77 (n_trap c) COLOR_RED s)"

text \<open>The number of event rows \<^verbatim>\<open>drawBoard\<close> draws, and the event in each.\<close>

definition board_rows :: "dash_args \<Rightarrow> dash \<Rightarrow> nat" where
  "board_rows a d = min (recent_count d) (min (nat (sint (display_rows a))) MAX_TRACE_ROWS)"

definition board_row :: "dash \<Rightarrow> nat \<Rightarrow> trace_event" where
  "board_row d i = recent d ! ((recent_start d + i) mod MAX_TRACE_ROWS)"

definition draw_header :: "dash_args \<Rightarrow> dash \<Rightarrow> 'a cons_state_scheme \<Rightarrow> 'a cons_state_scheme" where
  "draw_header a d s =
     (let s = vidputs 0 0 (str ''XV6 LIVE KERNEL TRACE DASHBOARD'') COLOR_TITLE s;
          s = vidputs 0 36 (str ''FILTER:'') COLOR_NORMAL s;
          s = vidputs 0 44 (typename (filter_type a)) (type_color (filter_type a)) s;
          s = vidputs 0 52 (str ''pid = '') COLOR_NORMAL s;
          s = (if filter_pid a = - 1 then vidputs 0 58 (str ''all'') COLOR_NORMAL s
               else drawnum 0 58 (filter_pid a) COLOR_NORMAL s);
          s = vidputs 0 64 (str ''STATUS:'') COLOR_NORMAL s;
          s = (if limit a = 0 then vidputs 0 72 (str ''ONESHOT'') COLOR_YELLOW s
               else vidputs 0 72 (str ''LIVE'') COLOR_GREEN s);
          s = vidputs 1 0 (str ''captured = '') COLOR_NORMAL s;
          s = drawnum 1 11 (seen d) COLOR_CYAN s;
          s = vidputs 1 15 (str ''/ '') COLOR_NORMAL s;
          s = drawnum 1 17 (if limit a = 0 then 128 else limit a) COLOR_CYAN s;
          s = draw_counts 1 ''showing: syscall = '' (win_counts d) s;
          s = vidputs 2 0 (str ''overwritten = '') COLOR_NORMAL s;
          s = drawnum 2 14 (dropped d) (if 0 <s dropped d then COLOR_RED else COLOR_NORMAL) s;
          s = draw_counts 2 ''total:   syscall = '' (total_counts d) s;
          s = vidputs 6 0 (str ''SEQ  TICKS  PID  PROC             SUBSYS   EVENT      DETAILS'') COLOR_TITLE s
      in vidputs 7 0 (replicate 75 45) COLOR_NORMAL s)"

definition drawBoard :: "dash_args \<Rightarrow> dash \<Rightarrow> 'a cons_state_scheme \<Rightarrow> 'a cons_state_scheme" where
  "drawBoard a d s =
     fold (\<lambda>i. draweventrow (8 + of_nat i) (board_row d i)) [0..<board_rows a d]
       (draw_header a d (vidclear s))"

section \<open>The command line\<close>

definition start_args :: dash_args where
  "start_args = \<lparr>filter_type = 0, filter_pid = - 1, limit = 0, limit_set = False, display_rows = 15\<rparr>"

definition number_arg :: "byte list \<Rightarrow> dash_args \<Rightarrow> dash_args" where
  "number_arg w a =
     (let val = atoi_str w
      in if 0 <s val \<or> w = str ''0'' then
           if \<not> limit_set a then a\<lparr>limit := val, limit_set := True\<rparr>
           else if filter_pid a = - 1 then a\<lparr>filter_pid := val\<rparr> else a
         else a)"

fun parse_args :: "byte list list \<Rightarrow> dash_args \<Rightarrow> dash_args" where
  "parse_args [] a = a"
| "parse_args (w # ws) a =
     (if w = str ''-n'' \<and> ws \<noteq> [] then
        let rows = atoi_str (hd ws)
        in parse_args (tl ws) (a\<lparr>display_rows := if 32 <s rows then 32 else rows\<rparr>)
      else if w = str ''syscall'' then parse_args ws (a\<lparr>filter_type := TRACE_TYPE_SYSCALL\<rparr>)
      else if w = str ''proc'' then parse_args ws (a\<lparr>filter_type := TRACE_TYPE_PROC\<rparr>)
      else if w = str ''mem'' then parse_args ws (a\<lparr>filter_type := TRACE_TYPE_MEM\<rparr>)
      else if w = str ''trap'' then parse_args ws (a\<lparr>filter_type := TRACE_TYPE_TRAP\<rparr>)
      else parse_args ws (number_arg w a))"

section \<open>The main loop\<close>

definition start_dash :: dash where
  "start_dash =
     \<lparr>win_counts = \<lparr>n_sys = 0, n_proc = 0, n_mem = 0, n_trap = 0\<rparr>,
      total_counts = \<lparr>n_sys = 0, n_proc = 0, n_mem = 0, n_trap = 0\<rparr>,
      recent = replicate MAX_TRACE_ROWS \<lparr>ev_seq = 0, ev_ticks = 0, ev_type = 0, ev_pid = 0, ev_arg0 = 0,
        ev_arg1 = 0, ev_arg2 = 0, ev_comm = replicate 16 0, ev_event = replicate 16 0, ev_overwritten = 0\<rparr>,
      recent_count = 0, recent_start = 0, seen = 0, activity = replicate GRAPH_WIDTH 0,
      activity_pos = 0, last_tick = - 1, dropped = 0\<rparr>"

text \<open>\<open>diff\<close> turns of the loop that moves the graph on by one tick and clears the new column.\<close>

definition graph_tick :: "dash \<Rightarrow> dash" where
  "graph_tick d =
     (let pos = (activity_pos d + 1) mod GRAPH_WIDTH
      in d\<lparr>activity_pos := pos, activity := (activity d)[pos := 0]\<rparr>)"

definition graph_advance :: "cint \<Rightarrow> dash \<Rightarrow> dash" where
  "graph_advance diff d =
     (let diff = (if 50 <s diff then 50 else diff)
      in (graph_tick ^^ nat (sint diff)) d)"

text \<open>An event's time is unsigned, so \<^verbatim>\<open>event.ticks > last_tick\<close> compares unsigned.\<close>

definition graph_event :: "trace_event \<Rightarrow> dash \<Rightarrow> dash" where
  "graph_event ev d =
     (let d = (if last_tick d = - 1 then d\<lparr>last_tick := ev_ticks ev\<rparr> else d);
          d = (if last_tick d < ev_ticks ev
               then (graph_advance (ev_ticks ev - last_tick d) d)\<lparr>last_tick := ev_ticks ev\<rparr> else d)
      in d\<lparr>activity := (activity d)[activity_pos d := activity d ! activity_pos d + 1]\<rparr>)"

definition window_event :: "trace_event \<Rightarrow> dash \<Rightarrow> dash" where
  "window_event ev d =
     (if recent_count d < MAX_TRACE_ROWS
      then d\<lparr>recent := (recent d)[recent_count d := ev], recent_count := recent_count d + 1\<rparr>
      else d\<lparr>recent := (recent d)[recent_start d := ev],
             recent_start := (recent_start d + 1) mod MAX_TRACE_ROWS\<rparr>)"

definition draw_all :: "dash_args \<Rightarrow> dash \<Rightarrow> 'a cons_state_scheme \<Rightarrow> 'a cons_state_scheme" where
  "draw_all a d s = draw_graph 4 0 (activity d) (activity_pos d) (drawBoard a d s)"

text \<open>The body of the loop after an event was read.\<close>

definition loop_event ::
    "dash_args \<Rightarrow> cint \<Rightarrow> trace_event \<Rightarrow> dash \<times> 'a cons_state_scheme \<Rightarrow> dash \<times> 'a cons_state_scheme" where
  "loop_event a self_pid ev ds =
     (case ds of (d, s) \<Rightarrow>
        let d = (update_total_counts ev d)\<lparr>dropped := ev_overwritten ev\<rparr>
        in if \<not> want_event ev (filter_type a) (filter_pid a) self_pid then (d, s)
           else let d = window_event ev (graph_event ev (update_window_counts ev d))
                in (d\<lparr>seen := seen d + 1\<rparr>, draw_all a d s))"

text \<open>
  The body when there was no event. It asks for the time at most twice: \<open>up\<close> is the answer of
  the first call, made only in drain mode before anything was seen, \<open>now\<close> that of the second.
  The result says whether the loop is left.
\<close>

definition loop_idle ::
    "dash_args \<Rightarrow> cint \<Rightarrow> cint \<Rightarrow> dash \<times> 'a cons_state_scheme \<Rightarrow> bool \<times> dash \<times> 'a cons_state_scheme" where
  "loop_idle a up now ds =
     (case ds of (d, s) \<Rightarrow>
        if limit a = 0 \<and> 0 < recent_count d then (True, d, s)
        else if limit a = 0 \<and> seen d = 0 \<and> 10 <s up - last_tick d then (True, d, s)
        else let d = (if last_tick d = - 1 then d\<lparr>last_tick := now\<rparr> else d)
             in if last_tick d <s now
                then let d = (graph_advance (now - last_tick d) d)\<lparr>last_tick := now\<rparr>
                     in (False, d, draw_all a d s)
                else (False, d, s))"

text \<open>What a turn of the loop is told by the system, and how the loop ended.\<close>

datatype reading = Failed | Idle cint cint | Event trace_event

datatype ending = Finished | ReadFailed | Waiting

fun main_loop ::
    "dash_args \<Rightarrow> cint \<Rightarrow> reading list \<Rightarrow> dash \<times> 'a cons_state_scheme \<Rightarrow>
       ending \<times> dash \<times> 'a cons_state_scheme" where
  "main_loop a self_pid rs ds =
     (if \<not> (limit a = 0 \<or> seen (fst ds) <s limit a) then (Finished, ds)
      else case rs of
        [] \<Rightarrow> (Waiting, ds)
      | Failed # rs \<Rightarrow> (ReadFailed, ds)
      | Idle up now # rs \<Rightarrow>
          (case loop_idle a up now ds of
             (True, ds) \<Rightarrow> (Finished, ds)
           | (False, ds) \<Rightarrow> main_loop a self_pid rs ds)
      | Event ev # rs \<Rightarrow> main_loop a self_pid rs (loop_event a self_pid ev ds))"

declare main_loop.simps [simp del]

text \<open>
  \<^verbatim>\<open>main\<close>: the 25 newlines go through the console, which moves the cursor to the last text line;
  then the screen is cleared and the loop runs.
\<close>

primrec newlines :: "nat \<Rightarrow> 'a cons_state_scheme \<Rightarrow> stop + 'a cons_state_scheme" where
  "newlines 0 s = Inr s"
| "newlines (Suc n) s = andthen (consolewrite [10] s) (\<lambda>(r, s). newlines n s)"

definition trace_main ::
    "byte list list \<Rightarrow> cint \<Rightarrow> reading list \<Rightarrow> 'a cons_state_scheme \<Rightarrow>
       stop + ending \<times> dash \<times> 'a cons_state_scheme" where
  "trace_main argv self_pid rs s =
     andthen (newlines 25 s) (\<lambda>s.
       case main_loop (parse_args argv start_args) self_pid rs (start_dash, vidclear s) of
         (ReadFailed, d, s) \<Rightarrow>
           andthen (consolewrite (str (''traceread failed'' @ [CHR 0x0A])) s) (\<lambda>(r, s). Inr (ReadFailed, d, s))
       | ended \<Rightarrow> Inr ended)"

end
