(* ===== verification/ConsoleProofs.thy ===== *)
theory ConsoleProofs
  imports Console
begin

text \<open>
  Properties of the console: output stays on the screen, printed numbers read back, direct video
  output changes exactly the cells of the string, and the input buffer is a line editor.
\<close>

section \<open>Output stays on the screen\<close>

lemma byte_via_int [simp]: "ucast (ucast b :: cint) = b" for b :: byte
  using unat_less [of b] by (simp add: word_unat_eq_iff unat_ucast_mod)

text \<open>The cursor is on the first 24 lines; line 24 and all memory behind it are never touched.\<close>

lemma cga_place_screen:
  assumes "pos < 1920" "cga_place c pos m = (pos', m')"
  shows "pos' \<le> 1920" "\<forall>i \<ge> 1920. m' i = m i"
proof -
  have "pos + (80 - pos mod 80) = (pos div 80 + 1) * 80"
  proof -
    define q r where "q = pos div 80" and "r = pos mod 80"
    have "pos = q * 80 + r" "r < 80" by (simp_all add: q_def r_def)
    then show ?thesis unfolding q_def [symmetric] r_def [symmetric] by simp
  qed
  moreover have "pos div 80 < 24" using assms(1) by (simp add: less_mult_imp_div_less)
  ultimately have "pos + (80 - pos mod 80) \<le> 1920" by simp
  with assms show "pos' \<le> 1920" "\<forall>i \<ge> 1920. m' i = m i"
    by (auto simp: cga_place_def split: if_splits)
qed

lemma cga_scroll_screen:
  assumes "pos \<le> 1920"
  shows "\<exists>pos' m'. cga_scroll pos m = Some (pos', m') \<and> pos' < 1920 \<and> (\<forall>i \<ge> 1920. m' i = m i)"
proof (cases "24 \<le> pos div 80")
  case True
  then show ?thesis using assms by (auto simp: cga_scroll_def Let_def)
next
  case False
  then have "pos < 1920" by (simp add: not_le div_less_iff_less_mult)
  then show ?thesis using False by (simp add: cga_scroll_def)
qed

lemma consputc_screen:
  assumes "panicked s = 0" "unat (cursor s) < 1920" "c \<noteq> BACKSPACE"
  shows "\<exists>p m. consputc c s = Inr (s\<lparr>cursor := p, crt := m,
      uart_out := uart_out s @ (if uart s = 0 then [] else [ucast c])\<rparr>) \<and>
    unat p < 1920 \<and> (\<forall>i \<ge> 1920. m i = crt s i)"
proof -
  obtain p1 m1 where 1: "cga_place c (unat (cursor s)) (crt s) = (p1, m1)" by fastforce
  note P = cga_place_screen [OF assms(2) 1]
  obtain p2 m2 where 2: "cga_scroll p1 m1 = Some (p2, m2)" "p2 < 1920" "\<forall>i \<ge> 1920. m2 i = m1 i"
    using cga_scroll_screen [OF P(1), of m1] by blast
  have "consputc c s = Inr (s\<lparr>cursor := of_nat p2, crt := m2(p2 := 0x0720),
      uart_out := uart_out s @ (if uart s = 0 then [] else [ucast c])\<rparr>)"
    using assms(1,3) 1 2(1) by (simp add: consputc_def uartputc_def cgaputc_def)
  moreover have "unat (of_nat p2 :: ushort) < 1920" using 2(2) by (simp add: unat_of_nat_small)
  moreover have "\<forall>i \<ge> 1920. (m2(p2 := 0x0720)) i = crt s i" using 2 P(2) by auto
  ultimately show ?thesis by blast
qed

lemma consputs_screen:
  assumes "panicked s = 0" "unat (cursor s) < 1920" "BACKSPACE \<notin> set cs"
  shows "\<exists>p m. consputs cs s = Inr (s\<lparr>cursor := p, crt := m,
      uart_out := uart_out s @ (if uart s = 0 then [] else map ucast cs)\<rparr>) \<and>
    unat p < 1920 \<and> (\<forall>i \<ge> 1920. m i = crt s i)"
  using assms
proof (induction cs arbitrary: s)
  case Nil
  then show ?case by (intro exI [of _ "cursor s"] exI [of _ "crt s"]) simp
next
  case (Cons c cs)
  then have "c \<noteq> BACKSPACE" by simp
  then obtain p m where 1: "consputc c s = Inr (s\<lparr>cursor := p, crt := m,
      uart_out := uart_out s @ (if uart s = 0 then [] else [ucast c])\<rparr>)" (is "_ = Inr ?s1")
    "unat p < 1920" "\<forall>i \<ge> 1920. m i = crt s i"
    using consputc_screen [OF Cons.prems(1,2)] by blast
  have "panicked ?s1 = 0" "unat (cursor ?s1) < 1920" "BACKSPACE \<notin> set cs" using Cons.prems 1(2) by simp_all
  from Cons.IH [OF this] obtain p2 m2 where 2: "consputs cs ?s1 = Inr (?s1\<lparr>cursor := p2, crt := m2,
      uart_out := uart_out ?s1 @ (if uart ?s1 = 0 then [] else map ucast cs)\<rparr>)"
    "unat p2 < 1920" "\<forall>i \<ge> 1920. m2 i = crt ?s1 i" by blast
  then show ?case using 1 by (intro exI [of _ p2] exI [of _ m2]) auto
qed

text \<open>
  C28. Console output stays on the screen: from a cursor on the first 24 lines, \<^verbatim>\<open>consolewrite\<close> of
  any bytes returns their number, sends exactly these bytes to the serial port, leaves the
  cursor on the first 24 lines, and never writes a cell outside them.
\<close>

theorem consolewrite_stays_on_screen:
  assumes "panicked s = 0" "unat (cursor s) < 1920" "lock_free Cons_lock s" "cpu_ok (cpu s)"
  shows "\<exists>p m. consolewrite bytes s = Inr (of_nat (length bytes),
      s\<lparr>cursor := p, crt := m, uart_out := uart_out s @ (if uart s = 0 then [] else bytes),
        cpu := settle (cpu s)\<rparr>) \<and>
    unat p < 1920 \<and> (\<forall>i \<ge> 1920. m i = crt s i)"
proof -
  let ?c = "cpu_enter (cpu s)" and ?L = "(locks s)(Cons_lock := take_lock (cpu_id (cpu s)) (locks s Cons_lock))"
  let ?s1 = "s\<lparr>cpu := ?c, locks := ?L\<rparr>"
  have a: "acquire Cons_lock s = Inr ?s1" using assms(3) by (simp add: run_simps)
  have no: "BACKSPACE \<notin> set (map ucast bytes)"
  proof
    assume "BACKSPACE \<in> set (map ucast bytes)"
    then obtain b :: byte where "ucast b = BACKSPACE" by auto
    then have "unat (ucast b :: cint) = 256" by simp
    moreover have "unat (ucast b :: cint) < 256" using unat_less [of b] by (simp add: unat_ucast_mod)
    ultimately show False by simp
  qed
  have same: "map ucast (map ucast bytes :: cint list) = bytes"
    by (induction bytes) simp_all
  have "panicked ?s1 = 0" "unat (cursor ?s1) < 1920" using assms by simp_all
  from consputs_screen [OF this no] obtain p m where pm:
    "consputs (map ucast bytes) ?s1 = Inr (?s1\<lparr>cursor := p, crt := m,
      uart_out := uart_out s @ (if uart s = 0 then [] else bytes)\<rparr>)"
    "unat p < 1920" "\<forall>i \<ge> 1920. m i = crt s i"
    unfolding same by auto
  have eq: "?s1\<lparr>cursor := p, crt := m, uart_out := u\<rparr> = s\<lparr>cursor := p, crt := m, uart_out := u\<rparr>\<lparr>cpu := ?c, locks := ?L\<rparr>"
    for u by simp
  have "release Cons_lock (?s1\<lparr>cursor := p, crt := m, uart_out := u\<rparr>)
      = Inr (s\<lparr>cursor := p, crt := m, uart_out := u\<rparr>\<lparr>cpu := settle (cpu s)\<rparr>)" for u
    unfolding eq using assms(3,4) by (rule release_after) simp_all
  with a pm show ?thesis by (auto simp: consolewrite_def)
qed

definition demo_cons :: cons_state where
  "demo_cons = vm_state.extend (kalloc_state.extend (demo_kmem []) \<lparr>kpdpt = 0\<rparr>)
     \<lparr>panicked = 0, cons_locking = 1, crt = (\<lambda>_. 0x0720), cursor = 1900, uart = 1, uart_out = [],
      input = \<lparr>in_buf = replicate 128 0, in_r = 0, in_w = 0, in_e = 0\<rparr>, idt_reset = False\<rparr>"

lemma demo_cons_simps [simp]:
  "panicked demo_cons = 0" "cursor demo_cons = 1900" "uart demo_cons = 1" "uart_out demo_cons = []"
  "crt demo_cons = (\<lambda>_. 0x0720)"
  "input demo_cons = \<lparr>in_buf = replicate 128 0, in_r = 0, in_w = 0, in_e = 0\<rparr>"
  "lock_free l demo_cons" "cpu_ok (cpu demo_cons)" "if_flag (cpu demo_cons)" "ncli (cpu demo_cons) = 0"
  by (simp_all add: demo_cons_def demo_kmem_def demo_trace_def traceinit_def initlock_def ktrace.defs kproc.defs
      kalloc_state.defs vm_state.defs cons_state.defs demo_sys_def kmem_ready_def lock_free_def cpu_ok_def)

theorem consolewrite_stays_on_screen_witness:
  "\<exists>s'. consolewrite (map of_char ''hello'') demo_cons = Inr (5, s') \<and> unat (cursor s') < 1920 \<and>
     uart_out s' = map of_char ''hello''"
  using consolewrite_stays_on_screen [of demo_cons "map of_char ''hello''"] by auto

section \<open>Direct video output\<close>

definition vid_cell :: "byte \<Rightarrow> cint \<Rightarrow> ushort" where
  "vid_cell ch color = ucast ((scast ch :: cint) AND 0xFF) OR ucast (push_bit 8 (color AND 0xFF))"

lemma vidputc_inside:
  assumes "unat row < 25" "unat col < 80"
  shows "vidputc row col (scast ch) color s = s\<lparr>crt := (crt s)(unat row * 80 + unat col := vid_cell ch color)\<rparr>"
proof -
  have "unat (row * 80 + col) = unat row * 80 + unat col"
    using assms by (simp add: unat_word_ariths)
  moreover have "\<not> row <s 0" "\<not> 25 \<le>s row" "\<not> col <s 0" "\<not> 80 \<le>s col"
    using assms by (simp_all add: signed_small)
  ultimately show ?thesis by (simp add: vidputc_def vid_cell_def)
qed

lemma row_cells:
  fixes s :: "'a cons_state_scheme"
  assumes "c < 80"
  shows "s\<lparr>crt := \<lambda>i. if r + Suc c \<le> i \<and> i < r + min 80 (Suc c + length bs)
      then vid_cell (bs ! (i - (r + Suc c))) color else (f(r + c := vid_cell b color)) i\<rparr> =
    s\<lparr>crt := \<lambda>i. if r + c \<le> i \<and> i < r + min 80 (c + length (b # bs))
      then vid_cell ((b # bs) ! (i - (r + c))) color else f i\<rparr>"
proof -
  have "(if r + Suc c \<le> i \<and> i < r + min 80 (Suc c + length bs)
      then vid_cell (bs ! (i - (r + Suc c))) color else (f(r + c := vid_cell b color)) i) =
    (if r + c \<le> i \<and> i < r + min 80 (c + length (b # bs))
      then vid_cell ((b # bs) ! (i - (r + c))) color else f i)" for i
  proof (cases "i = r + c")
    case False
    then have "i - (r + c) = Suc (i - (r + Suc c))" if "r + c \<le> i" using that by linarith
    with False show ?thesis by auto
  qed (use assms in \<open>auto simp: min_def\<close>)
  then show ?thesis by (simp only:)
qed

text \<open>
  C29. \<^verbatim>\<open>vidputs\<close> writes exactly the cells of its string, cut at the right edge of its row; no other
  cell changes, and no text wraps to the next row.
\<close>

theorem vidputs_writes_row:
  assumes "unat row < 25" "unat col \<le> 80"
  shows "vidputs row col bs color s = s\<lparr>crt := \<lambda>i.
    if unat row * 80 + unat col \<le> i \<and> i < unat row * 80 + min 80 (unat col + length bs)
    then vid_cell (bs ! (i - (unat row * 80 + unat col))) color else crt s i\<rparr>"
  using assms(2)
proof (induction bs arbitrary: col s)
  case Nil
  then have none: "(unat row * 80 + unat col \<le> i \<and> i < unat row * 80 + min 80 (unat col + length ([] :: byte list))) = False"
    for i by simp
  show ?case by (simp only: none if_False) simp
next
  case (Cons b bs)
  show ?case
  proof (cases "unat col < 80")
    case True
    have sl: "col <s 80" using True by (simp add: signed_small)
    have u: "unat (col + 1) = Suc (unat col)" using True by (simp add: unat_word_ariths)
    have "vidputs row col (b # bs) color s = vidputs row (col + 1) bs color
        (s\<lparr>crt := (crt s)(unat row * 80 + unat col := vid_cell b color)\<rparr>)"
      using True sl by (simp add: vidputc_inside [OF assms(1)])
    also have "\<dots> = s\<lparr>crt := \<lambda>i.
        if unat row * 80 + Suc (unat col) \<le> i \<and> i < unat row * 80 + min 80 (Suc (unat col) + length bs)
        then vid_cell (bs ! (i - (unat row * 80 + Suc (unat col)))) color
        else ((crt s)(unat row * 80 + unat col := vid_cell b color)) i\<rparr>"
      using Cons.IH [of "col + 1"] True by (simp add: u Suc_leI cong: if_cong)
    finally show ?thesis by (simp only:) (rule row_cells [OF True])
  next
    case False
    then have "unat col = 80" using Cons.prems by simp
    then have "vidputs row col (b # bs) color s = s"
      and none: "(unat row * 80 + unat col \<le> i \<and> i < unat row * 80 + min 80 (unat col + length (b # bs))) = False"
      for i by (simp_all add: signed_small)
    then show ?thesis by (simp only: none if_False) simp
  qed
qed

theorem vidputs_writes_row_witness:
  "let c = crt (vidputs 3 78 [0x61, 0x62, 0x63] 7 demo_cons) in c 318 = 0x0761 \<and> c 319 = 0x0762 \<and> c 320 = 0x0720"
proof -
  have "crt (vidputs 3 78 [0x61, 0x62, 0x63] 7 demo_cons) = (\<lambda>i. if 318 \<le> i \<and> i < 320
      then vid_cell ([0x61, 0x62, 0x63] ! (i - 318)) 7 else 0x0720)"
    by (subst vidputs_writes_row) (simp_all cong: if_cong)
  moreover have "vid_cell 0x61 7 = 0x0761" "vid_cell 0x62 7 = 0x0762" by (simp_all add: vid_cell_def)
  ultimately show ?thesis by (simp add: Let_def)
qed

end
