(* ===== verification/DashboardProofs.thy ===== *)
theory DashboardProofs
  imports Dashboard ConsoleProofs
begin

text \<open>
  What the dashboard shows: its decimal numbers, the window of recent events as a queue that
  overwrites its oldest element, its counters, and the activity graph on the screen.
\<close>

section \<open>Decimal numbers\<close>

lemma nat_digit_byte: "k < 10 \<Longrightarrow> digits ! k = 48 + of_nat k"
proof -
  assume "k < 10"
  then have "k \<in> {0, 1, 2, 3, 4, 5, 6, 7, 8, 9}" by auto
  then show ?thesis by (auto simp: digits_def)
qed

lemma sless_zero_small: "unat (v :: cint) < 2 ^ 31 \<Longrightarrow> 0 <s v \<longleftrightarrow> 0 < unat v"
  using signed_small(1) [of 0 v] by simp

lemma itoa_digits_d_digits:
  assumes "unat v < 10 ^ n" "unat v < 2 ^ 31" "0 < unat v"
  shows "itoa_digits n v = d_digits (unat v)"
  using assms
proof (induction n arbitrary: v)
  case (Suc n)
  have dm: "unat (v div 10) = unat v div 10" "unat (v mod 10) = unat v mod 10"
    by (simp_all add: unat_div unat_mod)
  have d: "(48 :: byte) + ucast (v mod 10) = digits ! (unat v mod 10)"
    using dm(2) by (simp add: nat_digit_byte) (metis of_nat_unat)
  have rest: "itoa_digits n (v div 10) = (if unat v div 10 = 0 then [] else d_digits (unat v div 10))"
  proof (cases "unat v div 10 = 0")
    case True
    then have "v div 10 = 0" using dm(1) unat_eq_zero by metis
    then show ?thesis using True by (cases n) simp_all
  next
    case False
    have "unat (v div 10) < 10 ^ n" using Suc.prems(1) dm(1) by simp
    then show ?thesis using Suc.IH [of "v div 10"] Suc.prems False dm(1) by simp
  qed
  show ?case using Suc.prems by (simp add: sless_zero_small d rest d_digits.simps [of "unat v"])
qed simp

lemma d_digits_fold:
  "foldr (\<lambda>b n. n * 10 + ucast b - 48) (d_digits x) 0 = (of_nat x :: cint)"
proof (induction x rule: d_digits.induct)
  case (1 x)
  have u: "(ucast (digits ! (x mod 10)) :: cint) = 48 + of_nat (x mod 10)"
  proof -
    have "unat ((48 :: byte) + of_nat (x mod 10)) = 48 + x mod 10"
      by (simp add: unat_word_ariths unat_of_nat)
    then have "(ucast ((48 :: byte) + of_nat (x mod 10)) :: cint) = of_nat (48 + x mod 10)"
      by (metis of_nat_unat)
    then show ?thesis by (simp add: nat_digit_byte)
  qed
  have "(of_nat (x div 10) :: cint) * 10 + of_nat (x mod 10) = of_nat (x div 10 * 10 + x mod 10)"
    by (simp only: of_nat_add of_nat_mult of_nat_numeral)
  then have e: "(of_nat (x div 10) :: cint) * 10 + of_nat (x mod 10) = of_nat x"
    by (simp only: div_mult_mod_eq)
  show ?case
  proof (cases "x div 10 = 0")
    case True
    then have "x mod 10 = x" by (metis div_eq_0_iff mod_less zero_neq_numeral)
    then show ?thesis using True u by (simp add: d_digits.simps [of x])
  next
    case False
    then show ?thesis using 1 u e by (simp add: d_digits.simps [of x])
  qed
qed

lemma d_digits_digit: "b \<in> set (d_digits x) \<Longrightarrow> is_digit b"
proof (induction x rule: d_digits.induct)
  case (1 x)
  have "is_digit (digits ! (x mod 10))"
  proof -
    have "unat ((48 :: byte) + of_nat (x mod 10)) = 48 + x mod 10"
      by (simp add: unat_word_ariths unat_of_nat)
    then show ?thesis by (simp add: nat_digit_byte is_digit_def word_le_nat_alt)
  qed
  then show ?case using 1 by (cases "x div 10 = 0") (auto simp: d_digits.simps [of x])
qed

lemma itoa_nonneg:
  assumes "unat v < 2 ^ 31"
  shows "itoa v = rev (d_digits (unat v))"
proof (cases "v = 0")
  case True
  then show ?thesis by (simp add: itoa_def Let_def d_digits.simps digits_def)
next
  case False
  have "\<not> v <s 0" using signed_small(1) [of v 0] assms by simp
  moreover have "0 < unat v" using False unat_gt_0 by blast
  then have "itoa_digits 15 v = d_digits (unat v)" using assms by (intro itoa_digits_d_digits) simp_all
  ultimately show ?thesis using False by (simp add: itoa_def Let_def)
qed

lemma uint_sint: "uint (v :: cint) = take_bit 32 (sint v)"
proof -
  have "(word_of_int (sint v) :: cint) = v" by simp
  then have "uint v = uint (word_of_int (sint v) :: cint)" by (rule arg_cong [OF sym])
  also have "\<dots> = take_bit 32 (sint v)" by (simp only: uint_word_of_int_eq) simp
  finally show ?thesis .
qed

lemma unat_nonneg:
  fixes v :: cint
  assumes "\<not> v <s 0"
  shows "int (unat v) = sint v" "unat v < 2 ^ 31"
proof -
  have lo: "0 \<le> sint v" using assms by (simp add: word_sless_alt)
  have hi: "sint v < 2 ^ 31" using sint_lt [of v] by simp
  have "take_bit 32 (sint v) = sint v" using lo hi by (intro take_bit_int_eq_self) simp_all
  then show e: "int (unat v) = sint v" using uint_sint [of v] by simp
  then have "int (unat v) < int (2 ^ 31)" using hi by simp
  then show "unat v < 2 ^ 31" by (simp only: of_nat_less_iff)
qed

lemma unat_minus_negative:
  fixes v :: cint
  assumes "v <s 0" "v \<noteq> 0x80000000"
  shows "int (unat (- v)) = - sint v" "unat (- v) < 2 ^ 31" "0 < unat (- v)"
proof -
  have lo: "- (2 ^ 31) \<le> sint v" using sint_ge [of v] by simp
  have neg: "sint v < 0" using assms(1) by (simp add: word_sless_alt)
  have self: "v = word_of_int (sint v)" by simp
  have "sint v \<noteq> - (2 ^ 31)"
  proof
    assume "sint v = - (2 ^ 31)"
    with self have "v = word_of_int (- (2 ^ 31))" by metis
    with assms(2) show False by simp
  qed
  with lo neg have b: "0 < - sint v" "- sint v < 2 ^ 31" by linarith+
  have "- v = word_of_int (- sint v)" by simp
  then have "uint (- v) = uint (word_of_int (- sint v) :: cint)" by (rule arg_cong)
  also have "\<dots> = take_bit 32 (- sint v)" by (simp only: uint_word_of_int_eq) simp
  also have "\<dots> = - sint v" using b by (intro take_bit_int_eq_self) simp_all
  finally show e: "int (unat (- v)) = - sint v" by simp
  then have "int (unat (- v)) < int (2 ^ 31)" using b by simp
  then show "unat (- v) < 2 ^ 31" by (simp only: of_nat_less_iff)
  show "0 < unat (- v)" using e b by linarith
qed

lemma length_itoa_digits: "unat w < 10 ^ m \<Longrightarrow> length (itoa_digits n w) \<le> m"
proof (induction n w arbitrary: m rule: itoa_digits.induct)
  case (2 n w)
  show ?case
  proof (cases m)
    case 0
    then have "w = 0" using 2(2) by (simp add: unat_eq_zero)
    then show ?thesis by simp
  next
    case (Suc m')
    then have "unat (w div 10) < 10 ^ m'" using 2(2) by (simp add: unat_div)
    then show ?thesis using 2(1) Suc by simp
  qed
qed simp

lemma itoa_negative:
  assumes "v <s 0" "v \<noteq> 0x80000000"
  shows "itoa v = 45 # rev (d_digits (unat (- v)))"
proof -
  note u = unat_minus_negative [OF assms]
  have "itoa_digits 15 (- v) = d_digits (unat (- v))" using u by (intro itoa_digits_d_digits) simp_all
  moreover have "length (itoa_digits 15 (- v)) \<le> 10" using u(2) by (intro length_itoa_digits) simp
  moreover have "- v \<noteq> 0" using u(3) by auto
  ultimately show ?thesis using assms(1) by (simp add: itoa_def Let_def)
qed

lemma itoa_least: "itoa 0x80000000 = [45]"
proof -
  have "\<not> (0 :: cint) <s 0x80000000" by (simp add: word_sless_alt)
  then have "itoa_digits n (0x80000000 :: cint) = []" for n by (cases n) simp_all
  moreover have "- (0x80000000 :: cint) = 0x80000000" by (simp add: word_eq_iff_unsigned)
  moreover have "(0x80000000 :: cint) <s 0" by (simp add: word_sless_alt)
  ultimately show ?thesis unfolding itoa_def Let_def by (simp only: if_True) simp
qed

text \<open>
  C32. The dashboard's \<^verbatim>\<open>itoa\<close> prints what the kernel's \<^verbatim>\<open>print_d\<close> prints, for every integer but the
  least one, of which it prints only the sign; and \<^verbatim>\<open>atoi\<close> reads a nonnegative number back.
\<close>

theorem itoa_correct:
  "itoa v = (if v = 0x80000000 then [45] else d_text v) \<and> (0 \<le>s v \<longrightarrow> atoi_str (itoa v) = v)"
proof (intro conjI impI)
  show "itoa v = (if v = 0x80000000 then [45] else d_text v)"
  proof (cases "v <s 0")
    case True
    show ?thesis
    proof (cases "v = 0x80000000")
      case False
      have "nat (- sint v) = unat (- v)" using unat_minus_negative(1) [OF True False] by linarith
      then show ?thesis using True False itoa_negative by (simp add: d_text_def Let_def)
    qed (simp add: itoa_least)
  next
    case False
    then have "v \<noteq> 0x80000000" by (auto simp: word_sless_alt)
    moreover have "nat (sint v) = unat v" using unat_nonneg(1) [OF False] by linarith
    ultimately show ?thesis using False unat_nonneg(2) [OF False] by (simp add: d_text_def Let_def itoa_nonneg)
  qed
  assume "0 \<le>s v"
  then have n: "\<not> v <s 0" by (simp add: word_sless_alt word_sle_eq)
  have all: "takeWhile is_digit (rev (d_digits (unat v))) = rev (d_digits (unat v))"
    by (auto simp: takeWhile_eq_all_conv dest: d_digits_digit)
  show "atoi_str (itoa v) = v"
    unfolding itoa_nonneg [OF unat_nonneg(2) [OF n]] atoi_str_def all
    by (simp only: foldr_conv_fold [symmetric] d_digits_fold) simp
qed

theorem itoa_correct_witness: "atoi_str (itoa 1234) = 1234"
  by (rule itoa_correct [THEN conjunct2, THEN mp]) (simp add: word_sle_eq)

section \<open>The window of recent events\<close>

text \<open>
  \<open>wanted_event\<close> is what the loop does to the program's data for an event that passes the filter;
  \<open>event_step\<close> is a whole turn without the drawing.
\<close>

definition wanted_event :: "trace_event \<Rightarrow> dash \<Rightarrow> dash" where
  "wanted_event ev d =
     (let d = window_event ev (graph_event ev (update_window_counts ev d)) in d\<lparr>seen := seen d + 1\<rparr>)"

definition count_event :: "trace_event \<Rightarrow> dash \<Rightarrow> dash" where
  "count_event ev d = (update_total_counts ev d)\<lparr>dropped := ev_overwritten ev\<rparr>"

abbreviation wants :: "dash_args \<Rightarrow> cint \<Rightarrow> trace_event \<Rightarrow> bool" where
  "wants a self_pid ev \<equiv> want_event ev (filter_type a) (filter_pid a) self_pid"

definition event_step :: "dash_args \<Rightarrow> cint \<Rightarrow> trace_event \<Rightarrow> dash \<Rightarrow> dash" where
  "event_step a self_pid ev d =
     (if wants a self_pid ev then wanted_event ev (count_event ev d) else count_event ev d)"

lemma fst_loop_event: "fst (loop_event a self_pid ev ds) = event_step a self_pid ev (fst ds)"
  by (cases ds) (simp add: loop_event_def event_step_def wanted_event_def count_event_def Let_def)

lemma fst_fold_loop_event:
  "fst (fold (loop_event a self_pid) evs ds) = fold (event_step a self_pid) evs (fst ds)"
  by (induction evs arbitrary: ds) (simp_all add: fst_loop_event)

definition window :: "dash \<Rightarrow> trace_event list" where
  "window d = map (board_row d) [0..<recent_count d]"

definition window_inv :: "dash \<Rightarrow> bool" where
  "window_inv d \<longleftrightarrow> length (recent d) = 32 \<and> recent_count d \<le> 32 \<and> recent_start d < 32 \<and>
     (recent_count d < 32 \<longrightarrow> recent_start d = 0)"

definition evicted :: "dash \<Rightarrow> uint" where
  "evicted d = seen d - of_nat (recent_count d)"

lemma graph_tick_power_frame:
  "\<exists>act pos. (graph_tick ^^ n) d = d\<lparr>activity := act, activity_pos := pos\<rparr>"
proof (induction n)
  case 0
  have "d = d\<lparr>activity := activity d, activity_pos := activity_pos d\<rparr>" by simp
  then show ?case by (metis funpow_0)
next
  case (Suc n)
  then obtain act pos where "(graph_tick ^^ n) d = d\<lparr>activity := act, activity_pos := pos\<rparr>" by blast
  then have "(graph_tick ^^ Suc n) d =
      d\<lparr>activity := act[(pos + 1) mod 50 := 0], activity_pos := (pos + 1) mod 50\<rparr>"
    by (simp add: graph_tick_def [of "d\<lparr>activity := act, activity_pos := pos\<rparr>"] Let_def)
  then show ?case by blast
qed

lemma graph_event_frame:
  "\<exists>act pos t. graph_event ev d = d\<lparr>activity := act, activity_pos := pos, last_tick := t\<rparr>"
proof -
  define d1 where "d1 = (if last_tick d = - 1 then d\<lparr>last_tick := ev_ticks ev\<rparr> else d)"
  define t1 where "t1 = (if last_tick d = - 1 then ev_ticks ev else last_tick d)"
  have d1: "d1 = d\<lparr>last_tick := t1\<rparr>" by (simp add: d1_def t1_def)
  define d2 where "d2 = (if last_tick d1 < ev_ticks ev
    then (graph_advance (ev_ticks ev - last_tick d1) d1)\<lparr>last_tick := ev_ticks ev\<rparr> else d1)"
  obtain a2 p2 t2 where d2: "d2 = d\<lparr>activity := a2, activity_pos := p2, last_tick := t2\<rparr>"
  proof (cases "last_tick d1 < ev_ticks ev")
    case True
    obtain a2 p2 where "graph_advance (ev_ticks ev - last_tick d1) d1 = d1\<lparr>activity := a2, activity_pos := p2\<rparr>"
      using graph_tick_power_frame unfolding graph_advance_def Let_def by metis
    then have "d2 = d\<lparr>activity := a2, activity_pos := p2, last_tick := ev_ticks ev\<rparr>"
      using True by (simp add: d2_def d1)
    then show ?thesis by (rule that)
  next
    case False
    then have "d2 = d\<lparr>activity := activity d, activity_pos := activity_pos d, last_tick := t1\<rparr>"
      by (simp add: d2_def d1)
    then show ?thesis by (rule that)
  qed
  have "graph_event ev d = d2\<lparr>activity := (activity d2)[activity_pos d2 := activity d2 ! activity_pos d2 + 1]\<rparr>"
    by (simp only: graph_event_def Let_def d1_def d2_def)
  also have "\<dots> = d\<lparr>activity := a2[p2 := a2 ! p2 + 1], activity_pos := p2, last_tick := t2\<rparr>" by (simp add: d2)
  finally show ?thesis by blast
qed

lemma wanted_event_window:
  obtains act pos t where "wanted_event ev d =
    (window_event ev d)\<lparr>win_counts := update_counts ev (win_counts d), activity := act, activity_pos := pos,
       last_tick := t, seen := seen d + 1\<rparr>"
proof -
  obtain act pos t where g: "graph_event ev (update_window_counts ev d) =
      (update_window_counts ev d)\<lparr>activity := act, activity_pos := pos, last_tick := t\<rparr>"
    using graph_event_frame by blast
  have "wanted_event ev d = (window_event ev d)\<lparr>win_counts := update_counts ev (win_counts d), activity := act,
      activity_pos := pos, last_tick := t, seen := seen d + 1\<rparr>"
    unfolding wanted_event_def Let_def g by (simp add: update_window_counts_def window_event_def)
  then show thesis by (rule that)
qed

lemma window_cong:
  assumes "recent d' = recent d" "recent_count d' = recent_count d" "recent_start d' = recent_start d"
  shows "window d' = window d" "window_inv d' = window_inv d"
  using assms by (simp_all add: window_def board_row_def [abs_def] window_inv_def)

lemma window_event_inv: "window_inv d \<Longrightarrow> window_inv (window_event ev d)"
  by (auto simp: window_inv_def window_event_def)

lemma window_event_contents:
  assumes "window_inv d"
  shows "window (window_event ev d) =
    (if length (window d) = 32 then tl (window d) @ [ev] else window d @ [ev])"
proof (cases "recent_count d < 32")
  case True
  then have "recent_start d = 0" using assms by (simp add: window_inv_def)
  then show ?thesis using True assms
    by (auto simp: window_def window_inv_def board_row_def window_event_def intro!: nth_equalityI)
next
  case False
  then have c: "recent_count d = 32" "recent_start d < 32" "length (recent d) = 32"
    using assms by (auto simp: window_inv_def)
  have old: "((recent_start d + Suc 0) mod 32 + i) mod 32 = (recent_start d + Suc i) mod 32" for i
    by (simp add: mod_simps)
  have other: "(recent_start d + Suc i) mod 32 \<noteq> recent_start d" if "i < 31" for i
  proof (cases "recent_start d + Suc i < 32")
    case False
    then have "(recent_start d + Suc i) mod 32 = recent_start d + Suc i - 32"
      using c(2) that by (simp add: mod_if)
    then show ?thesis using that False by linarith
  qed simp
  have self: "(recent_start d + Suc 31) mod 32 = recent_start d" using c(2) by simp
  have "window (window_event ev d) ! i = (tl (window d) @ [ev]) ! i" if "i < 32" for i
  proof (cases "i < 31")
    case True
    then show ?thesis using c other [OF True]
      by (simp add: window_def window_event_def board_row_def nth_append nth_tl old del: add_Suc_right)
  next
    case False
    then have "i = 31" using that by simp
    then show ?thesis using c self
      by (simp add: window_def window_event_def board_row_def nth_append old del: add_Suc_right)
  qed
  then have "window (window_event ev d) = tl (window d) @ [ev]"
    using c by (intro nth_equalityI) (simp_all add: window_def window_event_def)
  then show ?thesis using c by (simp add: window_def)
qed

interpretation recent_window: overwriting_queue window window_inv wanted_event evicted 32
proof
  fix d :: dash and ev :: trace_event
  assume inv: "window_inv d"
  obtain act pos t where w: "wanted_event ev d = (window_event ev d)\<lparr>win_counts := update_counts ev (win_counts d),
      activity := act, activity_pos := pos, last_tick := t, seen := seen d + 1\<rparr>"
    by (rule wanted_event_window)
  show "window (wanted_event ev d) =
      (if length (window d) = 32 then tl (window d) @ [ev] else window d @ [ev])"
    unfolding window_event_contents [OF inv, symmetric] by (rule window_cong) (simp_all add: w)
  have "window_inv (wanted_event ev d) = window_inv (window_event ev d)"
    by (rule window_cong) (simp_all add: w)
  then show "window_inv (wanted_event ev d)" using window_event_inv [OF inv] by simp
  show "evicted (wanted_event ev d) = (if length (window d) = 32 then evicted d + 1 else evicted d)"
    using inv by (auto simp: evicted_def w window_event_def window_def window_inv_def)
  show "length (window d) \<le> 32" using inv by (simp add: window_def window_inv_def)
qed simp

lemma count_event_frame [simp]:
  "recent (count_event ev d) = recent d" "recent_count (count_event ev d) = recent_count d"
  "recent_start (count_event ev d) = recent_start d" "seen (count_event ev d) = seen d"
  "win_counts (count_event ev d) = win_counts d" "activity (count_event ev d) = activity d"
  "activity_pos (count_event ev d) = activity_pos d" "last_tick (count_event ev d) = last_tick d"
  "total_counts (count_event ev d) = update_counts ev (total_counts d)"
  "dropped (count_event ev d) = ev_overwritten ev"
  by (simp_all add: count_event_def update_total_counts_def)

lemma wanted_event_frame [simp]:
  "total_counts (wanted_event ev d) = total_counts d" "dropped (wanted_event ev d) = dropped d"
  "win_counts (wanted_event ev d) = update_counts ev (win_counts d)"
  "seen (wanted_event ev d) = seen d + 1"
  by (rule wanted_event_window [of ev d]; simp add: window_event_def)+

text \<open>The total counters do not influence the window, so counting can be moved out of the way.\<close>

definition with_totals :: "counts \<Rightarrow> cint \<Rightarrow> dash \<Rightarrow> dash" where
  "with_totals c k d = d\<lparr>total_counts := c, dropped := k\<rparr>"

lemma with_totals_simps [simp]:
  "activity (with_totals c k d) = activity d" "activity_pos (with_totals c k d) = activity_pos d"
  "last_tick (with_totals c k d) = last_tick d" "recent (with_totals c k d) = recent d"
  "recent_count (with_totals c k d) = recent_count d" "recent_start (with_totals c k d) = recent_start d"
  "win_counts (with_totals c k d) = win_counts d" "seen (with_totals c k d) = seen d"
  "(with_totals c k d)\<lparr>last_tick := t\<rparr> = with_totals c k (d\<lparr>last_tick := t\<rparr>)"
  "(with_totals c k d)\<lparr>activity := act\<rparr> = with_totals c k (d\<lparr>activity := act\<rparr>)"
  "(with_totals c k d)\<lparr>activity_pos := p\<rparr> = with_totals c k (d\<lparr>activity_pos := p\<rparr>)"
  "(with_totals c k d)\<lparr>recent := r\<rparr> = with_totals c k (d\<lparr>recent := r\<rparr>)"
  "(with_totals c k d)\<lparr>recent_count := n\<rparr> = with_totals c k (d\<lparr>recent_count := n\<rparr>)"
  "(with_totals c k d)\<lparr>recent_start := n\<rparr> = with_totals c k (d\<lparr>recent_start := n\<rparr>)"
  "(with_totals c k d)\<lparr>win_counts := w\<rparr> = with_totals c k (d\<lparr>win_counts := w\<rparr>)"
  "(with_totals c k d)\<lparr>seen := n'\<rparr> = with_totals c k (d\<lparr>seen := n'\<rparr>)"
  by (simp_all add: with_totals_def)

lemma graph_tick_totals: "(graph_tick ^^ n) (with_totals c k d) = with_totals c k ((graph_tick ^^ n) d)"
  by (induction n) (simp_all add: graph_tick_def [of "with_totals c k _"] graph_tick_def [of "(graph_tick ^^ _) d"] Let_def)

lemma wanted_event_totals: "wanted_event ev (with_totals c k d) = with_totals c k (wanted_event ev d)"
proof -
  have "graph_event ev (with_totals c k x) = with_totals c k (graph_event ev x)" for x
    by (simp add: graph_event_def Let_def graph_advance_def graph_tick_totals)
  then show ?thesis
    by (simp add: wanted_event_def Let_def update_window_counts_def window_event_def)
qed

lemma count_event_totals: "count_event ev d = with_totals (update_counts ev (total_counts d)) (ev_overwritten ev) d"
  by (simp add: count_event_def update_total_counts_def with_totals_def)

lemma fold_event_step:
  "\<exists>k. fold (event_step a p) evs d =
     with_totals (fold update_counts evs (total_counts d)) k (fold wanted_event (filter (wants a p) evs) d)"
proof (induction evs rule: rev_induct)
  case Nil
  have "d = with_totals (total_counts d) (dropped d) d" by (simp add: with_totals_def)
  then show ?case by auto
next
  case (snoc ev evs)
  then obtain k where k: "fold (event_step a p) evs d =
    with_totals (fold update_counts evs (total_counts d)) k (fold wanted_event (filter (wants a p) evs) d)" by blast
  have idem: "with_totals c' k' (with_totals c k x) = with_totals c' k' x" for c c' k k' x
    by (simp add: with_totals_def)
  have tc: "total_counts (with_totals c k x) = c" for c k x by (simp add: with_totals_def)
  show ?case using k by (auto simp: event_step_def [of a p ev] count_event_totals wanted_event_totals idem tc)
qed

text \<open>A counter counts the events of its type, modulo the width of a C \<^verbatim>\<open>int\<close>.\<close>

abbreviation of_type :: "cint \<Rightarrow> trace_event list \<Rightarrow> cint" where
  "of_type ty evs \<equiv> of_nat (length (filter (\<lambda>ev. ev_type ev = ty) evs))"

lemma fold_update_counts:
  "fold update_counts evs c = \<lparr>n_sys = n_sys c + of_type 1 evs, n_proc = n_proc c + of_type 2 evs,
     n_mem = n_mem c + of_type 4 evs, n_trap = n_trap c + of_type 3 evs\<rparr>"
  by (induction evs arbitrary: c) (auto simp: update_counts_def)

lemma fold_wanted_event:
  "win_counts (fold wanted_event evs d) = fold update_counts evs (win_counts d)"
  "seen (fold wanted_event evs d) = seen d + of_nat (length evs)"
  by (induction evs arbitrary: d) simp_all

text \<open>
  C30. After any sequence of trace events the board's window holds the last 32 events that pass the
  filter, oldest first; the counters shown for the window count every event that ever passed the
  filter, the totals count all events, and \<^verbatim>\<open>seen\<close> is the number of events that passed.
\<close>

theorem dashboard_window:
  "let d = fst (fold (loop_event a p) evs (start_dash, s));
       ws = filter (\<lambda>ev. want_event ev (filter_type a) (filter_pid a) p) evs in
    map (board_row d) [0..<recent_count d] = drop (length ws - 32) ws \<and>
    seen d = of_nat (length ws) \<and>
    win_counts d = \<lparr>n_sys = of_type 1 ws, n_proc = of_type 2 ws, n_mem = of_type 4 ws, n_trap = of_type 3 ws\<rparr> \<and>
    total_counts d = \<lparr>n_sys = of_type 1 evs, n_proc = of_type 2 evs, n_mem = of_type 4 evs, n_trap = of_type 3 evs\<rparr>"
proof -
  let ?ws = "filter (wants a p) evs"
  define d where "d = fst (fold (loop_event a p) evs (start_dash, s))"
  obtain k where k: "d = with_totals (fold update_counts evs (total_counts start_dash)) k
      (fold wanted_event ?ws start_dash)"
    using fold_event_step [of a p evs start_dash] by (auto simp: d_def fst_fold_loop_event)
  have start: "window_inv start_dash" "window start_dash = []"
    by (simp_all add: window_inv_def window_def start_dash_def)
  have "window d = window (fold wanted_event ?ws start_dash)"
    by (rule window_cong) (simp_all add: k)
  then have w: "window d = drop (length ?ws - 32) ?ws"
    using recent_window.fold_push(2) [OF start(1), of ?ws] start(2) by simp
  have "seen d = of_nat (length ?ws)" "win_counts d = fold update_counts ?ws (win_counts start_dash)"
    "total_counts d = fold update_counts evs (total_counts start_dash)"
    by (simp_all add: k fold_wanted_event) (simp_all add: with_totals_def start_dash_def)
  then show ?thesis unfolding d_def [symmetric] Let_def
    using w by (simp add: window_def fold_update_counts start_dash_def)
qed

section \<open>The activity graph\<close>

text \<open>\<open>column d j\<close> is the count of the graph's column for \<open>j\<close> ticks before the current one.\<close>

definition column :: "dash \<Rightarrow> nat \<Rightarrow> cint" where
  "column d j = activity d ! ((activity_pos d + 50 - j) mod 50)"

definition graph_inv :: "dash \<Rightarrow> bool" where
  "graph_inv d \<longleftrightarrow> length (activity d) = 50 \<and> activity_pos d < 50"

lemma column_index_inj:
  fixes p :: nat
  assumes "p < 50" "i < 50" "j < 50" "(p + 50 - i) mod 50 = (p + 50 - j) mod 50"
  shows "i = j"
proof -
  have "(p + 50 - x) mod 50 = (if x \<le> p then p - x else p + 50 - x)" if "x < 50" for x
    using assms(1) that by (auto simp: mod_if)
  then show ?thesis using assms by (auto split: if_splits)
qed

lemma graph_tick_inv: "graph_inv d \<Longrightarrow> graph_inv (graph_tick d)"
  by (simp add: graph_inv_def graph_tick_def Let_def)

lemma graph_tick_column:
  assumes "graph_inv d" "j < 50"
  shows "column (graph_tick d) j = (if j = 0 then 0 else column d (j - 1))"
proof -
  let ?p = "(activity_pos d + 1) mod 50"
  have p: "?p < 50" by simp
  have prev: "(?p + 50 - j) mod 50 = (activity_pos d + 50 - (j - 1)) mod 50" if "0 < j"
    using that assms by (auto simp: mod_if graph_inv_def)
  have "(?p + 50 - j) mod 50 \<noteq> ?p" if "0 < j"
    using column_index_inj [OF p assms(2), of 0] that by auto
  with prev show ?thesis using assms p
    by (auto simp: column_def graph_tick_def Let_def graph_inv_def)
qed

lemma graph_ticks:
  assumes "graph_inv d"
  shows "graph_inv ((graph_tick ^^ n) d)"
    "j < 50 \<Longrightarrow> column ((graph_tick ^^ n) d) j = (if j < n then 0 else column d (j - n))"
proof (induction n arbitrary: j)
  case 0
  { case 1 then show ?case using assms by simp }
  { case 2 then show ?case by simp }
next
  case (Suc n)
  { case 1 show ?case using Suc.IH(1) by (simp add: graph_tick_inv) }
  { case (2 j)
    show ?case using graph_tick_column [OF Suc.IH(1), of j] Suc.IH(2) [of "j - 1"] 2 by auto }
qed

lemma graph_advance:
  assumes "graph_inv d" "unat diff < 2 ^ 31"
  shows "graph_inv (graph_advance diff d)"
    "j < 50 \<Longrightarrow> column (graph_advance diff d) j = (if j < unat diff then 0 else column d (j - unat diff))"
proof -
  define n where "n = nat (sint (if 50 <s diff then 50 else diff))"
  have n: "n = min 50 (unat diff)"
    using assms(2) signed_small(1) [of 50 diff] by (simp add: n_def sint_small)
  have g: "graph_advance diff d = (graph_tick ^^ n) d" by (simp add: graph_advance_def Let_def n_def)
  show "graph_inv (graph_advance diff d)" unfolding g by (rule graph_ticks(1) [OF assms(1)])
  show "column (graph_advance diff d) j = (if j < unat diff then 0 else column d (j - unat diff))" if "j < 50"
    unfolding g using graph_ticks(2) [OF assms(1) that, of n] that n by auto
qed

lemma column_cong: "activity d' = activity d \<Longrightarrow> activity_pos d' = activity_pos d \<Longrightarrow> column d' = column d"
  by (simp add: column_def [abs_def])

lemma column_increment:
  assumes "graph_inv d" "j < 50"
  shows "column (d\<lparr>activity := (activity d)[activity_pos d := activity d ! activity_pos d + 1]\<rparr>) j =
    column d j + (if j = 0 then 1 else 0)"
proof -
  have "(activity_pos d + 50 - j) mod 50 \<noteq> activity_pos d" if "0 < j"
    using column_index_inj [of "activity_pos d" j 0] assms that by (auto simp: graph_inv_def)
  then show ?thesis using assms by (auto simp: column_def graph_inv_def)
qed

text \<open>An event at the time \<open>t\<close> shifts the graph by the ticks since the last one and adds one.\<close>

lemma graph_event_column:
  assumes inv: "graph_inv d" and t: "unat (ev_ticks ev) < 2 ^ 31"
    and le: "last_tick d = - 1 \<or> last_tick d \<le> ev_ticks ev"
  defines "k \<equiv> if last_tick d = - 1 then 0 else unat (ev_ticks ev) - unat (last_tick d)"
  shows "graph_inv (graph_event ev d) \<and> last_tick (graph_event ev d) = ev_ticks ev \<and>
    (\<forall>j<50. column (graph_event ev d) j = (if j < k then 0 else column d (j - k)) + (if j = 0 then 1 else 0))"
proof -
  define d1 where "d1 = (if last_tick d = - 1 then d\<lparr>last_tick := ev_ticks ev\<rparr> else d)"
  define d2 where "d2 = (if last_tick d1 < ev_ticks ev
    then (graph_advance (ev_ticks ev - last_tick d1) d1)\<lparr>last_tick := ev_ticks ev\<rparr> else d1)"
  have ge: "graph_event ev d = d2\<lparr>activity := (activity d2)[activity_pos d2 := activity d2 ! activity_pos d2 + 1]\<rparr>"
    by (simp only: graph_event_def Let_def d1_def d2_def)
  have d1: "graph_inv d1" "column d1 = column d" "last_tick d1 \<le> ev_ticks ev"
    "unat (ev_ticks ev) - unat (last_tick d1) = k"
    using inv le by (auto simp: d1_def graph_inv_def k_def intro!: column_cong)
  have diff: "unat (ev_ticks ev - last_tick d1) = k" using d1(3,4) by (simp add: unat_sub)
  then have "unat (ev_ticks ev - last_tick d1) < 2 ^ 31" using t d1(4) by simp
  note adv = graph_advance [OF d1(1) this]
  have d2: "graph_inv d2 \<and> last_tick d2 = ev_ticks ev \<and>
      (\<forall>j<50. column d2 j = (if j < k then 0 else column d (j - k)))"
  proof (cases "last_tick d1 < ev_ticks ev")
    case True
    have "column d2 = column (graph_advance (ev_ticks ev - last_tick d1) d1)"
      using True by (intro column_cong) (simp_all add: d2_def)
    then show ?thesis using True adv diff d1(2) by (simp add: d2_def graph_inv_def)
  next
    case False
    then have "last_tick d1 = ev_ticks ev" using d1(3) by simp
    then show ?thesis using False d1 by (simp add: d2_def)
  qed
  have "graph_inv (graph_event ev d)" "last_tick (graph_event ev d) = ev_ticks ev"
    using d2 by (simp_all add: ge graph_inv_def)
  moreover have "column (graph_event ev d) j = column d2 j + (if j = 0 then 1 else 0)" if "j < 50" for j
    unfolding ge using d2 that by (intro column_increment) simp_all
  ultimately show ?thesis using d2 by simp
qed

text \<open>Over events in the order of their times, a column counts the events of its tick.\<close>

definition ago :: "nat \<Rightarrow> trace_event list \<Rightarrow> cint" where
  "ago j evs = of_nat (length (filter (\<lambda>ev. unat (ev_ticks ev) + j = unat (ev_ticks (last evs))) evs))"

lemma wanted_event_graph:
  "activity (wanted_event ev d) = activity (graph_event ev (update_window_counts ev d))"
  "activity_pos (wanted_event ev d) = activity_pos (graph_event ev (update_window_counts ev d))"
  "last_tick (wanted_event ev d) = last_tick (graph_event ev (update_window_counts ev d))"
  by (simp_all add: wanted_event_def Let_def window_event_def)

lemma sorted_last_max:
  "sorted (map ev_ticks evs) \<Longrightarrow> \<forall>e \<in> set evs. ev_ticks e \<le> ev_ticks (last evs)"
  by (induction evs) auto

lemma ago_snoc:
  assumes "evs \<noteq> []" "\<forall>e \<in> set evs. ev_ticks e \<le> ev_ticks (last evs)" "ev_ticks (last evs) \<le> ev_ticks ev"
  defines "k \<equiv> unat (ev_ticks ev) - unat (ev_ticks (last evs))"
  shows "ago j (evs @ [ev]) = (if j < k then 0 else ago (j - k) evs) + (if j = 0 then 1 else 0)"
proof -
  have le: "unat (ev_ticks (last evs)) \<le> unat (ev_ticks ev)" using assms(3) by (simp add: word_le_nat_alt)
  have "filter (\<lambda>e. unat (ev_ticks e) + j = unat (ev_ticks ev)) evs =
      (if j < k then [] else filter (\<lambda>e. unat (ev_ticks e) + (j - k) = unat (ev_ticks (last evs))) evs)"
  proof (cases "j < k")
    case True
    have "unat (ev_ticks e) + j \<noteq> unat (ev_ticks ev)" if "e \<in> set evs" for e
      using assms(2) that True by (fastforce simp: word_le_nat_alt k_def)
    then show ?thesis using True by (simp add: filter_empty_conv)
  next
    case False
    then have "(n + j = unat (ev_ticks ev)) = (n + (j - k) = unat (ev_ticks (last evs)))" for n
      using le unfolding k_def by linarith
    then show ?thesis using False by simp
  qed
  then show ?thesis by (simp add: ago_def)
qed

lemma fold_wanted_graph:
  assumes "sorted (map ev_ticks evs)" "\<forall>ev \<in> set evs. unat (ev_ticks ev) < 2 ^ 31" "evs \<noteq> []"
  shows "let d = fold wanted_event evs start_dash in graph_inv d \<and> last_tick d = ev_ticks (last evs) \<and>
    (\<forall>j<50. column d j = ago j evs)"
  using assms
proof (induction evs rule: rev_induct)
  case (snoc ev evs)
  define d where "d = fold wanted_event evs start_dash"
  let ?d = "update_window_counts ev d"
  have [simp]: "activity ?d = activity d" "activity_pos ?d = activity_pos d" "last_tick ?d = last_tick d"
    by (simp_all add: update_window_counts_def)
  have col: "column ?d = column d" "column (wanted_event ev d) = column (graph_event ev ?d)"
    by (rule column_cong; simp add: wanted_event_graph)+
  have ginv: "graph_inv ?d = graph_inv d" "graph_inv (wanted_event ev d) = graph_inv (graph_event ev ?d)"
    by (simp_all add: graph_inv_def wanted_event_graph)
  have t: "unat (ev_ticks ev) < 2 ^ 31" using snoc.prems by simp
  have fd: "fold wanted_event (evs @ [ev]) start_dash = wanted_event ev d" by (simp add: d_def)
  show ?case
  proof (cases "evs = []")
    case True
    then have "graph_inv d" "last_tick d = - 1" "\<forall>j. column d j = 0"
      by (simp_all add: d_def graph_inv_def start_dash_def column_def)
    then show ?thesis using graph_event_column [of ?d ev] t True ginv
      unfolding fd by (simp add: Let_def col wanted_event_graph ago_def)
  next
    case False
    have IH: "graph_inv d" "last_tick d = ev_ticks (last evs)" "\<forall>j<50. column d j = ago j evs"
      using snoc False by (auto simp: d_def Let_def sorted_append)
    have le: "\<forall>e \<in> set evs. ev_ticks e \<le> ev_ticks (last evs)" "ev_ticks (last evs) \<le> ev_ticks ev"
      using snoc.prems(1) False sorted_last_max [of evs] by (simp_all add: sorted_append)
    have "unat (ev_ticks (last evs)) < 2 ^ 31" using snoc.prems(2) False by simp
    then have "ev_ticks (last evs) \<noteq> - 1"
      by (auto simp: unsigned_minus_1_eq_mask mask_eq_exp_minus_1)
    then show ?thesis using graph_event_column [of ?d ev] t IH ginv le(2) ago_snoc [OF False le]
      unfolding fd by (simp add: Let_def col wanted_event_graph)
  qed
qed simp

section \<open>The graph on the screen\<close>

definition bar_cell :: "cint \<Rightarrow> ushort" where
  "bar_cell n = (case graph_bar n of (bar, color) \<Rightarrow> vid_cell bar color)"

lemma vidputs_one:
  assumes "i < 80"
  shows "vidputs 5 (of_nat i) [b] color s = s\<lparr>crt := (crt s)(400 + i := vid_cell b color)\<rparr>"
proof -
  have u: "unat (of_nat i :: cint) = i" using assms by (intro unat_of_nat_small) simp
  then have "of_nat i <s (80 :: cint)" using signed_small(1) [of "of_nat i" 80] assms by simp
  then show ?thesis using vidputc_inside [of 5 "of_nat i" b color s] u assms by simp
qed

lemma draw_bars:
  assumes "n \<le> 50" "i < n"
  shows "crt (fold (\<lambda>i s. case graph_bar (act ! ((pos + 1 + i) mod 50)) of
             (bar, color) \<Rightarrow> vidputs (4 + 1) (0 + of_nat i) [bar] color s) [0..<n] s) (400 + i) =
      bar_cell (act ! ((pos + 1 + i) mod 50))"
  using assms
proof (induction n)
  case (Suc n)
  obtain b c where g: "graph_bar (act ! ((pos + 1 + n) mod 50)) = (b, c)" by fastforce
  show ?case using Suc g
    by (cases "i = n") (simp_all add: vidputs_one bar_cell_def del: vidputs.simps)
qed simp

lemma draw_graph_cells:
  "i < 50 \<Longrightarrow> crt (draw_graph 4 0 act pos s) (400 + i) = bar_cell (act ! ((pos + 1 + i) mod 50))"
  unfolding draw_graph_def by (rule draw_bars) simp_all

lemma draw_all_graph:
  assumes "graph_inv d" "i < 50"
  shows "crt (draw_all a d s) (400 + i) = bar_cell (column d (49 - i))"
proof -
  have "activity_pos d + 50 - (49 - i) = activity_pos d + 1 + i" using assms(2) by simp
  then show ?thesis unfolding draw_all_def column_def using draw_graph_cells [OF assms(2)] by simp
qed

lemma loop_event_screen:
  "snd (loop_event a p ev (d, s)) =
     (if wants a p ev then draw_all a ((event_step a p ev d)\<lparr>seen := seen d\<rparr>) s else s)"
proof -
  have "seen (count_event ev d) = seen d" by simp
  then have "(wanted_event ev (count_event ev d))\<lparr>seen := seen d\<rparr> =
      window_event ev (graph_event ev (update_window_counts ev (count_event ev d)))"
    using wanted_event_frame(4) [of ev "count_event ev d"]
    by (simp add: wanted_event_def Let_def)
  then show ?thesis
    by (simp add: loop_event_def event_step_def count_event_def Let_def)
qed

lemma fold_event_step_graph:
  "activity (fold (event_step a p) evs d) = activity (fold wanted_event (filter (wants a p) evs) d)"
  "activity_pos (fold (event_step a p) evs d) = activity_pos (fold wanted_event (filter (wants a p) evs) d)"
  using fold_event_step [of a p evs d] by auto


definition demo_read :: "uint \<Rightarrow> trace_event" where
  "demo_read t = \<lparr>ev_seq = 0, ev_ticks = t, ev_type = 1, ev_pid = 2, ev_arg0 = 5, ev_arg1 = 1, ev_arg2 = 0,
     ev_comm = replicate 16 0, ev_event = replicate 16 0, ev_overwritten = 0\<rparr>"


end
