(* ===== verification/Pipe.thy ===== *)
theory Pipe
  imports ConsoleProofs
begin

text \<open>
  \<^verbatim>\<open>pipe.c\<close>: a 512-byte ring between a writer and a reader that sleep on each other. A pipe lives
  in a page from \<^verbatim>\<open>kalloc\<close>; the store \<open>pipes\<close> maps the page's address to the structure in it.
  \<^verbatim>\<open>pipealloc\<close>, which also allocates two open files, is in \<open>File\<close>.
\<close>

section \<open>State\<close>

abbreviation (input) "PIPESIZE \<equiv> 512 :: uint"

record pipe =
  p_data :: "byte list"
  nread :: uint
  nwrite :: uint
  readopen :: cint
  writeopen :: cint

record pipe_state = cons_state +
  pipes :: "addr \<Rightarrow> pipe"

definition upd_pipe :: "addr \<Rightarrow> (pipe \<Rightarrow> pipe) \<Rightarrow> 'a pipe_state_scheme \<Rightarrow> 'a pipe_state_scheme" where
  "upd_pipe p f s = s\<lparr>pipes := (pipes s)(p := f (pipes s p))\<rparr>"

section \<open>Operations\<close>

definition pipeclose :: "addr \<Rightarrow> bool \<Rightarrow> 'a pipe_state_scheme \<Rightarrow> stop + 'a pipe_state_scheme" where
  "pipeclose p writable s =
     andthen (acquire (Pipe_lock p) s) (\<lambda>s.
     andthen (if writable then wakeup (Pipe_nread p) (upd_pipe p (\<lambda>q. q\<lparr>writeopen := 0\<rparr>) s)
              else wakeup (Pipe_nwrite p) (upd_pipe p (\<lambda>q. q\<lparr>readopen := 0\<rparr>) s)) (\<lambda>s.
     if readopen (pipes s p) = 0 \<and> writeopen (pipes s p) = 0
     then andthen (release (Pipe_lock p) s) (kfree p)
     else release (Pipe_lock p) s))"

text \<open>Storing one byte at \<^verbatim>\<open>nwrite++\<close>, and fetching one at \<^verbatim>\<open>nread++\<close>.\<close>

definition pipe_put :: "byte \<Rightarrow> pipe \<Rightarrow> pipe" where
  "pipe_put b q = q\<lparr>p_data := (p_data q)[unat (nwrite q mod PIPESIZE) := b], nwrite := nwrite q + 1\<rparr>"

definition pipe_get :: "pipe \<Rightarrow> (byte \<times> pipe) option" where
  "pipe_get q =
     (if nread q = nwrite q then None
      else Some (p_data q ! unat (nread q mod PIPESIZE), q\<lparr>nread := nread q + 1\<rparr>))"

text \<open>
  The loop of \<^verbatim>\<open>pipewrite\<close>, entered with the pipe's lock held, on the bytes still to be written.
  Where it sleeps, these bytes are what it continues with.
\<close>

fun pipewrite_loop ::
    "addr \<Rightarrow> cint \<Rightarrow> byte list \<Rightarrow> 'a pipe_state_scheme \<Rightarrow> stop + (byte list, cint) outcome \<times> 'a pipe_state_scheme" where
  "pipewrite_loop p n [] s = andthen (wakeup (Pipe_nread p) s) (returning n (Pipe_lock p))"
| "pipewrite_loop p n (b # bs) s =
     (if nwrite (pipes s p) = nread (pipes s p) + PIPESIZE then
        (if readopen (pipes s p) = 0 \<or> proc_killed s then returning (- 1) (Pipe_lock p) s
         else andthen (wakeup (Pipe_nread p) s) (sleeping (b # bs) (Pipe_nwrite p) (Pipe_lock p)))
      else pipewrite_loop p n bs (upd_pipe p (pipe_put b) s))"

definition pipewrite ::
    "addr \<Rightarrow> byte list \<Rightarrow> cint \<Rightarrow> 'a pipe_state_scheme \<Rightarrow> stop + (byte list, cint) outcome \<times> 'a pipe_state_scheme" where
  "pipewrite p src n s =
     andthen (acquire (Pipe_lock p) s) (pipewrite_loop p n (take (nat (sint n)) src))"

definition pipewrite_resume ::
    "nat \<Rightarrow> addr \<Rightarrow> cint \<Rightarrow> byte list \<Rightarrow> bool \<Rightarrow> 'a pipe_state_scheme \<Rightarrow>
       stop + (byte list, cint) outcome \<times> 'a pipe_state_scheme" where
  "pipewrite_resume i p n bs ie s = andthen (sleep_resume i (Pipe_lock p) ie s) (pipewrite_loop p n bs)"

text \<open>The copying loop of \<^verbatim>\<open>piperead\<close> fetches up to \<open>n\<close> bytes and stops when the pipe is empty.\<close>

fun piperead_copy :: "nat \<Rightarrow> pipe \<Rightarrow> byte list \<times> pipe" where
  "piperead_copy 0 q = ([], q)"
| "piperead_copy (Suc n) q =
     (case pipe_get q of
        None \<Rightarrow> ([], q)
      | Some (b, q) \<Rightarrow> (case piperead_copy n q of (bs, q) \<Rightarrow> (b # bs, q)))"

definition piperead_loop ::
    "addr \<Rightarrow> cint \<Rightarrow> 'a pipe_state_scheme \<Rightarrow> stop + (unit, cint \<times> byte list) outcome \<times> 'a pipe_state_scheme" where
  "piperead_loop p n s =
     (if nread (pipes s p) = nwrite (pipes s p) \<and> writeopen (pipes s p) \<noteq> 0 then
        (if proc_killed s then returning (- 1, []) (Pipe_lock p) s
         else sleeping () (Pipe_nread p) (Pipe_lock p) s)
      else case piperead_copy (nat (sint n)) (pipes s p) of (bs, q) \<Rightarrow>
        andthen (wakeup (Pipe_nwrite p) (upd_pipe p (\<lambda>_. q) s))
          (returning (of_nat (length bs), bs) (Pipe_lock p)))"

definition piperead ::
    "addr \<Rightarrow> cint \<Rightarrow> 'a pipe_state_scheme \<Rightarrow> stop + (unit, cint \<times> byte list) outcome \<times> 'a pipe_state_scheme" where
  "piperead p n s = andthen (acquire (Pipe_lock p) s) (piperead_loop p n)"

definition piperead_resume ::
    "nat \<Rightarrow> addr \<Rightarrow> cint \<Rightarrow> bool \<Rightarrow> 'a pipe_state_scheme \<Rightarrow>
       stop + (unit, cint \<times> byte list) outcome \<times> 'a pipe_state_scheme" where
  "piperead_resume i p n ie s = andthen (sleep_resume i (Pipe_lock p) ie s) (piperead_loop p n)"

section \<open>A pipe is a bounded queue\<close>

definition pipe_contents :: "pipe \<Rightarrow> byte list" where
  "pipe_contents q = ring_contents (p_data q) (nread q) (nwrite q)"

definition pipe_inv :: "pipe \<Rightarrow> bool" where
  "pipe_inv q \<longleftrightarrow> length (p_data q) = 512 \<and> unat (nwrite q - nread q) \<le> 512"

lemma unat_mod_512: "unat (i mod PIPESIZE) = unat i mod 512"
  by (simp add: unat_mod)

lemma pipe_put_contents:
  assumes "pipe_inv q" "length (pipe_contents q) < 512"
  shows "pipe_contents (pipe_put b q) = pipe_contents q @ [b]" "pipe_inv (pipe_put b q)"
proof -
  have l: "length (p_data q) = 512" "unat (nwrite q - nread q) < 512"
    using assms by (simp_all add: pipe_inv_def pipe_contents_def)
  show "pipe_contents (pipe_put b q) = pipe_contents q @ [b]"
    using ring_contents_write [of "p_data q" "nwrite q" "nread q" b] l
    by (simp add: pipe_contents_def pipe_put_def unat_mod_512)
  have "unat (nwrite q + 1 - nread q) = Suc (unat (nwrite q - nread q))"
    using l(2) by (intro unat_Suc_diff) simp
  then show "pipe_inv (pipe_put b q)" using l by (simp add: pipe_inv_def pipe_put_def)
qed

lemma pipe_get_contents:
  assumes "pipe_inv q" "pipe_get q = Some (b, q')"
  shows "pipe_contents q = b # pipe_contents q' \<and> pipe_inv q'"
proof -
  have ne: "nread q \<noteq> nwrite q" and b: "b = p_data q ! unat (nread q mod PIPESIZE)"
    and q': "q' = q\<lparr>nread := nread q + 1\<rparr>"
    using assms(2) by (auto simp: pipe_get_def split: if_splits)
  have c: "pipe_contents q = b # pipe_contents q'"
    using ring_contents_read [OF ne, of "p_data q"] assms(1)
    by (simp add: pipe_contents_def b q' unat_mod_512 pipe_inv_def)
  then have "length (pipe_contents q') < length (pipe_contents q)" by simp
  then have "pipe_inv q'" using assms(1) by (simp add: pipe_inv_def q' pipe_contents_def)
  with c show ?thesis by simp
qed

interpretation pipe_queue: bounded_queue pipe_contents pipe_inv pipe_put pipe_get 512
proof
  fix q :: pipe and b :: byte and q' :: pipe
  assume inv: "pipe_inv q"
  show "pipe_contents (pipe_put b q) = pipe_contents q @ [b]" if "length (pipe_contents q) < 512"
    using pipe_put_contents(1) [OF inv that] .
  show "pipe_inv (pipe_put b q)" if "length (pipe_contents q) < 512"
    using pipe_put_contents(2) [OF inv that] .
  show "(pipe_get q = None) = (pipe_contents q = [])"
    by (simp add: pipe_get_def pipe_contents_def)
  show "pipe_contents q = b # pipe_contents q' \<and> pipe_inv q'" if "pipe_get q = Some (b, q')"
    using pipe_get_contents [OF inv that] .
  show "length (pipe_contents q) \<le> 512" using inv by (simp add: pipe_inv_def pipe_contents_def)
qed

section \<open>What writers and readers do to the queue\<close>

lemma upd_pipe_simps [simp]:
  "pipes (upd_pipe p f s) = (pipes s)(p := f (pipes s p))"
  by (simp add: upd_pipe_def)

lemma wakeup_pipes [dest]: "wakeup c s = Inr s' \<Longrightarrow> pipes s' = pipes s"
  by (auto dest: wakeup_frame)

lemma returning_pipes:
  "returning r l s = Inr (out, s') \<Longrightarrow> out = Returns r \<and> pipes s' = pipes s \<and> proc_killed s' = proc_killed s"
proof -
  assume "returning r l s = Inr (out, s')"
  then have "release l s = Inr s'" "out = Returns r" by (auto simp: returning_def andthen_Inr_iff)
  with release_frame [OF this(1)] show ?thesis by (auto simp: proc_killed_def split: option.splits)
qed

lemma sleeping_pipes: "sleeping k c l s = Inr (out, s') \<Longrightarrow> \<exists>ie. out = Sleeps k ie \<and> pipes s' = pipes s"
  by (auto simp: sleeping_def andthen_Inr_iff dest: sleep_enter_frame)

lemma wakeup_returning_pipes:
  assumes "andthen (wakeup c s) (returning r l) = Inr (out, s')"
  shows "out = Returns r" "pipes s' = pipes s"
proof -
  obtain s1 where "wakeup c s = Inr s1" "returning r l s1 = Inr (out, s')"
    using assms by (auto simp: andthen_Inr_iff)
  then show "out = Returns r" "pipes s' = pipes s" using wakeup_pipes returning_pipes by metis+
qed

lemma wakeup_sleeping_pipes:
  assumes "andthen (wakeup c s) (sleeping k ch l) = Inr (out, s')"
  shows "\<exists>ie. out = Sleeps k ie" "pipes s' = pipes s"
proof -
  obtain s1 where "wakeup c s = Inr s1" "sleeping k ch l s1 = Inr (out, s')"
    using assms by (auto simp: andthen_Inr_iff)
  then show "\<exists>ie. out = Sleeps k ie" "pipes s' = pipes s" using wakeup_pipes sleeping_pipes by metis+
qed

lemma pipe_full_iff:
  assumes "pipe_inv q"
  shows "nwrite q = nread q + 512 \<longleftrightarrow> length (pipe_contents q) = 512"
proof -
  have "nwrite q = nread q + 512 \<longleftrightarrow> nwrite q - nread q = 512" by (auto simp: algebra_simps)
  also have "\<dots> \<longleftrightarrow> unat (nwrite q - nread q) = 512" by (simp add: word_unat_eq_iff)
  finally show ?thesis by (simp add: pipe_contents_def)
qed

text \<open>
  A writer appends a first part \<open>w\<close> of its bytes. It returns its count when that is all of them,
  sleeps with the rest when the pipe is full, and gives up with -1 when the pipe is full and
  nobody will read.
\<close>

definition wrote :: "addr \<Rightarrow> cint \<Rightarrow> byte list \<Rightarrow> byte list \<Rightarrow> (byte list, cint) outcome \<Rightarrow> 'a pipe_state_scheme \<Rightarrow> bool" where
  "wrote p n w rest out s' \<longleftrightarrow>
     (case out of
        Returns v \<Rightarrow> if rest = [] then v = n
          else v = - 1 \<and> length (pipe_contents (pipes s' p)) = 512 \<and> (readopen (pipes s' p) = 0 \<or> proc_killed s')
      | Sleeps k ie \<Rightarrow> k = rest \<and> rest \<noteq> [] \<and> length (pipe_contents (pipes s' p)) = 512)"

lemma pipewrite_loop_contents:
  assumes "pipewrite_loop p n bs s = Inr (out, s')" "pipe_inv (pipes s p)"
  shows "\<exists>w rest. bs = w @ rest \<and> pipe_contents (pipes s' p) = pipe_contents (pipes s p) @ w \<and>
    nwrite (pipes s' p) = nwrite (pipes s p) + of_nat (length w) \<and> pipe_inv (pipes s' p) \<and> wrote p n w rest out s'"
  using assms
proof (induction p n bs s rule: pipewrite_loop.induct)
  case (1 p n s)
  then have "out = Returns n" "pipes s' = pipes s" using wakeup_returning_pipes by auto
  then show ?case using 1(2) by (simp add: wrote_def)
next
  case (2 p n b bs s)
  show ?case
  proof (cases "nwrite (pipes s p) = nread (pipes s p) + PIPESIZE")
    case True
    then have full: "length (pipe_contents (pipes s p)) = 512" using 2(3) by (simp add: pipe_full_iff)
    have "pipes s' = pipes s \<and> (out = Returns (- 1) \<and> (readopen (pipes s p) = 0 \<or> proc_killed s') \<or>
        (\<exists>ie. out = Sleeps (b # bs) ie))"
    proof (cases "readopen (pipes s p) = 0 \<or> proc_killed s")
      case gone: True
      with True 2(2) have "returning (- 1) (Pipe_lock p) s = Inr (out, s')" by simp
      from returning_pipes [OF this] gone show ?thesis by simp
    next
      case False
      with True 2(2) have "andthen (wakeup (Pipe_nread p) s)
        (sleeping (b # bs) (Pipe_nwrite p) (Pipe_lock p)) = Inr (out, s')" by simp
      from wakeup_sleeping_pipes [OF this] show ?thesis by simp
    qed
    then show ?thesis using full 2(3)
      by (intro exI [where x = "[]"] exI [where x = "b # bs"]) (auto simp: wrote_def)
  next
    case False
    have "length (pipe_contents (pipes s p)) \<noteq> 512" using False pipe_full_iff [OF 2(3)] by blast
    then have "length (pipe_contents (pipes s p)) < 512" using pipe_queue.inv_cap [OF 2(3)] by simp
    note put = pipe_queue.contents_push [OF 2(3) this] pipe_queue.inv_push [OF 2(3) this]
    have run: "pipewrite_loop p n bs (upd_pipe p (pipe_put b) s) = Inr (out, s')" using 2(2) False by simp
    from 2(1) [OF False run] put(2) obtain w rest where
      w: "bs = w @ rest" "pipe_contents (pipes s' p) = pipe_contents (pipe_put b (pipes s p)) @ w"
      "nwrite (pipes s' p) = nwrite (pipe_put b (pipes s p)) + of_nat (length w)"
      "pipe_inv (pipes s' p)" "wrote p n w rest out s'" by auto
    have "wrote p n (b # w) rest out s'" using w(5) by (simp add: wrote_def)
    moreover have "nwrite (pipe_put b (pipes s p)) = nwrite (pipes s p) + 1" by (simp add: pipe_put_def)
    ultimately show ?thesis using put(1) w
      by (intro exI [where x = "b # w"] exI [where x = rest]) simp
  qed
qed

lemma piperead_copy_contents:
  assumes "piperead_copy n q = (bs, q')" "pipe_inv q"
  shows "bs = take n (pipe_contents q) \<and> pipe_contents q' = drop n (pipe_contents q) \<and> pipe_inv q' \<and>
    nwrite q' = nwrite q"
  using assms
proof (induction n q arbitrary: bs q' rule: piperead_copy.induct)
  case (2 n q)
  show ?case
  proof (cases "pipe_get q")
    case None
    then show ?thesis using 2(2,3) pipe_queue.pop_None [OF 2(3)] by simp
  next
    case (Some bq)
    then obtain b q1 where g: "pipe_get q = Some (b, q1)" by (cases bq) auto
    obtain bs1 q2 where c: "piperead_copy n q1 = (bs1, q2)" by fastforce
    have p: "pipe_contents q = b # pipe_contents q1" "pipe_inv q1"
      using pipe_queue.pop_Some [OF 2(3) g] by simp_all
    have "nwrite q1 = nwrite q" using g by (auto simp: pipe_get_def split: if_splits)
    moreover have "bs = b # bs1" "q' = q2" using 2(2) g c by simp_all
    ultimately show ?thesis using 2(1) [OF g refl c p(2)] p(1) by simp
  qed
qed simp

text \<open>
  A reader that does not sleep takes the oldest bytes, up to the count asked for; it comes back
  with none only when the pipe is empty and has no writer, or nothing was asked for.
\<close>

lemma piperead_loop_contents:
  assumes "piperead_loop p n s = Inr (out, s')" "pipe_inv (pipes s p)"
  shows "(\<exists>ie. out = Sleeps () ie \<and> pipes s' = pipes s \<and> pipe_contents (pipes s p) = [] \<and> writeopen (pipes s p) \<noteq> 0) \<or>
    (out = Returns (- 1, []) \<and> pipes s' = pipes s \<and> proc_killed s) \<or>
    (\<exists>bs. out = Returns (of_nat (length bs), bs) \<and> pipe_inv (pipes s' p) \<and>
       bs = take (nat (sint n)) (pipe_contents (pipes s p)) \<and>
       pipe_contents (pipes s' p) = drop (nat (sint n)) (pipe_contents (pipes s p)) \<and>
       (pipe_contents (pipes s p) = [] \<longrightarrow> writeopen (pipes s p) = 0))"
proof (cases "nread (pipes s p) = nwrite (pipes s p) \<and> writeopen (pipes s p) \<noteq> 0")
  case wait: True
  then have empty: "pipe_contents (pipes s p) = []" by (simp add: pipe_contents_def)
  show ?thesis
  proof (cases "proc_killed s")
    case True
    with wait assms(1) have "returning (- 1, []) (Pipe_lock p) s = Inr (out, s')"
      by (simp add: piperead_loop_def)
    with returning_pipes [OF this] True show ?thesis by simp
  next
    case False
    with wait assms(1) have "sleeping () (Pipe_nread p) (Pipe_lock p) s = Inr (out, s')"
      by (simp add: piperead_loop_def)
    with sleeping_pipes [OF this] wait empty show ?thesis by simp
  qed
next
  case False
  obtain bs q where c: "piperead_copy (nat (sint n)) (pipes s p) = (bs, q)" by fastforce
  with False assms(1) have "andthen (wakeup (Pipe_nwrite p) (upd_pipe p (\<lambda>_. q) s))
      (returning (of_nat (length bs), bs) (Pipe_lock p)) = Inr (out, s')"
    by (auto simp: piperead_loop_def)
  note r = wakeup_returning_pipes [OF this]
  have "pipes s' p = q" using r(2) by simp
  moreover have "pipe_contents (pipes s p) = [] \<longrightarrow> writeopen (pipes s p) = 0"
    using False by (simp add: pipe_contents_def)
  ultimately show ?thesis using piperead_copy_contents [OF c assms(2)] r(1) by simp
qed

section \<open>First in, first out\<close>

text \<open>
  The life of the pipe \<open>p\<close>: writers and readers run their critical sections in any order, started
  or resumed, and anything else may happen that leaves the pipe alone. \<open>ins\<close> collects the bytes the
  writers stored, counted by the advance of \<^verbatim>\<open>nwrite\<close>, and \<open>outs\<close> the bytes given to readers.
\<close>

inductive pipe_run ::
    "addr \<Rightarrow> 'a pipe_state_scheme \<Rightarrow> byte list \<Rightarrow> byte list \<Rightarrow> 'a pipe_state_scheme \<Rightarrow> bool" for p s where
  start: "pipe_run p s [] [] s"
| writer: "pipe_run p s ins outs s1 \<Longrightarrow> pipewrite_loop p n bs s1 = Inr (out, s2) \<Longrightarrow>
    pipe_run p s (ins @ take (unat (nwrite (pipes s2 p) - nwrite (pipes s1 p))) bs) outs s2"
| reader: "pipe_run p s ins outs s1 \<Longrightarrow> piperead_loop p n s1 = Inr (out, s2) \<Longrightarrow>
    pipe_run p s ins (outs @ (case out of Returns (v, bs) \<Rightarrow> bs | Sleeps k ie \<Rightarrow> [])) s2"
| other: "pipe_run p s ins outs s1 \<Longrightarrow> pipes s2 p = pipes s1 p \<Longrightarrow> pipe_run p s ins outs s2"

text \<open>
  C33. Through a pipe the readers get exactly the bytes the writers stored, in the same order, none
  lost and none twice; what is not read yet is in the pipe, which never holds more than 512 bytes.
  The counters may wrap.
\<close>

theorem pipe_fifo:
  assumes "pipe_run p s ins outs s'" "pipe_inv (pipes s p)"
  shows "pipe_contents (pipes s p) @ ins = outs @ pipe_contents (pipes s' p) \<and>
    length (pipe_contents (pipes s' p)) \<le> 512 \<and> pipe_inv (pipes s' p)"
  using assms
proof (induction rule: pipe_run.induct)
  case start
  then show ?case by (simp add: pipe_queue.inv_cap)
next
  case (writer ins outs s1 n bs out s2)
  then have inv: "pipe_inv (pipes s1 p)" by simp
  from pipewrite_loop_contents [OF writer(2) inv] obtain w rest where
    w: "bs = w @ rest" "pipe_contents (pipes s2 p) = pipe_contents (pipes s1 p) @ w"
    "nwrite (pipes s2 p) = nwrite (pipes s1 p) + of_nat (length w)" "pipe_inv (pipes s2 p)" by blast
  have cap: "length (pipe_contents (pipes s2 p)) \<le> 512" using pipe_queue.inv_cap [OF w(4)] .
  then have "unat (of_nat (length w) :: uint) = length w" using w(2) by (intro unat_of_nat_small) simp
  then show ?case using writer cap w by simp
next
  case (reader ins outs s1 n out s2)
  then have inv: "pipe_inv (pipes s1 p)" by simp
  have IH: "pipe_contents (pipes s p) @ ins = outs @ pipe_contents (pipes s1 p)"
    "length (pipe_contents (pipes s1 p)) \<le> 512" using reader by simp_all
  from piperead_loop_contents [OF reader(2) inv] consider
    ie where "out = Sleeps () ie" "pipes s2 = pipes s1" | "out = Returns (- 1, [])" "pipes s2 = pipes s1"
    | bs where "out = Returns (of_nat (length bs), bs)" "pipe_inv (pipes s2 p)"
      "pipe_contents (pipes s1 p) = bs @ pipe_contents (pipes s2 p)" by (metis append_take_drop_id)
  then show ?case
  proof cases
    case 3
    then show ?thesis using IH pipe_queue.inv_cap [OF 3(2)] by simp
  qed (use IH inv in simp_all)
next
  case (other ins outs s1 s2)
  then show ?case by simp
qed

definition demo_pipe :: pipe_state where
  "demo_pipe = cons_state.extend demo_cons
     \<lparr>pipes = (\<lambda>_. \<lparr>p_data = replicate 512 0, nread = 0, nwrite = 0, readopen = 1, writeopen = 1\<rparr>)\<rparr>"

lemma demo_pipe_simps [simp]:
  "lock_free l demo_pipe" "cpu_ok (cpu demo_pipe)"
  "pipes demo_pipe p = \<lparr>p_data = replicate 512 0, nread = 0, nwrite = 0, readopen = 1, writeopen = 1\<rparr>"
  by (simp_all add: demo_pipe_def demo_cons_def demo_kmem_def demo_trace_def traceinit_def initlock_def ktrace.defs
      kproc.defs kalloc_state.defs vm_state.defs cons_state.defs demo_sys_def kmem_ready_def lock_free_def cpu_ok_def)

lemma locked_demo_pipe:
  defines "s1 \<equiv> demo_pipe\<lparr>cpu := cpu_enter (cpu demo_pipe),
      locks := (locks demo_pipe)(Pipe_lock 0 := take_lock (cpu_id (cpu demo_pipe)) (locks demo_pipe (Pipe_lock 0)))\<rparr>"
  shows "acquire (Pipe_lock 0) demo_pipe = Inr s1" "\<exists>out s2. pipewrite_loop 0 2 [7, 8] s1 = Inr (out, s2)"
proof -
  show "acquire (Pipe_lock 0) demo_pipe = Inr s1" unfolding s1_def by (rule acquire_free) simp
  define t where "t = upd_pipe 0 (pipe_put 8) (upd_pipe 0 (pipe_put 7) s1)"
  have "pipewrite_loop 0 2 [7, 8] s1 = andthen (wakeup (Pipe_nread 0) t) (returning 2 (Pipe_lock 0))"
    by (simp add: s1_def t_def pipe_put_def)
  also have "wakeup (Pipe_nread 0) t = Inr ((wakeup1 (Pipe_nread 0) t)\<lparr>cpu := settle (cpu t)\<rparr>)"
    using demo_pipe_simps(1) [of Ptable_lock]
    by (intro wakeup_run) (simp_all add: t_def s1_def upd_pipe_def lock_free_def)
  finally have run: "pipewrite_loop 0 2 [7, 8] s1 =
      andthen (Inr ((wakeup1 (Pipe_nread 0) t)\<lparr>cpu := settle (cpu t)\<rparr>)) (returning 2 (Pipe_lock 0))" .
  have "release (Pipe_lock 0) ((wakeup1 (Pipe_nread 0) t)\<lparr>cpu := settle (cpu t)\<rparr>) = Inr
      ((wakeup1 (Pipe_nread 0) t)\<lparr>cpu := settle (cpu t), cpu := settle (cpu demo_pipe), locks := locks demo_pipe\<rparr>)"
    using demo_pipe_simps(1) [of "Pipe_lock 0"]
    by (intro release_taken) (simp_all add: t_def s1_def upd_pipe_def lock_free_def)
  then show "\<exists>out s2. pipewrite_loop 0 2 [7, 8] s1 = Inr (out, s2)" unfolding run by (simp add: returning_def)
qed

theorem pipe_fifo_witness:
  "\<exists>s1 s2. acquire (Pipe_lock 0) demo_pipe = Inr s1 \<and>
     (\<exists>out. pipewrite_loop 0 2 [7, 8] s1 = Inr (out, s2)) \<and>
     take (unat (nwrite (pipes s2 0))) [7, 8] = pipe_contents (pipes s2 0)"
proof -
  obtain s1 out s2 where a: "acquire (Pipe_lock 0) demo_pipe = Inr s1"
    and w: "pipewrite_loop 0 2 [7, 8] s1 = Inr (out, s2)" using locked_demo_pipe by blast
  have q: "pipes s1 0 = pipes demo_pipe 0" using acquire_frame [OF a] by auto
  have "pipe_run 0 s1 ([] @ take (unat (nwrite (pipes s2 0) - nwrite (pipes s1 0))) [7, 8]) [] s2"
    by (rule pipe_run.writer [OF pipe_run.start w])
  moreover have "pipe_inv (pipes s1 0)" by (simp add: q pipe_inv_def)
  ultimately have "pipe_contents (pipes s1 0) @ take (unat (nwrite (pipes s2 0) - nwrite (pipes s1 0))) [7, 8] =
      pipe_contents (pipes s2 0)" using pipe_fifo by fastforce
  then have "take (unat (nwrite (pipes s2 0))) [7, 8] = pipe_contents (pipes s2 0)"
    by (simp add: q pipe_contents_def ring_contents_def)
  with a w show ?thesis by blast
qed



end
