(* ===== verification/Bio.thy ===== *)
theory Bio
  imports Pipe
begin

text \<open>
  \<^verbatim>\<open>sleeplock.c\<close>, the disk of \<^verbatim>\<open>memide.c\<close>, and the buffer cache of \<^verbatim>\<open>bio.c\<close>. A sleep lock is found
  under the spin lock inside it. The cache's doubly linked list is the list of buffer indices
  from the most to the least recently used. A process that has to wait for a sleep lock is
  \<^const>\<open>Blocked\<close>. \<open>disk_writes\<close> records every block written to the disk, in order, so that the
  state of the disk after a crash can be stated.
\<close>

section \<open>State\<close>

abbreviation (input) "BSIZE \<equiv> 512 :: nat"
abbreviation (input) "NBUF \<equiv> 30 :: nat"
abbreviation (input) "B_VALID \<equiv> 2 :: cint"
abbreviation (input) "B_DIRTY \<equiv> 4 :: cint"

type_synonym block = "byte list"

record sleeplock =
  sl_locked :: uint
  sl_name :: string
  sl_pid :: cint

record buf =
  b_flags :: cint
  b_dev :: uint
  b_blockno :: uint
  b_refcnt :: uint
  b_data :: block

record disk_state = pipe_state +
  sleeplocks :: "lockid \<Rightarrow> sleeplock"
  bufs :: "nat \<Rightarrow> buf"
  bcache_list :: "nat list"
  memdisk :: "nat \<Rightarrow> block"
  disksize :: uint
  disk_writes :: "(nat \<times> block) list"

section \<open>Sleep locks\<close>

definition initsleeplock :: "lockid \<Rightarrow> string \<Rightarrow> 'a disk_state_scheme \<Rightarrow> 'a disk_state_scheme" where
  "initsleeplock lk name s =
     (initlock lk ''sleep lock'' s)
       \<lparr>sleeplocks := (sleeplocks s)(lk := \<lparr>sl_locked = 0, sl_name = name, sl_pid = 0\<rparr>)\<rparr>"

definition sl_chan :: "lockid \<Rightarrow> chan" where
  "sl_chan lk = (case lk of Inode_lk i \<Rightarrow> Inode_chan i | Buf_lk i \<Rightarrow> Buf_chan i | _ \<Rightarrow> NoChan)"

definition acquiresleep :: "lockid \<Rightarrow> 'a disk_state_scheme \<Rightarrow> stop + 'a disk_state_scheme" where
  "acquiresleep lk s =
     andthen (acquire lk s) (\<lambda>s.
       if sl_locked (sleeplocks s lk) \<noteq> 0 then Inl Blocked
       else case curproc s of
         None \<Rightarrow> Inl NullDeref
       | Some i \<Rightarrow> release lk (s\<lparr>sleeplocks := (sleeplocks s)(lk :=
           (sleeplocks s lk)\<lparr>sl_locked := 1, sl_pid := pid (ptable s ! i)\<rparr>)\<rparr>))"

definition releasesleep :: "lockid \<Rightarrow> 'a disk_state_scheme \<Rightarrow> stop + 'a disk_state_scheme" where
  "releasesleep lk s =
     andthen (acquire lk s) (\<lambda>s.
     andthen (wakeup (sl_chan lk) (s\<lparr>sleeplocks := (sleeplocks s)(lk :=
         (sleeplocks s lk)\<lparr>sl_locked := 0, sl_pid := 0\<rparr>)\<rparr>)) (release lk))"

definition holdingsleep :: "lockid \<Rightarrow> 'a disk_state_scheme \<Rightarrow> stop + uint \<times> 'a disk_state_scheme" where
  "holdingsleep lk s =
     andthen (acquire lk s) (\<lambda>s.
       let r = sl_locked (sleeplocks s lk) in andthen (release lk s) (\<lambda>s. Inr (r, s)))"

section \<open>The disk\<close>

definition upd_buf :: "nat \<Rightarrow> (buf \<Rightarrow> buf) \<Rightarrow> 'a disk_state_scheme \<Rightarrow> 'a disk_state_scheme" where
  "upd_buf i f s = s\<lparr>bufs := (bufs s)(i := f (bufs s i))\<rparr>"

definition disk_write :: "nat \<Rightarrow> block \<Rightarrow> 'a disk_state_scheme \<Rightarrow> 'a disk_state_scheme" where
  "disk_write n d s = s\<lparr>memdisk := (memdisk s)(n := d), disk_writes := disk_writes s @ [(n, d)]\<rparr>"

definition iderw :: "nat \<Rightarrow> 'a disk_state_scheme \<Rightarrow> stop + 'a disk_state_scheme" where
  "iderw i s =
     andthen (holdingsleep (Buf_lk i) s) (\<lambda>(held, s).
       let b = bufs s i
       in if held = 0 then Inl (Panic ''iderw: buf not locked'')
          else if b_flags b AND (B_VALID OR B_DIRTY) = B_VALID then Inl (Panic ''iderw: nothing to do'')
          else if b_dev b \<noteq> 1 then Inl (Panic ''iderw: request not for disk 1'')
          else if disksize s \<le> b_blockno b then Inl (Panic ''iderw: block out of range'')
          else Inr (
            if b_flags b AND B_DIRTY \<noteq> 0
            then upd_buf i (\<lambda>b. b\<lparr>b_flags := (b_flags b AND NOT B_DIRTY) OR B_VALID\<rparr>)
                   (disk_write (unat (b_blockno b)) (b_data b) s)
            else upd_buf i (\<lambda>b. b\<lparr>b_data := memdisk s (unat (b_blockno b)), b_flags := b_flags b OR B_VALID\<rparr>) s))"

section \<open>The buffer cache\<close>

text \<open>\<^verbatim>\<open>binit\<close> links each buffer in at the front, so the last one ends up first.\<close>

definition binit :: "'a disk_state_scheme \<Rightarrow> 'a disk_state_scheme" where
  "binit s =
     fold (\<lambda>i s. initsleeplock (Buf_lk i) ''buffer'' (s\<lparr>bcache_list := i # bcache_list s\<rparr>)) [0..<NBUF]
       ((initlock Bcache_lock ''bcache'' s)\<lparr>bcache_list := []\<rparr>)"

fun first_buf :: "(buf \<Rightarrow> bool) \<Rightarrow> nat list \<Rightarrow> 'a disk_state_scheme \<Rightarrow> nat option" where
  "first_buf P [] s = None"
| "first_buf P (i # is) s = (if P (bufs s i) then Some i else first_buf P is s)"

definition bget :: "uint \<Rightarrow> uint \<Rightarrow> 'a disk_state_scheme \<Rightarrow> stop + nat \<times> 'a disk_state_scheme" where
  "bget dev blockno s =
     andthen (acquire Bcache_lock s) (\<lambda>s.
       case first_buf (\<lambda>b. b_dev b = dev \<and> b_blockno b = blockno) (bcache_list s) s of
         Some i \<Rightarrow>
           andthen (release Bcache_lock (upd_buf i (\<lambda>b. b\<lparr>b_refcnt := b_refcnt b + 1\<rparr>) s)) (\<lambda>s.
           andthen (acquiresleep (Buf_lk i) s) (\<lambda>s. Inr (i, s)))
       | None \<Rightarrow>
         (case first_buf (\<lambda>b. b_refcnt b = 0 \<and> b_flags b AND B_DIRTY = 0) (rev (bcache_list s)) s of
            Some i \<Rightarrow>
              andthen (release Bcache_lock (upd_buf i (\<lambda>b. b\<lparr>b_dev := dev, b_blockno := blockno,
                  b_flags := 0, b_refcnt := 1\<rparr>) s)) (\<lambda>s.
              andthen (acquiresleep (Buf_lk i) s) (\<lambda>s. Inr (i, s)))
          | None \<Rightarrow> Inl (Panic ''bget: no buffers'')))"

definition bread :: "uint \<Rightarrow> uint \<Rightarrow> 'a disk_state_scheme \<Rightarrow> stop + nat \<times> 'a disk_state_scheme" where
  "bread dev blockno s =
     andthen (bget dev blockno s) (\<lambda>(i, s).
       if b_flags (bufs s i) AND B_VALID = 0 then andthen (iderw i s) (\<lambda>s. Inr (i, s)) else Inr (i, s))"

definition bwrite :: "nat \<Rightarrow> 'a disk_state_scheme \<Rightarrow> stop + 'a disk_state_scheme" where
  "bwrite i s =
     andthen (holdingsleep (Buf_lk i) s) (\<lambda>(held, s).
       if held = 0 then Inl (Panic ''bwrite'')
       else iderw i (upd_buf i (\<lambda>b. b\<lparr>b_flags := b_flags b OR B_DIRTY\<rparr>) s))"

definition brelse :: "nat \<Rightarrow> 'a disk_state_scheme \<Rightarrow> stop + 'a disk_state_scheme" where
  "brelse i s =
     andthen (holdingsleep (Buf_lk i) s) (\<lambda>(held, s).
       if held = 0 then Inl (Panic ''brelse'')
       else andthen (releasesleep (Buf_lk i) s) (\<lambda>s.
            andthen (acquire Bcache_lock s) (\<lambda>s.
              let s = upd_buf i (\<lambda>b. b\<lparr>b_refcnt := b_refcnt b - 1\<rparr>) s;
                  s = (if b_refcnt (bufs s i) = 0 then s\<lparr>bcache_list := i # remove1 i (bcache_list s)\<rparr> else s)
              in release Bcache_lock s)))"

definition bdata :: "nat \<Rightarrow> 'a disk_state_scheme \<Rightarrow> block" where
  "bdata i s = b_data (bufs s i)"

definition set_bdata :: "nat \<Rightarrow> block \<Rightarrow> 'a disk_state_scheme \<Rightarrow> 'a disk_state_scheme" where
  "set_bdata i d s = upd_buf i (\<lambda>b. b\<lparr>b_data := d\<rparr>) s"

end
