(* ===== verification/Log.thy ===== *)
theory Log
  imports Bio
begin

text \<open>
  \<^verbatim>\<open>log.c\<close>: the physical redo log that makes a group of file system calls atomic. The header
  block holds the number of logged blocks and their home positions as 32-bit little-endian
  integers; the blocks themselves follow it.
\<close>

section \<open>State\<close>

abbreviation (input) "LOGSIZE \<equiv> 30 :: nat"
abbreviation (input) "MAXOPBLOCKS \<equiv> 10 :: cint"

record logheader =
  lh_n :: cint
  lh_block :: "cint list"

record log =
  l_start :: cint
  l_size :: cint
  l_outstanding :: cint
  l_committing :: cint
  l_dev :: cint
  l_lh :: logheader

record log_state = disk_state +
  fslog :: log

definition upd_log :: "(log \<Rightarrow> log) \<Rightarrow> 'a log_state_scheme \<Rightarrow> 'a log_state_scheme" where
  "upd_log f s = s\<lparr>fslog := f (fslog s)\<rparr>"

definition upd_lh :: "(logheader \<Rightarrow> logheader) \<Rightarrow> 'a log_state_scheme \<Rightarrow> 'a log_state_scheme" where
  "upd_lh f s = upd_log (\<lambda>l. l\<lparr>l_lh := f (l_lh l)\<rparr>) s"

section \<open>Integers in blocks\<close>

definition encode32 :: "uint \<Rightarrow> byte list" where
  "encode32 v = [ucast v, ucast (drop_bit 8 v), ucast (drop_bit 16 v), ucast (drop_bit 24 v)]"

definition decode32 :: "byte list \<Rightarrow> uint" where
  "decode32 d =
     ucast (d ! 0) OR push_bit 8 (ucast (d ! 1)) OR push_bit 16 (ucast (d ! 2)) OR push_bit 24 (ucast (d ! 3))"

text \<open>The 32-bit field at index \<open>k\<close> of a block, and storing into it.\<close>

definition field32 :: "block \<Rightarrow> nat \<Rightarrow> uint" where
  "field32 d k = decode32 (take 4 (drop (4 * k) d))"

definition set_field32 :: "block \<Rightarrow> nat \<Rightarrow> uint \<Rightarrow> block" where
  "set_field32 d k v = take (4 * k) d @ encode32 v @ drop (4 * k + 4) d"

section \<open>The log on disk\<close>

text \<open>\<^verbatim>\<open>install_trans\<close> for the log positions in a list.\<close>

primrec install_trans_loop :: "nat list \<Rightarrow> 'a log_state_scheme \<Rightarrow> stop + 'a log_state_scheme" where
  "install_trans_loop [] s = Inr s"
| "install_trans_loop (tail # tails) s =
     andthen (bread (l_dev (fslog s)) (l_start (fslog s) + of_nat tail + 1) s) (\<lambda>(lbuf, s).
     andthen (bread (l_dev (fslog s)) (lh_block (l_lh (fslog s)) ! tail) s) (\<lambda>(dbuf, s).
     andthen (bwrite dbuf (set_bdata dbuf (bdata lbuf s) s)) (\<lambda>s.
     andthen (brelse lbuf s) (\<lambda>s.
     andthen (brelse dbuf s) (install_trans_loop tails)))))"

abbreviation log_tails :: "'a log_state_scheme \<Rightarrow> nat list" where
  "log_tails s \<equiv> [0..<nat (sint (lh_n (l_lh (fslog s))))]"

definition install_trans :: "'a log_state_scheme \<Rightarrow> stop + 'a log_state_scheme" where
  "install_trans s = install_trans_loop (log_tails s) s"

text \<open>A header with more entries than \<^verbatim>\<open>LOGSIZE\<close> would overrun the array in memory.\<close>

definition read_head :: "'a log_state_scheme \<Rightarrow> stop + 'a log_state_scheme" where
  "read_head s =
     andthen (bread (l_dev (fslog s)) (l_start (fslog s)) s) (\<lambda>(b, s).
       let d = bdata b s; n = field32 d 0
       in if of_nat LOGSIZE <s n then Inl Fault
          else brelse b (upd_lh (\<lambda>lh. lh\<lparr>lh_n := n,
                 lh_block := map (\<lambda>i. if i < nat (sint n) then field32 d (i + 1) else lh_block lh ! i) [0..<LOGSIZE]\<rparr>) s))"

definition head_block :: "logheader \<Rightarrow> block \<Rightarrow> block" where
  "head_block lh d =
     fold (\<lambda>i d. set_field32 d (i + 1) (lh_block lh ! i)) [0..<nat (sint (lh_n lh))] (set_field32 d 0 (lh_n lh))"

definition write_head :: "'a log_state_scheme \<Rightarrow> stop + 'a log_state_scheme" where
  "write_head s =
     andthen (bread (l_dev (fslog s)) (l_start (fslog s)) s) (\<lambda>(b, s).
     andthen (bwrite b (set_bdata b (head_block (l_lh (fslog s)) (bdata b s)) s)) (brelse b))"

definition recover_from_log :: "'a log_state_scheme \<Rightarrow> stop + 'a log_state_scheme" where
  "recover_from_log s =
     andthen (read_head s) (\<lambda>s.
     andthen (install_trans s) (\<lambda>s. write_head (upd_lh (\<lambda>lh. lh\<lparr>lh_n := 0\<rparr>) s)))"

section \<open>Transactions\<close>

definition begin_op :: "'a log_state_scheme \<Rightarrow> stop + 'a log_state_scheme" where
  "begin_op s =
     andthen (acquire Log_lock s) (\<lambda>s.
       let l = fslog s
       in if l_committing l \<noteq> 0 then Inl Blocked
          else if of_nat LOGSIZE <s lh_n (l_lh l) + (l_outstanding l + 1) * MAXOPBLOCKS then Inl Blocked
          else release Log_lock (upd_log (\<lambda>l. l\<lparr>l_outstanding := l_outstanding l + 1\<rparr>) s))"

primrec write_log_loop :: "nat list \<Rightarrow> 'a log_state_scheme \<Rightarrow> stop + 'a log_state_scheme" where
  "write_log_loop [] s = Inr s"
| "write_log_loop (tail # tails) s =
     andthen (bread (l_dev (fslog s)) (l_start (fslog s) + of_nat tail + 1) s) (\<lambda>(to, s).
     andthen (bread (l_dev (fslog s)) (lh_block (l_lh (fslog s)) ! tail) s) (\<lambda>(from, s).
     andthen (bwrite to (set_bdata to (bdata from s) s)) (\<lambda>s.
     andthen (brelse from s) (\<lambda>s.
     andthen (brelse to s) (write_log_loop tails)))))"

definition write_log :: "'a log_state_scheme \<Rightarrow> stop + 'a log_state_scheme" where
  "write_log s = write_log_loop (log_tails s) s"

definition commit :: "'a log_state_scheme \<Rightarrow> stop + 'a log_state_scheme" where
  "commit s =
     (if 0 <s lh_n (l_lh (fslog s)) then
        andthen (write_log s) (\<lambda>s.
        andthen (write_head s) (\<lambda>s.
        andthen (install_trans s) (\<lambda>s. write_head (upd_lh (\<lambda>lh. lh\<lparr>lh_n := 0\<rparr>) s))))
      else Inr s)"

definition end_op :: "'a log_state_scheme \<Rightarrow> stop + 'a log_state_scheme" where
  "end_op s =
     andthen (acquire Log_lock s) (\<lambda>s.
       let s = upd_log (\<lambda>l. l\<lparr>l_outstanding := l_outstanding l - 1\<rparr>) s
       in if l_committing (fslog s) \<noteq> 0 then Inl (Panic ''log.committing'')
          else if l_outstanding (fslog s) = 0 then
            andthen (release Log_lock (upd_log (\<lambda>l. l\<lparr>l_committing := 1\<rparr>) s)) (\<lambda>s.
            andthen (commit s) (\<lambda>s.
            andthen (acquire Log_lock s) (\<lambda>s.
            andthen (wakeup Log_chan (upd_log (\<lambda>l. l\<lparr>l_committing := 0\<rparr>) s)) (release Log_lock))))
          else andthen (wakeup Log_chan s) (release Log_lock))"

text \<open>The index of the first entry for the block, or the end of the list.\<close>

definition log_slot :: "uint \<Rightarrow> logheader \<Rightarrow> nat" where
  "log_slot bno lh =
     (case scan (\<lambda>b. b = bno) (take (nat (sint (lh_n lh))) (lh_block lh)) of
        Some i \<Rightarrow> i | None \<Rightarrow> nat (sint (lh_n lh)))"

definition log_write :: "nat \<Rightarrow> 'a log_state_scheme \<Rightarrow> stop + 'a log_state_scheme" where
  "log_write b s =
     (let n = lh_n (l_lh (fslog s))
      in if of_nat LOGSIZE \<le>s n \<or> l_size (fslog s) - 1 \<le>s n then Inl (Panic ''too big a transaction'')
         else if l_outstanding (fslog s) <s 1 then Inl (Panic ''log_write outside of trans'')
         else andthen (acquire Log_lock s) (\<lambda>s.
           let bno = b_blockno (bufs s b);
               i = log_slot bno (l_lh (fslog s));
               s = upd_lh (\<lambda>lh. lh\<lparr>lh_block := (lh_block lh)[i := bno],
                     lh_n := if i = nat (sint (lh_n lh)) then lh_n lh + 1 else lh_n lh\<rparr>) s
           in release Log_lock (upd_buf b (\<lambda>b. b\<lparr>b_flags := b_flags b OR B_DIRTY\<rparr>) s)))"

end
