(* ===== verification/Fs.thy ===== *)
theory Fs
  imports Log
begin

text \<open>
  \<^verbatim>\<open>fs.c\<close> up to inode contents: the super block, block allocation in the free map, the inode cache,
  and reading and writing files. An inode pointer is an index into the cache.
\<close>

section \<open>State\<close>

abbreviation (input) "NINODE \<equiv> 50 :: nat"
abbreviation (input) "NDIRECT \<equiv> 12 :: nat"
abbreviation (input) "NINDIRECT \<equiv> 128 :: nat"
abbreviation (input) "MAXFILE \<equiv> 140 :: uint"
abbreviation (input) "IPB \<equiv> 8 :: uint"
abbreviation (input) "BPB \<equiv> 4096 :: nat"
abbreviation (input) "I_VALID \<equiv> 2 :: cint"
abbreviation (input) "T_DIR \<equiv> 1 :: ushort"
abbreviation (input) "T_FILE \<equiv> 2 :: ushort"
abbreviation (input) "T_DEV \<equiv> 3 :: ushort"
abbreviation (input) "ROOTDEV \<equiv> 1 :: uint"
abbreviation (input) "ROOTINO \<equiv> 1 :: uint"

record superblock =
  sb_size :: uint
  sb_nblocks :: uint
  sb_ninodes :: uint
  sb_nlog :: uint
  sb_logstart :: uint
  sb_inodestart :: uint
  sb_bmapstart :: uint

record dinode =
  d_type :: ushort
  d_major :: ushort
  d_minor :: ushort
  d_nlink :: ushort
  d_size :: uint
  d_addrs :: "uint list"

record inode =
  i_dev :: uint
  i_inum :: uint
  i_ref :: cint
  i_flags :: cint
  i_dinode :: dinode

record fs_state = log_state +
  sb :: superblock
  inodes :: "nat \<Rightarrow> inode"

definition upd_inode :: "nat \<Rightarrow> (inode \<Rightarrow> inode) \<Rightarrow> 'a fs_state_scheme \<Rightarrow> 'a fs_state_scheme" where
  "upd_inode ip f s = s\<lparr>inodes := (inodes s)(ip := f (inodes s ip))\<rparr>"

abbreviation upd_dinode :: "nat \<Rightarrow> (dinode \<Rightarrow> dinode) \<Rightarrow> 'a fs_state_scheme \<Rightarrow> 'a fs_state_scheme" where
  "upd_dinode ip f s \<equiv> upd_inode ip (\<lambda>i. i\<lparr>i_dinode := f (i_dinode i)\<rparr>) s"

abbreviation dino :: "'a fs_state_scheme \<Rightarrow> nat \<Rightarrow> dinode" where
  "dino s ip \<equiv> i_dinode (inodes s ip)"

section \<open>Layout of structures in blocks\<close>

definition set_bytes :: "block \<Rightarrow> nat \<Rightarrow> byte list \<Rightarrow> block" where
  "set_bytes d off bs = take off d @ bs @ drop (off + length bs) d"

definition encode16 :: "ushort \<Rightarrow> byte list" where
  "encode16 v = [ucast v, ucast (drop_bit 8 v)]"

definition decode16 :: "byte list \<Rightarrow> ushort" where
  "decode16 d = ucast (d ! 0) OR push_bit 8 (ucast (d ! 1))"

definition encode_dinode :: "dinode \<Rightarrow> byte list" where
  "encode_dinode di =
     encode16 (d_type di) @ encode16 (d_major di) @ encode16 (d_minor di) @ encode16 (d_nlink di) @
     encode32 (d_size di) @ concat (map encode32 (d_addrs di))"

definition decode_dinode :: "byte list \<Rightarrow> dinode" where
  "decode_dinode d =
     \<lparr>d_type = decode16 d, d_major = decode16 (drop 2 d), d_minor = decode16 (drop 4 d),
      d_nlink = decode16 (drop 6 d), d_size = decode32 (drop 8 d),
      d_addrs = map (\<lambda>k. decode32 (drop (12 + 4 * k) d)) [0..<NDIRECT + 1]\<rparr>"

definition dinode_off :: "uint \<Rightarrow> nat" where
  "dinode_off inum = 64 * unat (inum mod IPB)"

definition IBLOCK :: "uint \<Rightarrow> superblock \<Rightarrow> uint" where
  "IBLOCK i b = i div IPB + sb_inodestart b"

definition BBLOCK :: "uint \<Rightarrow> superblock \<Rightarrow> uint" where
  "BBLOCK b sp = b div of_nat BPB + sb_bmapstart sp"

section \<open>The super block and block allocation\<close>

definition decode_superblock :: "block \<Rightarrow> superblock" where
  "decode_superblock d =
     \<lparr>sb_size = field32 d 0, sb_nblocks = field32 d 1, sb_ninodes = field32 d 2, sb_nlog = field32 d 3,
      sb_logstart = field32 d 4, sb_inodestart = field32 d 5, sb_bmapstart = field32 d 6\<rparr>"

definition readsb :: "uint \<Rightarrow> 'a log_state_scheme \<Rightarrow> stop + superblock \<times> 'a log_state_scheme" where
  "readsb dev s =
     andthen (bread dev 1 s) (\<lambda>(bp, s).
       let b = decode_superblock (bdata bp s) in andthen (brelse bp s) (\<lambda>s. Inr (b, s)))"

text \<open>\<^verbatim>\<open>initlog\<close> of \<^verbatim>\<open>log.c\<close>, which needs the super block; the header always fits in a block.\<close>

definition initlog :: "cint \<Rightarrow> 'a log_state_scheme \<Rightarrow> stop + 'a log_state_scheme" where
  "initlog dev s =
     andthen (readsb dev (initlock Log_lock ''log'' s)) (\<lambda>(b, s).
       recover_from_log (upd_log (\<lambda>l. l\<lparr>l_start := sb_logstart b, l_size := sb_nlog b, l_dev := dev\<rparr>) s))"

definition bzero :: "uint \<Rightarrow> uint \<Rightarrow> 'a log_state_scheme \<Rightarrow> stop + 'a log_state_scheme" where
  "bzero dev bno s =
     andthen (bread dev bno s) (\<lambda>(bp, s).
     andthen (log_write bp (set_bdata bp (replicate BSIZE 0) s)) (brelse bp))"

text \<open>Bit \<open>bi\<close> of a block of the free map.\<close>

definition bit_used :: "block \<Rightarrow> nat \<Rightarrow> bool" where
  "bit_used d bi = (d ! (bi div 8) AND push_bit (bi mod 8) 1 \<noteq> 0)"

definition set_used :: "block \<Rightarrow> nat \<Rightarrow> bool \<Rightarrow> block" where
  "set_used d bi u =
     d[bi div 8 := if u then d ! (bi div 8) OR push_bit (bi mod 8) 1
                   else d ! (bi div 8) AND NOT (push_bit (bi mod 8) 1)]"

text \<open>The loop of \<^verbatim>\<open>balloc\<close> over the groups of blocks that share a block of the free map.\<close>

fun balloc_loop :: "uint \<Rightarrow> nat list \<Rightarrow> 'a fs_state_scheme \<Rightarrow> stop + uint \<times> 'a fs_state_scheme" where
  "balloc_loop dev [] s = Inl (Panic ''balloc: out of blocks'')"
| "balloc_loop dev (b # bs) s =
     andthen (bread dev (BBLOCK (of_nat b) (sb s)) s) (\<lambda>(bp, s).
       case scan (\<lambda>bi. \<not> bit_used (bdata bp s) bi) [0..<min BPB (unat (sb_size (sb s)) - b)] of
         Some bi \<Rightarrow>
           andthen (log_write bp (set_bdata bp (set_used (bdata bp s) bi True) s)) (\<lambda>s.
           andthen (brelse bp s) (\<lambda>s.
           andthen (bzero dev (of_nat (b + bi)) s) (\<lambda>s. Inr (of_nat (b + bi), s))))
       | None \<Rightarrow> andthen (brelse bp s) (balloc_loop dev bs))"

definition balloc :: "uint \<Rightarrow> 'a fs_state_scheme \<Rightarrow> stop + uint \<times> 'a fs_state_scheme" where
  "balloc dev s = balloc_loop dev (map (\<lambda>k. BPB * k) [0..<(unat (sb_size (sb s)) + BPB - 1) div BPB]) s"

definition bfree :: "uint \<Rightarrow> uint \<Rightarrow> 'a fs_state_scheme \<Rightarrow> stop + 'a fs_state_scheme" where
  "bfree dev b s =
     andthen (readsb dev s) (\<lambda>(sp, s).
       let s = s\<lparr>sb := sp\<rparr>
       in andthen (bread dev (BBLOCK b sp) s) (\<lambda>(bp, s).
          let bi = unat (b mod of_nat BPB)
          in if \<not> bit_used (bdata bp s) bi then Inl (Panic ''freeing free block'')
             else andthen (log_write bp (set_bdata bp (set_used (bdata bp s) bi False) s)) (brelse bp)))"

section \<open>The inode cache\<close>

definition iinit :: "uint \<Rightarrow> 'a fs_state_scheme \<Rightarrow> stop + 'a fs_state_scheme" where
  "iinit dev s =
     andthen (readsb dev (fold (\<lambda>i. initsleeplock (Inode_lk i) ''inode'') [0..<NINODE]
               (initlock Icache_lock ''icache'' s))) (\<lambda>(sp, s). Inr (s\<lparr>sb := sp\<rparr>))"

definition iget :: "uint \<Rightarrow> uint \<Rightarrow> 'a fs_state_scheme \<Rightarrow> stop + nat \<times> 'a fs_state_scheme" where
  "iget dev inum s =
     andthen (acquire Icache_lock s) (\<lambda>s.
       case scan (\<lambda>i. 0 <s i_ref i \<and> i_dev i = dev \<and> i_inum i = inum) (map (inodes s) [0..<NINODE]) of
         Some ip \<Rightarrow>
           andthen (release Icache_lock (upd_inode ip (\<lambda>i. i\<lparr>i_ref := i_ref i + 1\<rparr>) s)) (\<lambda>s. Inr (ip, s))
       | None \<Rightarrow>
         (case scan (\<lambda>i. i_ref i = 0) (map (inodes s) [0..<NINODE]) of
            None \<Rightarrow> Inl (Panic ''iget: no inodes'')
          | Some ip \<Rightarrow>
              andthen (release Icache_lock (upd_inode ip (\<lambda>i. i\<lparr>i_dev := dev, i_inum := inum, i_ref := 1,
                 i_flags := 0\<rparr>) s)) (\<lambda>s. Inr (ip, s))))"

definition idup :: "nat \<Rightarrow> 'a fs_state_scheme \<Rightarrow> stop + nat \<times> 'a fs_state_scheme" where
  "idup ip s =
     andthen (acquire Icache_lock s) (\<lambda>s.
     andthen (release Icache_lock (upd_inode ip (\<lambda>i. i\<lparr>i_ref := i_ref i + 1\<rparr>) s)) (\<lambda>s. Inr (ip, s)))"

text \<open>\<^verbatim>\<open>ialloc\<close> clears the dinode and sets its type.\<close>

definition fresh_dinode :: "ushort \<Rightarrow> dinode" where
  "fresh_dinode ty = \<lparr>d_type = ty, d_major = 0, d_minor = 0, d_nlink = 0, d_size = 0, d_addrs = replicate 13 0\<rparr>"

fun ialloc_loop :: "uint \<Rightarrow> ushort \<Rightarrow> uint list \<Rightarrow> 'a fs_state_scheme \<Rightarrow> stop + nat \<times> 'a fs_state_scheme" where
  "ialloc_loop dev ty [] s = Inl (Panic ''ialloc: no inodes'')"
| "ialloc_loop dev ty (inum # inums) s =
     andthen (bread dev (IBLOCK inum (sb s)) s) (\<lambda>(bp, s).
       if d_type (decode_dinode (drop (dinode_off inum) (bdata bp s))) = 0
       then andthen (log_write bp (set_bdata bp (set_bytes (bdata bp s) (dinode_off inum)
                (encode_dinode (fresh_dinode ty))) s)) (\<lambda>s.
            andthen (brelse bp s) (iget dev inum))
       else andthen (brelse bp s) (ialloc_loop dev ty inums))"

definition ialloc :: "uint \<Rightarrow> ushort \<Rightarrow> 'a fs_state_scheme \<Rightarrow> stop + nat \<times> 'a fs_state_scheme" where
  "ialloc dev ty s = ialloc_loop dev ty (map of_nat [1..<unat (sb_ninodes (sb s))]) s"

definition iupdate :: "nat \<Rightarrow> 'a fs_state_scheme \<Rightarrow> stop + 'a fs_state_scheme" where
  "iupdate ip s =
     andthen (bread (i_dev (inodes s ip)) (IBLOCK (i_inum (inodes s ip)) (sb s)) s) (\<lambda>(bp, s).
     andthen (log_write bp (set_bdata bp (set_bytes (bdata bp s) (dinode_off (i_inum (inodes s ip)))
         (encode_dinode (dino s ip))) s)) (brelse bp))"

definition ilock :: "nat \<Rightarrow> 'a fs_state_scheme \<Rightarrow> stop + 'a fs_state_scheme" where
  "ilock ip s =
     (if i_ref (inodes s ip) <s 1 then Inl (Panic ''ilock'')
      else andthen (acquiresleep (Inode_lk ip) s) (\<lambda>s.
        if i_flags (inodes s ip) AND I_VALID = 0 then
          andthen (bread (i_dev (inodes s ip)) (IBLOCK (i_inum (inodes s ip)) (sb s)) s) (\<lambda>(bp, s).
            let di = decode_dinode (drop (dinode_off (i_inum (inodes s ip))) (bdata bp s))
            in andthen (brelse bp (upd_dinode ip (\<lambda>_. di) s)) (\<lambda>s.
               let s = upd_inode ip (\<lambda>i. i\<lparr>i_flags := i_flags i OR I_VALID\<rparr>) s
               in if d_type (dino s ip) = 0 then Inl (Panic ''ilock: no type'') else Inr s))
        else Inr s))"

definition iunlock :: "nat \<Rightarrow> 'a fs_state_scheme \<Rightarrow> stop + 'a fs_state_scheme" where
  "iunlock ip s =
     andthen (holdingsleep (Inode_lk ip) s) (\<lambda>(held, s).
       if held = 0 \<or> i_ref (inodes s ip) <s 1 then Inl (Panic ''iunlock'') else releasesleep (Inode_lk ip) s)"

section \<open>Blocks of a file\<close>

definition upd_addr :: "nat \<Rightarrow> nat \<Rightarrow> uint \<Rightarrow> 'a fs_state_scheme \<Rightarrow> 'a fs_state_scheme" where
  "upd_addr ip k a s = upd_dinode ip (\<lambda>di. di\<lparr>d_addrs := (d_addrs di)[k := a]\<rparr>) s"

text \<open>The address in slot \<open>k\<close> of the inode, allocated when it is 0.\<close>

definition addr_slot :: "nat \<Rightarrow> nat \<Rightarrow> 'a fs_state_scheme \<Rightarrow> stop + uint \<times> 'a fs_state_scheme" where
  "addr_slot ip k s =
     (let a = d_addrs (dino s ip) ! k
      in if a = 0 then andthen (balloc (i_dev (inodes s ip)) s) (\<lambda>(a, s). Inr (a, upd_addr ip k a s))
         else Inr (a, s))"

definition bmap :: "nat \<Rightarrow> uint \<Rightarrow> 'a fs_state_scheme \<Rightarrow> stop + uint \<times> 'a fs_state_scheme" where
  "bmap ip bn s =
     (if unat bn < NDIRECT then addr_slot ip (unat bn) s
      else let bn = unat (bn - of_nat NDIRECT)
           in if bn < NINDIRECT then
                andthen (addr_slot ip NDIRECT s) (\<lambda>(a, s).
                andthen (bread (i_dev (inodes s ip)) a s) (\<lambda>(bp, s).
                  let a = field32 (bdata bp s) bn
                  in if a = 0
                     then andthen (balloc (i_dev (inodes s ip)) s) (\<lambda>(a, s).
                          andthen (log_write bp (set_bdata bp (set_field32 (bdata bp s) bn a) s)) (\<lambda>s.
                          andthen (brelse bp s) (\<lambda>s. Inr (a, s))))
                     else andthen (brelse bp s) (\<lambda>s. Inr (a, s))))
              else Inl (Panic ''bmap: out of range''))"

primrec itrunc_direct :: "nat \<Rightarrow> nat list \<Rightarrow> 'a fs_state_scheme \<Rightarrow> stop + 'a fs_state_scheme" where
  "itrunc_direct ip [] s = Inr s"
| "itrunc_direct ip (i # is) s =
     (let a = d_addrs (dino s ip) ! i
      in andthen (if a \<noteq> 0 then andthen (bfree (i_dev (inodes s ip)) a s) (\<lambda>s. Inr (upd_addr ip i 0 s)) else Inr s)
           (itrunc_direct ip is))"

primrec itrunc_indirect :: "uint \<Rightarrow> nat \<Rightarrow> nat list \<Rightarrow> 'a fs_state_scheme \<Rightarrow> stop + 'a fs_state_scheme" where
  "itrunc_indirect dev bp [] s = Inr s"
| "itrunc_indirect dev bp (j # js) s =
     (let a = field32 (bdata bp s) j
      in andthen (if a \<noteq> 0 then bfree dev a s else Inr s) (itrunc_indirect dev bp js))"

definition itrunc :: "nat \<Rightarrow> 'a fs_state_scheme \<Rightarrow> stop + 'a fs_state_scheme" where
  "itrunc ip s =
     andthen (itrunc_direct ip [0..<NDIRECT] s) (\<lambda>s.
       let dev = i_dev (inodes s ip); a = d_addrs (dino s ip) ! NDIRECT
       in andthen (if a \<noteq> 0 then
              andthen (bread dev a s) (\<lambda>(bp, s).
              andthen (itrunc_indirect dev bp [0..<NINDIRECT] s) (\<lambda>s.
              andthen (brelse bp s) (\<lambda>s.
              andthen (bfree dev (d_addrs (dino s ip) ! NDIRECT) s) (\<lambda>s. Inr (upd_addr ip NDIRECT 0 s)))))
            else Inr s) (\<lambda>s. iupdate ip (upd_dinode ip (\<lambda>di. di\<lparr>d_size := 0\<rparr>) s)))"

definition iput :: "nat \<Rightarrow> 'a fs_state_scheme \<Rightarrow> stop + 'a fs_state_scheme" where
  "iput ip s =
     andthen (acquire Icache_lock s) (\<lambda>s.
       let i = inodes s ip
       in andthen (if i_ref i = 1 \<and> i_flags i AND I_VALID \<noteq> 0 \<and> d_nlink (i_dinode i) = 0 then
              andthen (release Icache_lock s) (\<lambda>s.
              andthen (itrunc ip s) (\<lambda>s.
              andthen (iupdate ip (upd_dinode ip (\<lambda>di. di\<lparr>d_type := 0\<rparr>) s)) (\<lambda>s.
              andthen (acquire Icache_lock s) (\<lambda>s. Inr (upd_inode ip (\<lambda>i. i\<lparr>i_flags := 0\<rparr>) s)))))
            else Inr s) (\<lambda>s.
          release Icache_lock (upd_inode ip (\<lambda>i. i\<lparr>i_ref := i_ref i - 1\<rparr>) s)))"

definition iunlockput :: "nat \<Rightarrow> 'a fs_state_scheme \<Rightarrow> stop + 'a fs_state_scheme" where
  "iunlockput ip s = andthen (iunlock ip s) (iput ip)"

end
