(* ===== verification/Dir.thy ===== *)
theory Dir
  imports Fs
begin

text \<open>
  The second half of \<^verbatim>\<open>fs.c\<close>: reading and writing the contents of an inode, directories, and path
  names. Strings are byte lists without their NUL. The only device is the console, installed in
  \<^verbatim>\<open>devsw[1]\<close> by \<^verbatim>\<open>consoleinit\<close>; its functions unlock the inode while they work.
\<close>

section \<open>Contents\<close>

record stat =
  st_type :: ushort
  st_dev :: cint
  st_ino :: uint
  st_nlink :: ushort
  st_size :: uint

definition stati :: "nat \<Rightarrow> 'a fs_state_scheme \<Rightarrow> stat" where
  "stati ip s = \<lparr>st_type = d_type (dino s ip), st_dev = i_dev (inodes s ip), st_ino = i_inum (inodes s ip),
     st_nlink = d_nlink (dino s ip), st_size = d_size (dino s ip)\<rparr>"

definition dev_read :: "nat \<Rightarrow> uint \<Rightarrow> 'a fs_state_scheme \<Rightarrow> stop + (cint \<times> byte list) \<times> 'a fs_state_scheme" where
  "dev_read ip n s =
     (if d_major (dino s ip) \<noteq> 1 then Inr ((- 1, []), s)
      else andthen (iunlock ip s) (\<lambda>s.
           andthen (consoleread n s) (\<lambda>(out, s).
             case out of
               Sleeps k ie \<Rightarrow> Inl Blocked
             | Returns r \<Rightarrow> andthen (ilock ip s) (\<lambda>s. Inr (r, s)))))"

definition dev_write :: "nat \<Rightarrow> byte list \<Rightarrow> 'a fs_state_scheme \<Rightarrow> stop + cint \<times> 'a fs_state_scheme" where
  "dev_write ip bytes s =
     (if d_major (dino s ip) \<noteq> 1 then Inr (- 1, s)
      else andthen (iunlock ip s) (\<lambda>s.
           andthen (consolewrite bytes s) (\<lambda>(r, s).
           andthen (ilock ip s) (\<lambda>s. Inr (r, s)))))"

text \<open>
  The copying loops, with \<open>left\<close> bytes to go from offset \<open>off\<close>. Each round moves at least one
  byte, to the end of a block.
\<close>

function readi_loop ::
    "nat \<Rightarrow> nat \<Rightarrow> nat \<Rightarrow> byte list \<Rightarrow> 'a fs_state_scheme \<Rightarrow> stop + byte list \<times> 'a fs_state_scheme" where
  "readi_loop ip off left acc s =
     (if left = 0 then Inr (acc, s)
      else andthen (bmap ip (of_nat (off div BSIZE)) s) (\<lambda>(a, s).
           andthen (bread (i_dev (inodes s ip)) a s) (\<lambda>(bp, s).
             let m = min left (BSIZE - off mod BSIZE);
                 bs = take m (drop (off mod BSIZE) (bdata bp s))
             in andthen (brelse bp s) (readi_loop ip (off + m) (left - m) (acc @ bs)))))"
  by pat_completeness auto
termination by (relation "measure (\<lambda>(ip, off, left, acc, s). left)") auto

definition readi ::
    "nat \<Rightarrow> uint \<Rightarrow> uint \<Rightarrow> 'a fs_state_scheme \<Rightarrow> stop + (cint \<times> byte list) \<times> 'a fs_state_scheme" where
  "readi ip off n s =
     (if d_type (dino s ip) = T_DEV then dev_read ip n s
      else let size = d_size (dino s ip)
           in if size < off \<or> off + n < off then Inr ((- 1, []), s)
              else let n = (if size < off + n then size - off else n)
                   in andthen (readi_loop ip (unat off) (unat n) [] s) (\<lambda>(bs, s). Inr ((n, bs), s)))"

function writei_loop ::
    "nat \<Rightarrow> nat \<Rightarrow> byte list \<Rightarrow> 'a fs_state_scheme \<Rightarrow> stop + 'a fs_state_scheme" where
  "writei_loop ip off src s =
     (if src = [] then Inr s
      else andthen (bmap ip (of_nat (off div BSIZE)) s) (\<lambda>(a, s).
           andthen (bread (i_dev (inodes s ip)) a s) (\<lambda>(bp, s).
             let m = min (length src) (BSIZE - off mod BSIZE)
             in andthen (log_write bp (set_bdata bp (set_bytes (bdata bp s) (off mod BSIZE) (take m src)) s)) (\<lambda>s.
                andthen (brelse bp s) (writei_loop ip (off + m) (drop m src))))))"
  by pat_completeness auto
termination by (relation "measure (\<lambda>(ip, off, src, s). length src)") auto

declare readi_loop.simps [simp del] writei_loop.simps [simp del]

text \<open>\<^verbatim>\<open>writei\<close> with \<open>n\<close> the length of \<open>src\<close>.\<close>

definition writei ::
    "nat \<Rightarrow> byte list \<Rightarrow> uint \<Rightarrow> 'a fs_state_scheme \<Rightarrow> stop + cint \<times> 'a fs_state_scheme" where
  "writei ip src off s =
     (let n = of_nat (length src)
      in if d_type (dino s ip) = T_DEV then dev_write ip src s
         else if d_size (dino s ip) < off \<or> off + n < off then Inr (- 1, s)
         else if MAXFILE * of_nat BSIZE < off + n then Inr (- 1, s)
         else andthen (writei_loop ip (unat off) src s) (\<lambda>s.
              andthen (if 0 < n \<and> d_size (dino s ip) < off + n
                       then iupdate ip (upd_dinode ip (\<lambda>di. di\<lparr>d_size := off + n\<rparr>) s) else Inr s) (\<lambda>s.
              Inr (n, s))))"

section \<open>Directories\<close>

abbreviation (input) "DIRSIZ \<equiv> 14 :: nat"

text \<open>An entry is 16 bytes: the inode number, and the name padded with NULs to 14 bytes.\<close>

definition de_inum :: "byte list \<Rightarrow> ushort" where
  "de_inum de = decode16 de"

definition de_name :: "byte list \<Rightarrow> byte list" where
  "de_name de = arr_str (take DIRSIZ (drop 2 de))"

definition namecmp :: "byte list \<Rightarrow> byte list \<Rightarrow> bool" where
  "namecmp nm t \<longleftrightarrow> arr_str (take DIRSIZ nm) = arr_str (take DIRSIZ t)"

text \<open>The offsets a scan of the directory visits.\<close>

definition dir_offs :: "uint \<Rightarrow> uint list" where
  "dir_offs n = map (\<lambda>k. of_nat (16 * k)) [0..<(unat n + 15) div 16]"

fun dirlookup_loop ::
    "nat \<Rightarrow> byte list \<Rightarrow> uint list \<Rightarrow> 'a fs_state_scheme \<Rightarrow> stop + (nat \<times> uint) option \<times> 'a fs_state_scheme" where
  "dirlookup_loop dp nm [] s = Inr (None, s)"
| "dirlookup_loop dp nm (off # offs) s =
     andthen (readi dp off 16 s) (\<lambda>((r, de), s).
       if r \<noteq> 16 then Inl (Panic ''dirlookup read'')
       else if de_inum de \<noteq> 0 \<and> namecmp nm (de_name de)
            then andthen (iget (i_dev (inodes s dp)) (ucast (de_inum de)) s) (\<lambda>(ip, s). Inr (Some (ip, off), s))
            else dirlookup_loop dp nm offs s)"

definition dirlookup ::
    "nat \<Rightarrow> byte list \<Rightarrow> 'a fs_state_scheme \<Rightarrow> stop + (nat \<times> uint) option \<times> 'a fs_state_scheme" where
  "dirlookup dp nm s =
     (if d_type (dino s dp) \<noteq> T_DIR then Inl (Panic ''dirlookup not DIR'')
      else dirlookup_loop dp nm (dir_offs (d_size (dino s dp))) s)"

text \<open>The offset of the first empty entry, or behind the last one.\<close>

fun dirlink_slot :: "nat \<Rightarrow> uint \<Rightarrow> uint list \<Rightarrow> 'a fs_state_scheme \<Rightarrow> stop + uint \<times> 'a fs_state_scheme" where
  "dirlink_slot dp end [] s = Inr (end, s)"
| "dirlink_slot dp end (off # offs) s =
     andthen (readi dp off 16 s) (\<lambda>((r, de), s).
       if r \<noteq> 16 then Inl (Panic ''dirlink read'')
       else if de_inum de = 0 then Inr (off, s) else dirlink_slot dp end offs s)"

definition dirent :: "byte list \<Rightarrow> ushort \<Rightarrow> byte list" where
  "dirent nm inum = encode16 inum @ take DIRSIZ (arr_str nm @ replicate DIRSIZ 0)"

definition dirlink :: "nat \<Rightarrow> byte list \<Rightarrow> uint \<Rightarrow> 'a fs_state_scheme \<Rightarrow> stop + cint \<times> 'a fs_state_scheme" where
  "dirlink dp nm inum s =
     andthen (dirlookup dp nm s) (\<lambda>(found, s).
       case found of
         Some (ip, off) \<Rightarrow> andthen (iput ip s) (\<lambda>s. Inr (- 1, s))
       | None \<Rightarrow>
           (let offs = dir_offs (d_size (dino s dp))
            in andthen (dirlink_slot dp (of_nat (16 * length offs)) offs s) (\<lambda>(off, s).
               andthen (writei dp (dirent nm (ucast inum)) off s) (\<lambda>(r, s).
                 if r \<noteq> 16 then Inl (Panic ''dirlink'') else Inr (0, s)))))"

section \<open>Path names\<close>

abbreviation (input) "SLASH \<equiv> 47 :: byte"

definition skipelem :: "byte list \<Rightarrow> (byte list \<times> byte list) option" where
  "skipelem path =
     (let p = dropWhile (\<lambda>c. c = SLASH) path
      in if p = [] then None
         else Some (dropWhile (\<lambda>c. c = SLASH) (dropWhile (\<lambda>c. c \<noteq> SLASH) p),
                    take DIRSIZ (takeWhile (\<lambda>c. c \<noteq> SLASH) p)))"

lemma skipelem_shorter: "skipelem path = Some (rest, nm) \<Longrightarrow> length rest < length path"
proof -
  assume a: "skipelem path = Some (rest, nm)"
  define p where "p = dropWhile (\<lambda>c. c = SLASH) path"
  have ne: "p \<noteq> []" and r: "rest = dropWhile (\<lambda>c. c = SLASH) (dropWhile (\<lambda>c. c \<noteq> SLASH) p)"
    using a by (auto simp: skipelem_def p_def Let_def split: if_splits)
  have "hd p \<noteq> SLASH" using hd_dropWhile [of "\<lambda>c. c = SLASH" path] ne by (simp add: p_def)
  then obtain c cs where p: "p = c # cs" "c \<noteq> SLASH" using ne by (cases p) auto
  have "length rest \<le> length cs"
    unfolding r p using p(2) by (simp add: le_trans [OF length_dropWhile_le] length_dropWhile_le)
  also have "\<dots> < length p" by (simp add: p)
  also have "\<dots> \<le> length path" by (simp add: p_def length_dropWhile_le)
  finally show ?thesis .
qed

text \<open>The walk of \<^verbatim>\<open>namex\<close>; it returns the inode, if any, and the last element copied to \<^verbatim>\<open>name\<close>.\<close>

function namex_loop ::
    "bool \<Rightarrow> byte list \<Rightarrow> byte list \<Rightarrow> nat \<Rightarrow> 'a fs_state_scheme \<Rightarrow>
       stop + (nat option \<times> byte list) \<times> 'a fs_state_scheme" where
  "namex_loop nameiparent path nm ip s =
     (case skipelem path of
        None \<Rightarrow>
          if nameiparent then andthen (iput ip s) (\<lambda>s. Inr ((None, nm), s)) else Inr ((Some ip, nm), s)
      | Some (path, nm) \<Rightarrow>
          andthen (ilock ip s) (\<lambda>s.
            if d_type (dino s ip) \<noteq> T_DIR then andthen (iunlockput ip s) (\<lambda>s. Inr ((None, nm), s))
            else if nameiparent \<and> path = [] then andthen (iunlock ip s) (\<lambda>s. Inr ((Some ip, nm), s))
            else andthen (dirlookup ip nm s) (\<lambda>(found, s).
              case found of
                None \<Rightarrow> andthen (iunlockput ip s) (\<lambda>s. Inr ((None, nm), s))
              | Some (child, off) \<Rightarrow> andthen (iunlockput ip s) (namex_loop nameiparent path nm child))))"
  by pat_completeness auto
termination by (relation "measure (\<lambda>(np, path, nm, ip, s). length path)") (auto dest: skipelem_shorter)

declare namex_loop.simps [simp del]

definition namex ::
    "byte list \<Rightarrow> bool \<Rightarrow> 'a fs_state_scheme \<Rightarrow> stop + (nat option \<times> byte list) \<times> 'a fs_state_scheme" where
  "namex path nameiparent s =
     andthen (if path \<noteq> [] \<and> hd path = SLASH then iget ROOTDEV ROOTINO s
              else case curproc s of
                None \<Rightarrow> Inl NullDeref
              | Some i \<Rightarrow> (case cwd (ptable s ! i) of None \<Rightarrow> Inl NullDeref | Some ip \<Rightarrow> idup ip s))
       (\<lambda>(ip, s). namex_loop nameiparent path [] ip s)"

definition namei :: "byte list \<Rightarrow> 'a fs_state_scheme \<Rightarrow> stop + nat option \<times> 'a fs_state_scheme" where
  "namei path s = andthen (namex path False s) (\<lambda>((ip, nm), s). Inr (ip, s))"

definition nameiparent ::
    "byte list \<Rightarrow> 'a fs_state_scheme \<Rightarrow> stop + (nat option \<times> byte list) \<times> 'a fs_state_scheme" where
  "nameiparent path s = namex path True s"

end
