(* ===== verification/File.thy ===== *)
theory File
  imports Dir
begin

text \<open>
  \<^verbatim>\<open>file.c\<close>: the table of open files, shared by all processes, and reading and writing through
  an open file; with \<^verbatim>\<open>pipealloc\<close> of \<^verbatim>\<open>pipe.c\<close>, which opens two of them. A file pointer is an
  index into the table. Data moves as byte lists; the pieces of a write go in transactions of
  their own.
\<close>

section \<open>State\<close>

abbreviation (input) "NFILE \<equiv> 100 :: nat"

datatype fdtype = FD_NONE | FD_PIPE | FD_INODE

record openfile =
  f_type :: fdtype
  f_ref :: cint
  f_readable :: byte
  f_writable :: byte
  f_pipe :: addr
  f_ip :: nat
  f_off :: uint

record file_state = fs_state +
  ftable :: "nat \<Rightarrow> openfile"

definition upd_file :: "nat \<Rightarrow> (openfile \<Rightarrow> openfile) \<Rightarrow> 'a file_state_scheme \<Rightarrow> 'a file_state_scheme" where
  "upd_file i f s = s\<lparr>ftable := (ftable s)(i := f (ftable s i))\<rparr>"

section \<open>The table\<close>

definition fileinit :: "'a file_state_scheme \<Rightarrow> 'a file_state_scheme" where
  "fileinit s = initlock Ftable_lock ''ftable'' s"

definition filealloc :: "'a file_state_scheme \<Rightarrow> stop + nat option \<times> 'a file_state_scheme" where
  "filealloc s =
     andthen (acquire Ftable_lock s) (\<lambda>s.
       case scan (\<lambda>f. f_ref f = 0) (map (ftable s) [0..<NFILE]) of
         Some i \<Rightarrow>
           andthen (release Ftable_lock (upd_file i (\<lambda>f. f\<lparr>f_ref := 1\<rparr>) s)) (\<lambda>s. Inr (Some i, s))
       | None \<Rightarrow> andthen (release Ftable_lock s) (\<lambda>s. Inr (None, s)))"

definition filedup :: "nat \<Rightarrow> 'a file_state_scheme \<Rightarrow> stop + nat \<times> 'a file_state_scheme" where
  "filedup i s =
     andthen (acquire Ftable_lock s) (\<lambda>s.
       if f_ref (ftable s i) <s 1 then Inl (Panic ''filedup'')
       else andthen (release Ftable_lock (upd_file i (\<lambda>f. f\<lparr>f_ref := f_ref f + 1\<rparr>) s)) (\<lambda>s. Inr (i, s)))"

text \<open>What closing the last reference does to the pipe or inode behind a file.\<close>

definition close_target :: "openfile \<Rightarrow> 'a file_state_scheme \<Rightarrow> stop + 'a file_state_scheme" where
  "close_target ff s =
     (case f_type ff of
        FD_PIPE \<Rightarrow> pipeclose (f_pipe ff) (f_writable ff \<noteq> 0) s
      | FD_INODE \<Rightarrow> andthen (begin_op s) (\<lambda>s. andthen (iput (f_ip ff) s) end_op)
      | FD_NONE \<Rightarrow> Inr s)"

definition fileclose :: "nat \<Rightarrow> 'a file_state_scheme \<Rightarrow> stop + 'a file_state_scheme" where
  "fileclose i s =
     andthen (acquire Ftable_lock s) (\<lambda>s.
       if f_ref (ftable s i) <s 1 then Inl (Panic ''fileclose'')
       else let s = upd_file i (\<lambda>f. f\<lparr>f_ref := f_ref f - 1\<rparr>) s
            in if 0 <s f_ref (ftable s i) then release Ftable_lock s
               else let ff = ftable s i
                    in andthen (release Ftable_lock (upd_file i (\<lambda>f. f\<lparr>f_ref := 0, f_type := FD_NONE\<rparr>) s))
                         (close_target ff))"

section \<open>Reading and writing\<close>

definition filestat :: "nat \<Rightarrow> 'a file_state_scheme \<Rightarrow> stop + stat option \<times> 'a file_state_scheme" where
  "filestat i s =
     (if f_type (ftable s i) = FD_INODE then
        andthen (ilock (f_ip (ftable s i)) s) (\<lambda>s.
          let st = stati (f_ip (ftable s i)) s
          in andthen (iunlock (f_ip (ftable s i)) s) (\<lambda>s. Inr (Some st, s)))
      else Inr (None, s))"

definition fileread ::
    "nat \<Rightarrow> cint \<Rightarrow> 'a file_state_scheme \<Rightarrow> stop + (unit, cint \<times> byte list) outcome \<times> 'a file_state_scheme" where
  "fileread i n s =
     (let f = ftable s i
      in if f_readable f = 0 then Inr (Returns (- 1, []), s)
         else case f_type f of
           FD_PIPE \<Rightarrow> piperead (f_pipe f) n s
         | FD_INODE \<Rightarrow>
             andthen (ilock (f_ip f) s) (\<lambda>s.
             andthen (readi (f_ip f) (f_off (ftable s i)) n s) (\<lambda>((r, bs), s).
               let s = (if 0 <s r then upd_file i (\<lambda>f. f\<lparr>f_off := f_off f + r\<rparr>) s else s)
               in andthen (iunlock (f_ip f) s) (\<lambda>s. Inr (Returns (r, bs), s))))
         | FD_NONE \<Rightarrow> Inl (Panic ''fileread''))"

text \<open>\<^verbatim>\<open>max\<close> in \<^verbatim>\<open>filewrite\<close>: \<^verbatim>\<open>((LOGSIZE-1-1-2) / 2) * 512\<close>.\<close>

definition max_piece :: nat where
  "max_piece = ((LOGSIZE - 1 - 1 - 2) div 2) * 512"

text \<open>
  The loop of \<^verbatim>\<open>filewrite\<close> on the bytes still to be written. It returns whether all of them were;
  a piece that \<^verbatim>\<open>writei\<close> refuses ends it early.
\<close>

function filewrite_loop :: "nat \<Rightarrow> byte list \<Rightarrow> 'a file_state_scheme \<Rightarrow> stop + bool \<times> 'a file_state_scheme" where
  "filewrite_loop i src s =
     (if src = [] then Inr (True, s)
      else let n1 = min (length src) max_piece; ip = f_ip (ftable s i)
           in andthen (begin_op s) (\<lambda>s.
              andthen (ilock ip s) (\<lambda>s.
              andthen (writei ip (take n1 src) (f_off (ftable s i)) s) (\<lambda>(r, s).
                let s = (if 0 <s r then upd_file i (\<lambda>f. f\<lparr>f_off := f_off f + r\<rparr>) s else s)
                in andthen (iunlock ip s) (\<lambda>s.
                   andthen (end_op s) (\<lambda>s.
                     if r <s 0 then Inr (False, s)
                     else if r \<noteq> of_nat n1 then Inl (Panic ''short filewrite'')
                     else filewrite_loop i (drop n1 src) s))))))"
  by pat_completeness auto
termination by (relation "measure (\<lambda>(i, src, s). length src)") (auto simp: max_piece_def)

declare filewrite_loop.simps [simp del]

text \<open>\<open>src\<close> holds the \<^verbatim>\<open>n\<close> bytes at \<^verbatim>\<open>addr\<close>.\<close>

definition filewrite ::
    "nat \<Rightarrow> byte list \<Rightarrow> cint \<Rightarrow> 'a file_state_scheme \<Rightarrow> stop + (byte list, cint) outcome \<times> 'a file_state_scheme" where
  "filewrite i src n s =
     (let f = ftable s i
      in if f_writable f = 0 then Inr (Returns (- 1), s)
         else case f_type f of
           FD_PIPE \<Rightarrow> pipewrite (f_pipe f) src n s
         | FD_INODE \<Rightarrow>
             if n <s 0 then Inr (Returns (- 1), s)
             else andthen (filewrite_loop i (take (nat (sint n)) src) s) (\<lambda>(all, s).
                    Inr (Returns (if all then n else - 1), s))
         | FD_NONE \<Rightarrow> Inl (Panic ''filewrite''))"

section \<open>Opening a pipe\<close>

text \<open>
  \<^verbatim>\<open>kalloc\<close> gives a page; the ring, behind the 104 bytes of the lock, keeps whatever bytes were there.
\<close>

definition pipealloc :: "'a file_state_scheme \<Rightarrow> stop + (nat \<times> nat) option \<times> 'a file_state_scheme" where
  "pipealloc s =
     andthen (filealloc s) (\<lambda>(r0, s).
       case r0 of
         None \<Rightarrow> Inr (None, s)
       | Some f0 \<Rightarrow>
           andthen (filealloc s) (\<lambda>(r1, s).
             case r1 of
               None \<Rightarrow> andthen (fileclose f0 s) (\<lambda>s. Inr (None, s))
             | Some f1 \<Rightarrow>
                 andthen (kalloc s) (\<lambda>(p, s).
                   if p = 0 then andthen (fileclose f0 s) (\<lambda>s. andthen (fileclose f1 s) (\<lambda>s. Inr (None, s)))
                   else let s = upd_pipe p (\<lambda>q. q\<lparr>p_data := bytes_at (mem s) (p + 104) 512, readopen := 1, writeopen := 1,
                                  nwrite := 0, nread := 0\<rparr>) s;
                            s = initlock (Pipe_lock p) ''pipe'' s;
                            s = upd_file f0 (\<lambda>f. f\<lparr>f_type := FD_PIPE, f_readable := 1, f_writable := 0, f_pipe := p\<rparr>) s;
                            s = upd_file f1 (\<lambda>f. f\<lparr>f_type := FD_PIPE, f_readable := 0, f_writable := 1, f_pipe := p\<rparr>) s
                        in Inr (Some (f0, f1), s))))"

end
