(* ===== verification/Proc.thy ===== *)
theory Proc
  imports File
begin

text \<open>
  The part of \<^verbatim>\<open>proc.c\<close> that creates and ends processes: \<^verbatim>\<open>allocproc\<close>, \<^verbatim>\<open>userinit\<close>, \<^verbatim>\<open>growproc\<close>,
  \<^verbatim>\<open>fork\<close>, \<^verbatim>\<open>exit\<close>, \<^verbatim>\<open>wait\<close> and \<^verbatim>\<open>forkret\<close>. A process's trap frame is the record \<open>tf\<close>; its place at
  the top of the kernel stack is only an address. \<^verbatim>\<open>exit\<close> ends in \<^verbatim>\<open>sched\<close> and \<^verbatim>\<open>wait\<close> may sleep, so
  both are cut there.
\<close>

section \<open>State\<close>

text \<open>\<open>forkret_first\<close> is the static variable of \<^verbatim>\<open>forkret\<close>.\<close>

record proc_state = file_state +
  forkret_first :: cint

text \<open>Addresses of code the kernel stack of a new process refers to, and the embedded first program.\<close>

record image =
  a_forkret :: addr
  a_trapret :: addr
  a_initcode :: addr
  initcode_size :: addr

definition pinit :: "'a kproc_scheme \<Rightarrow> 'a kproc_scheme" where
  "pinit s = initlock Ptable_lock ''ptable'' s"

section \<open>Creating processes\<close>

text \<open>
  The new stack from the top: a trap frame of 176 bytes, the return address \<^verbatim>\<open>syscall_trapret\<close>, and
  a context of 56 bytes whose last word is the address to resume at.
\<close>

definition stack_top :: "image \<Rightarrow> addr \<Rightarrow> mem \<Rightarrow> mem" where
  "stack_top im k m =
     (let sp = k + KSTACKSIZE - 176 - 8;
          m = store64 m sp (a_trapret im);
          ctx = sp - 56;
          m = memset m ctx 0 56
      in store64 m (ctx + 48) (a_forkret im))"

definition allocproc :: "image \<Rightarrow> 'a kalloc_state_scheme \<Rightarrow> stop + nat option \<times> 'a kalloc_state_scheme" where
  "allocproc im s =
     andthen (acquire Ptable_lock s) (\<lambda>s.
       case scan (\<lambda>p. pstate p = UNUSED) (ptable s) of
         None \<Rightarrow> andthen (release Ptable_lock s) (\<lambda>s. Inr (None, s))
       | Some i \<Rightarrow>
           andthen (release Ptable_lock
             ((upd_proc i (\<lambda>p. p\<lparr>pstate := EMBRYO, pid := nextpid s\<rparr>) s)\<lparr>nextpid := nextpid s + 1\<rparr>)) (\<lambda>s.
           andthen (kalloc s) (\<lambda>(k, s).
             let s = upd_proc i (\<lambda>p. p\<lparr>kstack := k\<rparr>) s
             in if k = 0 then Inr (None, upd_proc i (\<lambda>p. p\<lparr>pstate := UNUSED\<rparr>) s)
                else Inr (Some i, s\<lparr>mem := stack_top im k (mem s)\<rparr>))))"

definition zero_tf :: trapframe where
  "zero_tf = \<lparr>tf_rax = 0, tf_rbx = 0, tf_rcx = 0, tf_rdx = 0, tf_rbp = 0, tf_rsi = 0, tf_rdi = 0, tf_r8 = 0,
     tf_r9 = 0, tf_r10 = 0, tf_r11 = 0, tf_r12 = 0, tf_r13 = 0, tf_r14 = 0, tf_r15 = 0, tf_trapno = 0,
     tf_err = 0, tf_rip = 0, tf_cs = 0, tf_rflags = 0, tf_rsp = 0, tf_ss = 0\<rparr>"

definition userinit :: "image \<Rightarrow> 'a fs_state_scheme \<Rightarrow> stop + 'a fs_state_scheme" where
  "userinit im s =
     andthen (allocproc im s) (\<lambda>(r, s).
       case r of
         None \<Rightarrow> Inl NullDeref
       | Some i \<Rightarrow>
           andthen (setupkvm (s\<lparr>initproc := Some i\<rparr>)) (\<lambda>(d, s).
             let s = upd_proc i (\<lambda>p. p\<lparr>pgdir := d\<rparr>) s
             in if d = 0 then Inl (Panic ''userinit: out of memory?'')
                else andthen (inituvm d (a_initcode im) (ucast (initcode_size im)) s) (\<lambda>s.
                     let s = upd_proc i (\<lambda>p. p\<lparr>sz := PGSIZE * 2,
                           tf := zero_tf\<lparr>tf_r11 := 0x200, tf_rsp := PGSIZE * 2, tf_rcx := PGSIZE\<rparr>,
                           pname := safestrcpy_arr (pname p) (cbytes ''initcode'') 0 15\<rparr>) s
                     in andthen (namei [SLASH] s) (\<lambda>(ip, s).
                          Inr (upd_proc i (\<lambda>p. p\<lparr>cwd := ip, pstate := RUNNABLE\<rparr>) s)))))"

text \<open>\<^verbatim>\<open>growproc\<close>: a size of 0 counts as failure of either routine.\<close>

definition growproc :: "addr \<Rightarrow> 'a kalloc_state_scheme \<Rightarrow> stop + cint \<times> 'a kalloc_state_scheme" where
  "growproc n s =
     (case curproc s of
        None \<Rightarrow> Inl NullDeref
      | Some i \<Rightarrow>
          (let p = ptable s ! i
           in andthen (if 0 <s n then allocuvm (pgdir p) (sz p) (sz p + n) s
                       else if n <s 0 then deallocuvm (pgdir p) (sz p) (sz p + n) s
                       else Inr (sz p, s)) (\<lambda>(nsz, s).
                if n \<noteq> 0 \<and> nsz = 0 then Inr (- 1, s)
                else andthen (switchuvm i (upd_proc i (\<lambda>p. p\<lparr>sz := nsz\<rparr>) s)) (\<lambda>s. Inr (0, s)))))"

text \<open>The child \<open>j\<close> shares the open files of \<open>i\<close>; its own entries for closed ones stay as they are.\<close>

primrec fork_files :: "nat \<Rightarrow> nat \<Rightarrow> nat list \<Rightarrow> 'a file_state_scheme \<Rightarrow> stop + 'a file_state_scheme" where
  "fork_files i j [] s = Inr s"
| "fork_files i j (fd # fds) s =
     (case ofile (ptable s ! i) ! fd of
        None \<Rightarrow> fork_files i j fds s
      | Some f \<Rightarrow> andthen (filedup f s) (\<lambda>(f, s).
          fork_files i j fds (upd_proc j (\<lambda>p. p\<lparr>ofile := (ofile p)[fd := Some f]\<rparr>) s)))"

definition fork :: "image \<Rightarrow> 'a file_state_scheme \<Rightarrow> stop + cint \<times> 'a file_state_scheme" where
  "fork im s =
     (case curproc s of
        None \<Rightarrow> Inl NullDeref
      | Some i \<Rightarrow>
          andthen (allocproc im s) (\<lambda>(r, s).
            case r of
              None \<Rightarrow> Inr (- 1, s)
            | Some j \<Rightarrow>
                andthen (copyuvm (pgdir (ptable s ! i)) (ucast (sz (ptable s ! i))) s) (\<lambda>(d, s).
                  let s = upd_proc j (\<lambda>p. p\<lparr>pgdir := d\<rparr>) s
                  in if d = 0 then
                       andthen (kfree (kstack (ptable s ! j)) s) (\<lambda>s.
                         Inr (- 1, upd_proc j (\<lambda>p. p\<lparr>kstack := 0, pstate := UNUSED\<rparr>) s))
                     else
                       let par = ptable s ! i;
                           s = upd_proc j (\<lambda>p. p\<lparr>sz := sz par, parent := Some i, tf := (tf par)\<lparr>tf_rax := 0\<rparr>\<rparr>) s
                       in andthen (fork_files i j [0..<NOFILE] s) (\<lambda>s.
                          case cwd (ptable s ! i) of
                            None \<Rightarrow> Inl NullDeref
                          | Some ip \<Rightarrow>
                              andthen (idup ip s) (\<lambda>(ip, s).
                                let s = upd_proc j (\<lambda>p. p\<lparr>cwd := Some ip,
                                      pname := safestrcpy_arr (pname p) (pname (ptable s ! i)) 0 15\<rparr>) s;
                                    npid = pid (ptable s ! j);
                                    s = upd_proc j (\<lambda>p. p\<lparr>pstate := RUNNABLE\<rparr>) s
                                in andthen (traceevent TRACE_TYPE_PROC npid (pid (ptable s ! i)) 0 0
                                       (Some (cbytes ''fork'')) s) (\<lambda>s. Inr (npid, s)))))))"

section \<open>Ending processes\<close>

primrec exit_files :: "nat \<Rightarrow> nat list \<Rightarrow> 'a file_state_scheme \<Rightarrow> stop + 'a file_state_scheme" where
  "exit_files i [] s = Inr s"
| "exit_files i (fd # fds) s =
     (case ofile (ptable s ! i) ! fd of
        None \<Rightarrow> exit_files i fds s
      | Some f \<Rightarrow> andthen (fileclose f s) (\<lambda>s.
          exit_files i fds (upd_proc i (\<lambda>p. p\<lparr>ofile := (ofile p)[fd := None]\<rparr>) s)))"

definition proc_chan :: "nat option \<Rightarrow> chan" where
  "proc_chan p = (case p of None \<Rightarrow> NoChan | Some i \<Rightarrow> Proc_chan i)"

primrec reparent :: "nat \<Rightarrow> nat list \<Rightarrow> 'a kproc_scheme \<Rightarrow> 'a kproc_scheme" where
  "reparent i [] s = s"
| "reparent i (j # js) s =
     (if parent (ptable s ! j) = Some i then
        let s = upd_proc j (\<lambda>p. p\<lparr>parent := initproc s\<rparr>) s
        in reparent i js (if pstate (ptable s ! j) = ZOMBIE then wakeup1 (proc_chan (initproc s)) s else s)
      else reparent i js s)"

text \<open>The last part of \<^verbatim>\<open>exit\<close>, under \<^verbatim>\<open>ptable.lock\<close>; the scheduler never comes back to a zombie.\<close>

definition exit_zombie :: "nat \<Rightarrow> 'a kproc_scheme \<Rightarrow> stop + bool \<times> 'a kproc_scheme" where
  "exit_zombie i s =
     andthen (acquire Ptable_lock s) (\<lambda>s.
       let s = wakeup1 (proc_chan (parent (ptable s ! i))) s;
           s = reparent i [0..<NPROC] s
       in sched i (upd_proc i (\<lambda>p. p\<lparr>pstate := ZOMBIE\<rparr>) s))"

text \<open>\<^verbatim>\<open>exit\<close> up to the switch.\<close>

definition exit_enter :: "'a file_state_scheme \<Rightarrow> stop + bool \<times> 'a file_state_scheme" where
  "exit_enter s =
     (case curproc s of
        None \<Rightarrow> Inl NullDeref
      | Some i \<Rightarrow>
          if initproc s = Some i then Inl (Panic ''init exiting'')
          else
            andthen (traceevent TRACE_TYPE_PROC (pid (ptable s ! i)) 0 0 0 (Some (cbytes ''exit'')) s) (\<lambda>s.
            andthen (exit_files i [0..<NOFILE] s) (\<lambda>s.
            andthen (begin_op s) (\<lambda>s.
              case cwd (ptable s ! i) of
                None \<Rightarrow> Inl NullDeref
              | Some ip \<Rightarrow>
                  andthen (iput ip s) (\<lambda>s.
                  andthen (end_op s) (\<lambda>s.
                    exit_zombie i (upd_proc i (\<lambda>p. p\<lparr>cwd := None\<rparr>) s)))))))"

text \<open>
  \<^verbatim>\<open>wait\<close> with \<^verbatim>\<open>ptable.lock\<close> held, one round of its loop: a dead child is taken out of the table.
\<close>

definition reap :: "nat \<Rightarrow> 'a kalloc_state_scheme \<Rightarrow> stop + 'a kalloc_state_scheme" where
  "reap j s =
     andthen (kfree (kstack (ptable s ! j)) s) (\<lambda>s.
     andthen (freevm (pgdir (ptable s ! j)) (upd_proc j (\<lambda>p. p\<lparr>kstack := 0\<rparr>) s)) (\<lambda>s.
       Inr (upd_proc j (\<lambda>p. p\<lparr>pid := 0, parent := None, pname := (pname p)[0 := 0], killed := 0,
              pstate := UNUSED\<rparr>) s)))"

definition wait_round :: "nat \<Rightarrow> 'a kalloc_state_scheme \<Rightarrow> stop + (unit, cint) outcome \<times> 'a kalloc_state_scheme" where
  "wait_round i s =
     (case scan (\<lambda>p. parent p = Some i \<and> pstate p = ZOMBIE) (ptable s) of
        Some j \<Rightarrow> (let cpid = pid (ptable s ! j) in andthen (reap j s) (returning cpid Ptable_lock))
      | None \<Rightarrow>
          if (\<forall>p \<in> set (ptable s). parent p \<noteq> Some i) \<or> killed (ptable s ! i) \<noteq> 0
          then returning (- 1) Ptable_lock s
          else sleeping () (Proc_chan i) Ptable_lock s)"

definition wait_enter :: "'a kalloc_state_scheme \<Rightarrow> stop + (unit, cint) outcome \<times> 'a kalloc_state_scheme" where
  "wait_enter s =
     (case curproc s of
        None \<Rightarrow> Inl NullDeref
      | Some i \<Rightarrow> andthen (acquire Ptable_lock s) (wait_round i))"

definition wait_resume ::
    "nat \<Rightarrow> bool \<Rightarrow> 'a kalloc_state_scheme \<Rightarrow> stop + (unit, cint) outcome \<times> 'a kalloc_state_scheme" where
  "wait_resume i ie s = andthen (sleep_resume i Ptable_lock ie s) (wait_round i)"

definition forkret :: "'a proc_state_scheme \<Rightarrow> stop + 'a proc_state_scheme" where
  "forkret s =
     andthen (release Ptable_lock s) (\<lambda>s.
       if forkret_first s \<noteq> 0
       then andthen (iinit ROOTDEV (s\<lparr>forkret_first := 0\<rparr>)) (initlog ROOTDEV)
       else Inr s)"

end
