(* ===== verification/BioProofs.thy ===== *)
theory BioProofs
  imports Bio
begin

text \<open>
  What the buffer cache promises to a process that runs undisturbed: \<open>content\<close> is the disk as the
  process sees it through the cache, with modified blocks pinned in memory; reading, writing and
  releasing a buffer act on it as on an array of blocks, and never run out of buffers as long as
  fewer than 30 are pinned or held.
\<close>

section \<open>Undisturbed execution\<close>

definition quiet :: "'a kproc_scheme \<Rightarrow> bool" where
  "quiet s \<longleftrightarrow> cpu_ok (cpu s) \<and> settle (cpu s) = cpu s \<and> (\<forall>l. lock_free l s) \<and> curproc s \<noteq> None"

lemma quietD:
  "quiet s \<Longrightarrow> cpu_ok (cpu s)" "quiet s \<Longrightarrow> settle (cpu s) = cpu s" "quiet s \<Longrightarrow> lock_free l s"
  by (simp_all add: quiet_def)

lemma quiet_cong:
  "cpu t = cpu s \<Longrightarrow> locks t = locks s \<Longrightarrow> curproc t = curproc s \<Longrightarrow> quiet t = quiet s"
  by (simp add: quiet_def lock_free_def)

lemma quiet_section:
  fixes s :: "'a kproc_scheme"
  assumes "quiet s"
    and "\<And>c L. f (s\<lparr>cpu := c, locks := L\<rparr>) = (f s)\<lparr>cpu := c, locks := L\<rparr>"
    and "locks (f s) = locks s" "cpu (f s) = cpu s"
  shows "andthen (acquire l s) (\<lambda>s. release l (f s)) = Inr (f s)"
proof -
  have "andthen (acquire l s) (\<lambda>s. release l (f s)) = Inr ((f s)\<lparr>cpu := settle (cpu s)\<rparr>)"
    using assms quietD [OF assms(1)] by (intro critical_section) simp_all
  also have "(f s)\<lparr>cpu := settle (cpu s)\<rparr> = f s"
    using quietD(2) [OF assms(1)] assms(4) by (cases "f s") simp
  finally show ?thesis .
qed

subsection \<open>Sleep locks\<close>

text \<open>Updates under a lock are moved inside the updates of CPU and locks.\<close>

lemma lock_outermost:
  "s\<lparr>cpu := c, locks := L, sleeplocks := x\<rparr> = s\<lparr>sleeplocks := x, cpu := c, locks := L\<rparr>"
  "s\<lparr>cpu := c, locks := L, bufs := b\<rparr> = s\<lparr>bufs := b, cpu := c, locks := L\<rparr>"
  "s\<lparr>cpu := c, locks := L, bcache_list := l\<rparr> = s\<lparr>bcache_list := l, cpu := c, locks := L\<rparr>"
  by simp_all

definition sl_take :: "lockid \<Rightarrow> 'a disk_state_scheme \<Rightarrow> 'a disk_state_scheme" where
  "sl_take lk s = s\<lparr>sleeplocks := (sleeplocks s)(lk :=
     (sleeplocks s lk)\<lparr>sl_locked := 1, sl_pid := pid (ptable s ! the (curproc s))\<rparr>)\<rparr>"

definition sl_drop :: "lockid \<Rightarrow> 'a disk_state_scheme \<Rightarrow> 'a disk_state_scheme" where
  "sl_drop lk s = (wakeup1 (sl_chan lk) s)\<lparr>sleeplocks := (sleeplocks s)(lk :=
     (sleeplocks s lk)\<lparr>sl_locked := 0, sl_pid := 0\<rparr>)\<rparr>"

lemma acquiresleep_quiet:
  fixes s :: "'a disk_state_scheme"
  assumes "quiet s" "sl_locked (sleeplocks s lk) = 0"
  shows "acquiresleep lk s = Inr (sl_take lk s)"
proof -
  obtain i where i: "curproc s = Some i" using assms(1) by (auto simp: quiet_def)
  let ?c = "cpu_enter (cpu s)" and ?L = "(locks s)(lk := take_lock (cpu_id (cpu s)) (locks s lk))"
  have "acquiresleep lk s = release lk ((sl_take lk s)\<lparr>cpu := ?c, locks := ?L\<rparr>)"
    using assms i quietD [OF assms(1)] by (simp add: acquiresleep_def run_simps sl_take_def lock_outermost)
  also have "\<dots> = Inr ((sl_take lk s)\<lparr>cpu := settle (cpu s)\<rparr>)"
    using quietD [OF assms(1)] by (intro release_after) (simp_all add: sl_take_def)
  also have "(sl_take lk s)\<lparr>cpu := settle (cpu s)\<rparr> = sl_take lk s"
    using quietD [OF assms(1)] by (simp add: sl_take_def)
  finally show ?thesis .
qed

lemma holdingsleep_quiet:
  fixes s :: "'a disk_state_scheme"
  assumes "quiet s"
  shows "holdingsleep lk s = Inr (sl_locked (sleeplocks s lk), s)"
proof -
  let ?c = "cpu_enter (cpu s)" and ?L = "(locks s)(lk := take_lock (cpu_id (cpu s)) (locks s lk))"
  have "release lk (s\<lparr>cpu := ?c, locks := ?L\<rparr>) = Inr (s\<lparr>cpu := settle (cpu s)\<rparr>)"
    using quietD [OF assms] by (intro release_after) simp_all
  then show ?thesis using quietD [OF assms] by (simp add: holdingsleep_def run_simps Let_def)
qed

lemma releasesleep_quiet:
  fixes s :: "'a disk_state_scheme"
  assumes "quiet s" "lk \<noteq> Ptable_lock"
  shows "releasesleep lk s = Inr (sl_drop lk s)"
proof -
  note q = quietD [OF assms(1)]
  let ?c = "cpu_enter (cpu s)" and ?L = "(locks s)(lk := take_lock (cpu_id (cpu s)) (locks s lk))"
  define t where "t = s\<lparr>sleeplocks := (sleeplocks s)(lk := (sleeplocks s lk)\<lparr>sl_locked := 0, sl_pid := 0\<rparr>)\<rparr>"
  have "acquire lk s = Inr (s\<lparr>cpu := ?c, locks := ?L\<rparr>)" using q by (simp add: run_simps)
  then have "releasesleep lk s =
      andthen (wakeup (sl_chan lk) (t\<lparr>cpu := ?c, locks := ?L\<rparr>)) (release lk)"
    by (simp add: releasesleep_def t_def lock_outermost)
  also have "wakeup (sl_chan lk) (t\<lparr>cpu := ?c, locks := ?L\<rparr>) =
      Inr ((wakeup1 (sl_chan lk) (t\<lparr>cpu := ?c, locks := ?L\<rparr>))\<lparr>cpu := settle ?c\<rparr>)"
    using q assms(2) q(3) [of Ptable_lock]
      wakeup_run [of "t\<lparr>cpu := ?c, locks := ?L\<rparr>" "sl_chan lk"] by (simp add: lock_free_def t_def)
  also have "(wakeup1 (sl_chan lk) (t\<lparr>cpu := ?c, locks := ?L\<rparr>))\<lparr>cpu := settle ?c\<rparr> =
      (wakeup1 (sl_chan lk) t)\<lparr>cpu := ?c, locks := ?L\<rparr>"
    using q by (simp add: wakeup1_def)
  also have "andthen (Inr ((wakeup1 (sl_chan lk) t)\<lparr>cpu := ?c, locks := ?L\<rparr>)) (release lk) =
      Inr ((wakeup1 (sl_chan lk) t)\<lparr>cpu := settle (cpu s)\<rparr>)"
    using q release_after [of lk s "wakeup1 (sl_chan lk) t"] by (simp add: t_def wakeup1_def)
  also have "(wakeup1 (sl_chan lk) t)\<lparr>cpu := settle (cpu s)\<rparr> = sl_drop lk s"
    using q by (simp add: sl_drop_def t_def wakeup1_def)
  finally show ?thesis .
qed

lemma sl_simps [simp]:
  "quiet (sl_take lk s) = quiet s" "quiet (sl_drop lk s) = quiet s"
  "bufs (sl_take lk s) = bufs s" "bufs (sl_drop lk s) = bufs s"
  "bcache_list (sl_take lk s) = bcache_list s" "bcache_list (sl_drop lk s) = bcache_list s"
  "memdisk (sl_take lk s) = memdisk s" "memdisk (sl_drop lk s) = memdisk s"
  "disksize (sl_take lk s) = disksize s" "disksize (sl_drop lk s) = disksize s"
  "disk_writes (sl_take lk s) = disk_writes s" "disk_writes (sl_drop lk s) = disk_writes s"
  "disk_state.more (sl_take lk s) = disk_state.more s" "disk_state.more (sl_drop lk s) = disk_state.more s"
  "sl_locked (sleeplocks (sl_take lk s) k) = (if k = lk then 1 else sl_locked (sleeplocks s k))"
  "sl_locked (sleeplocks (sl_drop lk s) k) = (if k = lk then 0 else sl_locked (sleeplocks s k))"
  by (simp_all add: sl_take_def sl_drop_def wakeup1_def quiet_def lock_free_def)

section \<open>Buffers\<close>

definition valid :: "buf \<Rightarrow> bool" where
  "valid b \<longleftrightarrow> bit (b_flags b) 1"

definition dirty :: "buf \<Rightarrow> bool" where
  "dirty b \<longleftrightarrow> bit (b_flags b) 2"

lemma flag_bits:
  fixes f :: cint
  shows "f AND 2 = 0 \<longleftrightarrow> \<not> bit f 1" "f AND 4 = 0 \<longleftrightarrow> \<not> bit f 2" "f AND (2 OR 4) = 2 \<longleftrightarrow> bit f 1 \<and> \<not> bit f 2"
proof -
  show two: "f AND 2 = 0 \<longleftrightarrow> \<not> bit f 1" using and_exp_eq_0_iff_not_bit [of f 1] by simp
  show four: "f AND 4 = 0 \<longleftrightarrow> \<not> bit f 2" using and_exp_eq_0_iff_not_bit [of f 2] by simp
  have b2: "bit (2 :: cint) n \<longleftrightarrow> n = 1" for n using bit_exp_iff [where ?'a = cint, of 1 n] by auto
  have b4: "bit (4 :: cint) n \<longleftrightarrow> n = 2" for n using bit_exp_iff [where ?'a = cint, of 2 n] by auto
  show "f AND (2 OR 4) = 2 \<longleftrightarrow> bit f 1 \<and> \<not> bit f 2"
  proof
    assume "f AND (2 OR 4) = 2"
    then have "bit (f AND (2 OR 4)) n = bit (2 :: cint) n" for n by simp
    from this [of 1] this [of 2] show "bit f 1 \<and> \<not> bit f 2" by (simp add: bit_and_iff bit_or_iff b2 b4)
  next
    assume "bit f 1 \<and> \<not> bit f 2"
    then have "bit (f AND (2 OR 4)) n = bit (2 :: cint) n" for n unfolding bit_and_iff bit_or_iff b2 b4 by auto
    then show "f AND (2 OR 4) = 2" by (intro bit_word_eqI)
  qed
qed

lemmas flag_tests = flag_bits(1,2) flag_bits(3) [simplified]

lemma flag_updates [simp]:
  "valid (b\<lparr>b_flags := f OR 2\<rparr>)" "dirty (b\<lparr>b_flags := f OR 4\<rparr>)"
  "valid (b\<lparr>b_flags := f OR 4\<rparr>) = bit f 1" "dirty (b\<lparr>b_flags := f OR 2\<rparr>) = bit f 2"
  "\<not> dirty (b\<lparr>b_flags := (f AND NOT 4) OR 2\<rparr>)" "\<not> valid (b\<lparr>b_flags := 0\<rparr>)" "\<not> dirty (b\<lparr>b_flags := 0\<rparr>)"
proof -
  have b2: "bit (2 :: cint) n \<longleftrightarrow> n = 1" for n using bit_exp_iff [where ?'a = cint, of 1 n] by auto
  have b4: "bit (4 :: cint) n \<longleftrightarrow> n = 2" for n using bit_exp_iff [where ?'a = cint, of 2 n] by auto
  show "valid (b\<lparr>b_flags := f OR 2\<rparr>)" "dirty (b\<lparr>b_flags := f OR 4\<rparr>)"
    "valid (b\<lparr>b_flags := f OR 4\<rparr>) = bit f 1" "dirty (b\<lparr>b_flags := f OR 2\<rparr>) = bit f 2"
    "\<not> dirty (b\<lparr>b_flags := (f AND NOT 4) OR 2\<rparr>)" "\<not> valid (b\<lparr>b_flags := 0\<rparr>)" "\<not> dirty (b\<lparr>b_flags := 0\<rparr>)"
    by (simp_all add: valid_def dirty_def bit_or_iff bit_and_iff bit_not_iff b2 b4)
qed

lemma flags_kept [simp]:
  "valid (b\<lparr>b_data := d\<rparr>) = valid b" "dirty (b\<lparr>b_data := d\<rparr>) = dirty b"
  "valid (b\<lparr>b_refcnt := r\<rparr>) = valid b" "dirty (b\<lparr>b_refcnt := r\<rparr>) = dirty b"
  by (simp_all add: valid_def dirty_def)

lemma upd_buf_simps [simp]:
  "bufs (upd_buf i f s) = (bufs s)(i := f (bufs s i))" "quiet (upd_buf i f s) = quiet s"
  "sleeplocks (upd_buf i f s) = sleeplocks s" "bcache_list (upd_buf i f s) = bcache_list s"
  "memdisk (upd_buf i f s) = memdisk s" "disksize (upd_buf i f s) = disksize s"
  "disk_writes (upd_buf i f s) = disk_writes s" "disk_state.more (upd_buf i f s) = disk_state.more s"
  "ptable (upd_buf i f s) = ptable s" "curproc (upd_buf i f s) = curproc s"
  by (simp_all add: upd_buf_def quiet_def lock_free_def)

lemma disk_write_simps [simp]:
  "bufs (disk_write n d s) = bufs s" "quiet (disk_write n d s) = quiet s"
  "sleeplocks (disk_write n d s) = sleeplocks s" "bcache_list (disk_write n d s) = bcache_list s"
  "memdisk (disk_write n d s) = (memdisk s)(n := d)" "disksize (disk_write n d s) = disksize s"
  "disk_writes (disk_write n d s) = disk_writes s @ [(n, d)]" "disk_state.more (disk_write n d s) = disk_state.more s"
  by (simp_all add: disk_write_def quiet_def lock_free_def)

text \<open>Under its sleep lock a buffer is read from disk, or written to it.\<close>

lemma iderw_read:
  assumes "quiet s" "sl_locked (sleeplocks s (Buf_lk i)) = 1" "\<not> valid (bufs s i)" "\<not> dirty (bufs s i)"
    and "b_dev (bufs s i) = 1" "b_blockno (bufs s i) < disksize s"
  shows "iderw i s = Inr (upd_buf i (\<lambda>b. b\<lparr>b_data := memdisk s (unat (b_blockno b)), b_flags := b_flags b OR 2\<rparr>) s)"
  using assms
  by (simp add: iderw_def holdingsleep_quiet Let_def flag_tests valid_def dirty_def not_le)

lemma iderw_write:
  assumes "quiet s" "sl_locked (sleeplocks s (Buf_lk i)) = 1" "dirty (bufs s i)"
    and "b_dev (bufs s i) = 1" "b_blockno (bufs s i) < disksize s"
  shows "iderw i s = Inr (upd_buf i (\<lambda>b. b\<lparr>b_flags := (b_flags b AND NOT 4) OR 2\<rparr>)
    (disk_write (unat (b_blockno (bufs s i))) (b_data (bufs s i)) s))"
  using assms
  by (simp add: iderw_def holdingsleep_quiet Let_def flag_tests valid_def dirty_def not_le)

section \<open>The cache invariant\<close>

text \<open>
  \<open>H\<close> is the set of buffers the process holds. No block of the disk is in two buffers; a buffer of
  the disk has been read; a buffer that is neither held nor pinned agrees with the disk.
\<close>

definition cache_inv :: "nat set \<Rightarrow> 'a disk_state_scheme \<Rightarrow> bool" where
  "cache_inv H s \<longleftrightarrow> quiet s \<and> distinct (bcache_list s) \<and> set (bcache_list s) = {..<30} \<and> H \<subseteq> {..<30} \<and>
     (\<forall>i<30. sl_locked (sleeplocks s (Buf_lk i)) = (if i \<in> H then 1 else 0)) \<and>
     (\<forall>i<30. b_refcnt (bufs s i) = (if i \<in> H then 1 else 0)) \<and>
     (\<forall>i<30. \<forall>j<30. b_dev (bufs s i) = 1 \<longrightarrow> b_dev (bufs s j) = 1 \<longrightarrow>
        b_blockno (bufs s i) = b_blockno (bufs s j) \<longrightarrow> i = j) \<and>
     (\<forall>i<30. b_dev (bufs s i) = 1 \<longrightarrow> valid (bufs s i)) \<and>
     (\<forall>i<30. dirty (bufs s i) \<or> i \<in> H \<longrightarrow> b_dev (bufs s i) = 1) \<and>
     (\<forall>i<30. i \<notin> H \<longrightarrow> b_dev (bufs s i) = 1 \<longrightarrow> \<not> dirty (bufs s i) \<longrightarrow>
        b_data (bufs s i) = memdisk s (unat (b_blockno (bufs s i))))"

lemma cache_invD:
  assumes "cache_inv H s"
  shows "quiet s" "distinct (bcache_list s)" "set (bcache_list s) = {..<30}" "H \<subseteq> {..<30}"
    and "i < 30 \<Longrightarrow> sl_locked (sleeplocks s (Buf_lk i)) = (if i \<in> H then 1 else 0)"
    and "i < 30 \<Longrightarrow> b_refcnt (bufs s i) = (if i \<in> H then 1 else 0)"
    and "i < 30 \<Longrightarrow> j < 30 \<Longrightarrow> b_dev (bufs s i) = 1 \<Longrightarrow> b_dev (bufs s j) = 1 \<Longrightarrow>
      b_blockno (bufs s i) = b_blockno (bufs s j) \<Longrightarrow> i = j"
    and "i < 30 \<Longrightarrow> b_dev (bufs s i) = 1 \<Longrightarrow> valid (bufs s i)"
    and "i < 30 \<Longrightarrow> dirty (bufs s i) \<or> i \<in> H \<Longrightarrow> b_dev (bufs s i) = 1"
    and "i < 30 \<Longrightarrow> i \<notin> H \<Longrightarrow> b_dev (bufs s i) = 1 \<Longrightarrow> \<not> dirty (bufs s i) \<Longrightarrow>
      b_data (bufs s i) = memdisk s (unat (b_blockno (bufs s i)))"
  using assms unfolding cache_inv_def by (elim conjE, assumption | elim conjE, simp only: simp_thms)+

lemma first_buf_None: "first_buf P is s = None \<longleftrightarrow> (\<forall>i \<in> set is. \<not> P (bufs s i))"
  by (induction "is") auto

lemma first_buf_Some: "first_buf P is s = Some i \<Longrightarrow> i \<in> set is \<and> P (bufs s i)"
  by (induction "is") (auto split: if_splits)

lemma first_buf_cong: "bufs t = bufs s \<Longrightarrow> first_buf P is t = first_buf P is s"
  by (induction "is") auto

definition content :: "'a disk_state_scheme \<Rightarrow> uint \<Rightarrow> block" where
  "content s b =
     (case first_buf (\<lambda>x. b_dev x = 1 \<and> b_blockno x = b) [0..<30] s of
        Some i \<Rightarrow> b_data (bufs s i)
      | None \<Rightarrow> memdisk s (unat b))"

lemma content_hit:
  assumes "cache_inv H s" "i < 30" "b_dev (bufs s i) = 1"
  shows "content s (b_blockno (bufs s i)) = b_data (bufs s i)"
proof -
  let ?P = "\<lambda>x. b_dev x = 1 \<and> b_blockno x = b_blockno (bufs s i)"
  have "first_buf ?P [0..<30] s \<noteq> None"
    unfolding first_buf_None using assms(2,3) by (intro notI) (drule bspec [of _ _ i], simp_all)
  then obtain j where j: "first_buf ?P [0..<30] s = Some j" by blast
  have "j < 30" "?P (bufs s j)" using first_buf_Some [OF j] by simp_all
  then have "j = i" using cache_invD(7) [OF assms(1), of j i] assms(2,3) by simp
  with j show ?thesis by (simp add: content_def)
qed

lemma content_miss:
  assumes "\<And>i. i < 30 \<Longrightarrow> b_dev (bufs s i) = 1 \<Longrightarrow> b_blockno (bufs s i) \<noteq> b"
  shows "content s b = memdisk s (unat b)"
proof -
  have "first_buf (\<lambda>x. b_dev x = 1 \<and> b_blockno x = b) [0..<30] s = None"
    using assms by (auto simp: first_buf_None)
  then show ?thesis by (simp add: content_def)
qed

text \<open>The pinned blocks.\<close>

definition pinned :: "'a disk_state_scheme \<Rightarrow> uint set" where
  "pinned s = {b_blockno (bufs s i) | i. i < 30 \<and> dirty (bufs s i)}"

definition held :: "nat set \<Rightarrow> 'a disk_state_scheme \<Rightarrow> uint set" where
  "held H s = (\<lambda>i. b_blockno (bufs s i)) ` H"

lemma finite_pinned: "finite (pinned s)"
proof -
  have "pinned s \<subseteq> (\<lambda>i. b_blockno (bufs s i)) ` {..<30}" by (auto simp: pinned_def)
  then show ?thesis by (rule finite_subset) simp
qed

lemma content_unpinned:
  assumes "cache_inv {} s" "b \<notin> pinned s"
  shows "content s b = memdisk s (unat b)"
proof (cases "\<exists>i<30. b_dev (bufs s i) = 1 \<and> b_blockno (bufs s i) = b")
  case True
  then obtain i where i: "i < 30" "b_dev (bufs s i) = 1" "b_blockno (bufs s i) = b" by blast
  then have "\<not> dirty (bufs s i)" using assms(2) by (auto simp: pinned_def)
  then show ?thesis using content_hit [OF assms(1) i(1,2)] cache_invD(10) [OF assms(1) i(1) _ i(2)] i(3) by simp
qed (auto intro: content_miss)

text \<open>With fewer than 30 blocks pinned or held there is a buffer to recycle.\<close>

lemma recyclable:
  assumes inv: "cache_inv H s" and few: "card (pinned s \<union> held H s) < 30"
  shows "\<exists>i<30. i \<notin> H \<and> \<not> dirty (bufs s i)"
proof (rule ccontr)
  assume "\<not> ?thesis"
  then have all: "i \<in> H \<or> dirty (bufs s i)" if "i < 30" for i using that by blast
  have inj: "inj_on (\<lambda>i. b_blockno (bufs s i)) {..<30}"
  proof (rule inj_onI)
    fix i j assume "i \<in> {..<30}" "j \<in> {..<30}" "b_blockno (bufs s i) = b_blockno (bufs s j)"
    then show "i = j" using cache_invD(7) [OF inv, of i j] cache_invD(9) [OF inv] all by blast
  qed
  have sub: "(\<lambda>i. b_blockno (bufs s i)) ` {..<30} \<subseteq> pinned s \<union> held H s"
    using all by (auto simp: pinned_def held_def)
  have "finite H" using cache_invD(4) [OF inv] finite_subset by blast
  then have "finite (pinned s \<union> held H s)" by (simp add: finite_pinned held_def)
  then have "card ((\<lambda>i. b_blockno (bufs s i)) ` {..<30::nat}) \<le> card (pinned s \<union> held H s)"
    using sub by (rule card_mono)
  then show False using few inj by (simp add: card_image)
qed

section \<open>Reading, writing and releasing a buffer\<close>

lemma bcache_section:
  assumes "quiet s"
  shows "acquire Bcache_lock s = Inr (s\<lparr>cpu := cpu_enter (cpu s),
      locks := (locks s)(Bcache_lock := take_lock (cpu_id (cpu s)) (locks s Bcache_lock))\<rparr>)"
    and "release Bcache_lock (upd_buf i f (s\<lparr>cpu := cpu_enter (cpu s),
      locks := (locks s)(Bcache_lock := take_lock (cpu_id (cpu s)) (locks s Bcache_lock))\<rparr>)) = Inr (upd_buf i f s)"
proof -
  note q = quietD [OF assms]
  show "acquire Bcache_lock s = Inr (s\<lparr>cpu := cpu_enter (cpu s),
      locks := (locks s)(Bcache_lock := take_lock (cpu_id (cpu s)) (locks s Bcache_lock))\<rparr>)"
    using q by (simp add: run_simps)
  have "(upd_buf i f s)\<lparr>cpu := settle (cpu s)\<rparr> = upd_buf i f s" using q(2) by (simp add: upd_buf_def)
  then show "release Bcache_lock (upd_buf i f (s\<lparr>cpu := cpu_enter (cpu s),
      locks := (locks s)(Bcache_lock := take_lock (cpu_id (cpu s)) (locks s Bcache_lock))\<rparr>)) = Inr (upd_buf i f s)"
    using release_after [of Bcache_lock s "upd_buf i f s"] q by (simp add: upd_buf_def lock_outermost)
qed

lemma bget_hit:
  assumes "quiet s" "first_buf (\<lambda>b. b_dev b = dev \<and> b_blockno b = bno) (bcache_list s) s = Some i"
    and "sl_locked (sleeplocks s (Buf_lk i)) = 0"
  shows "bget dev bno s = Inr (i, sl_take (Buf_lk i) (upd_buf i (\<lambda>b. b\<lparr>b_refcnt := b_refcnt b + 1\<rparr>) s))"
  using assms acquiresleep_quiet [of "upd_buf i (\<lambda>b. b\<lparr>b_refcnt := b_refcnt b + 1\<rparr>) s" "Buf_lk i"]
  by (simp add: bget_def bcache_section first_buf_cong [of "s\<lparr>cpu := _, locks := _\<rparr>" s])

lemma bget_miss:
  assumes "quiet s" "first_buf (\<lambda>b. b_dev b = dev \<and> b_blockno b = bno) (bcache_list s) s = None"
    and "first_buf (\<lambda>b. b_refcnt b = 0 \<and> b_flags b AND 4 = 0) (rev (bcache_list s)) s = Some i"
    and "sl_locked (sleeplocks s (Buf_lk i)) = 0"
  shows "bget dev bno s = Inr (i, sl_take (Buf_lk i) (upd_buf i (\<lambda>b. b\<lparr>b_dev := dev, b_blockno := bno,
    b_flags := 0, b_refcnt := 1\<rparr>) s))"
  using assms acquiresleep_quiet [of "upd_buf i (\<lambda>b. b\<lparr>b_dev := dev, b_blockno := bno,
    b_flags := 0, b_refcnt := 1\<rparr>) s" "Buf_lk i"]
  by (simp add: bget_def bcache_section first_buf_cong [of "s\<lparr>cpu := _, locks := _\<rparr>" s])

text \<open>How the invariant moves when one buffer is taken, changed while it is held, or given back.\<close>

lemma cache_inv_take:
  assumes inv: "cache_inv H s" and i: "i < 30" and bufs: "bufs t = (bufs s)(i := nb)"
    and nb: "b_dev nb = 1" "valid nb" "b_refcnt nb = 1"
    and fresh: "\<And>j. j < 30 \<Longrightarrow> j \<noteq> i \<Longrightarrow> b_dev (bufs s j) = 1 \<Longrightarrow> b_blockno (bufs s j) \<noteq> b_blockno nb"
    and rest: "quiet t" "bcache_list t = bcache_list s" "memdisk t = memdisk s"
    and sl: "\<And>j. sl_locked (sleeplocks t (Buf_lk j)) = (if j = i then 1 else sl_locked (sleeplocks s (Buf_lk j)))"
  shows "cache_inv (insert i H) t"
  unfolding cache_inv_def
proof (intro conjI)
  note D = cache_invD [OF inv]
  show "quiet t" "distinct (bcache_list t)" "set (bcache_list t) = {..<30}" "insert i H \<subseteq> {..<30}"
    using rest D(2,3,4) i by simp_all
  show "\<forall>j<30. sl_locked (sleeplocks t (Buf_lk j)) = (if j \<in> insert i H then 1 else 0)"
    using sl D(5) by simp
  show "\<forall>j<30. b_refcnt (bufs t j) = (if j \<in> insert i H then 1 else 0)"
    using nb D(6) by (simp add: bufs)
  show "\<forall>j<30. \<forall>k<30. b_dev (bufs t j) = 1 \<longrightarrow> b_dev (bufs t k) = 1 \<longrightarrow>
      b_blockno (bufs t j) = b_blockno (bufs t k) \<longrightarrow> j = k"
  proof (intro allI impI)
    fix j k assume a: "j < 30" "k < 30" "b_dev (bufs t j) = 1" "b_dev (bufs t k) = 1"
      "b_blockno (bufs t j) = b_blockno (bufs t k)"
    show "j = k"
      using a D(7) [of j k] fresh [of j] fresh [of k] by (cases "j = i"; cases "k = i") (simp_all add: bufs)
  qed
  show "\<forall>j<30. b_dev (bufs t j) = 1 \<longrightarrow> valid (bufs t j)" using nb D(8) by (simp add: bufs)
  show "\<forall>j<30. dirty (bufs t j) \<or> j \<in> insert i H \<longrightarrow> b_dev (bufs t j) = 1"
    using nb D(9) by (auto simp add: bufs)
  show "\<forall>j<30. j \<notin> insert i H \<longrightarrow> b_dev (bufs t j) = 1 \<longrightarrow> \<not> dirty (bufs t j) \<longrightarrow>
      b_data (bufs t j) = memdisk t (unat (b_blockno (bufs t j)))"
    using D(10) rest(3) by (simp add: bufs)
qed

lemma cache_inv_held:
  assumes inv: "cache_inv H s" and i: "i \<in> H" and bufs: "bufs t = (bufs s)(i := nb)"
    and nb: "b_dev nb = 1" "b_blockno nb = b_blockno (bufs s i)" "b_refcnt nb = 1" "valid nb"
    and rest: "quiet t" "bcache_list t = bcache_list s" "sleeplocks t = sleeplocks s"
    and disk: "\<And>n. n \<noteq> unat (b_blockno (bufs s i)) \<Longrightarrow> memdisk t n = memdisk s n"
  shows "cache_inv H t"
  unfolding cache_inv_def
proof (intro conjI)
  note D = cache_invD [OF inv]
  have i30: "i < 30" using i D(4) by blast
  have dev: "b_dev (bufs t j) = b_dev (bufs s j)" "b_blockno (bufs t j) = b_blockno (bufs s j)" for j
    using nb D(9) [OF i30] i by (simp_all add: bufs)
  show "quiet t" "distinct (bcache_list t)" "set (bcache_list t) = {..<30}" "H \<subseteq> {..<30}"
    using rest D(2,3,4) by simp_all
  show "\<forall>j<30. sl_locked (sleeplocks t (Buf_lk j)) = (if j \<in> H then 1 else 0)" using rest(3) D(5) by simp
  show "\<forall>j<30. b_refcnt (bufs t j) = (if j \<in> H then 1 else 0)" using nb D(6) i by (simp add: bufs)
  show "\<forall>j<30. \<forall>k<30. b_dev (bufs t j) = 1 \<longrightarrow> b_dev (bufs t k) = 1 \<longrightarrow>
      b_blockno (bufs t j) = b_blockno (bufs t k) \<longrightarrow> j = k"
    unfolding dev using D(7) by blast
  show "\<forall>j<30. b_dev (bufs t j) = 1 \<longrightarrow> valid (bufs t j)" using nb D(8) by (simp add: bufs)
  show "\<forall>j<30. dirty (bufs t j) \<or> j \<in> H \<longrightarrow> b_dev (bufs t j) = 1" using nb D(9) by (auto simp add: bufs)
  show "\<forall>j<30. j \<notin> H \<longrightarrow> b_dev (bufs t j) = 1 \<longrightarrow> \<not> dirty (bufs t j) \<longrightarrow>
      b_data (bufs t j) = memdisk t (unat (b_blockno (bufs t j)))"
  proof (intro allI impI)
    fix j assume j: "j < 30" "j \<notin> H" "b_dev (bufs t j) = 1" "\<not> dirty (bufs t j)"
    then have ji: "j \<noteq> i" using i by blast
    then have same: "bufs t j = bufs s j" by (simp add: bufs)
    have "b_blockno (bufs s j) \<noteq> b_blockno (bufs s i)"
      using D(7) [of j i] j(1,3) i30 D(9) [OF i30] i ji same by auto
    then have "memdisk t (unat (b_blockno (bufs s j))) = memdisk s (unat (b_blockno (bufs s j)))"
      using word_unat_eq_iff by (intro disk) blast
    then show "b_data (bufs t j) = memdisk t (unat (b_blockno (bufs t j)))"
      using D(10) [OF j(1,2)] j(3,4) same by simp
  qed
qed

lemma cache_inv_drop:
  assumes inv: "cache_inv H s" and i: "i \<in> H" and bufs: "bufs t = (bufs s)(i := (bufs s i)\<lparr>b_refcnt := 0\<rparr>)"
    and clean: "\<not> dirty (bufs s i) \<Longrightarrow> b_data (bufs s i) = memdisk s (unat (b_blockno (bufs s i)))"
    and rest: "quiet t" "distinct (bcache_list t)" "set (bcache_list t) = {..<30}" "memdisk t = memdisk s"
    and sl: "\<And>j. sl_locked (sleeplocks t (Buf_lk j)) = (if j = i then 0 else sl_locked (sleeplocks s (Buf_lk j)))"
  shows "cache_inv (H - {i}) t"
  unfolding cache_inv_def
proof (intro conjI)
  note D = cache_invD [OF inv]
  have dev: "b_dev (bufs t j) = b_dev (bufs s j)" "b_blockno (bufs t j) = b_blockno (bufs s j)"
    "valid (bufs t j) = valid (bufs s j)" "dirty (bufs t j) = dirty (bufs s j)" "b_data (bufs t j) = b_data (bufs s j)"
    for j by (simp_all add: bufs)
  show "quiet t" "distinct (bcache_list t)" "set (bcache_list t) = {..<30}" by (rule rest)+
  show "H - {i} \<subseteq> {..<30}" using D(4) by blast
  show "\<forall>j<30. sl_locked (sleeplocks t (Buf_lk j)) = (if j \<in> H - {i} then 1 else 0)" using sl D(5) by simp
  show "\<forall>j<30. b_refcnt (bufs t j) = (if j \<in> H - {i} then 1 else 0)" using D(6) by (simp add: bufs)
  show "\<forall>j<30. \<forall>k<30. b_dev (bufs t j) = 1 \<longrightarrow> b_dev (bufs t k) = 1 \<longrightarrow>
      b_blockno (bufs t j) = b_blockno (bufs t k) \<longrightarrow> j = k"
    unfolding dev using D(7) by blast
  show "\<forall>j<30. b_dev (bufs t j) = 1 \<longrightarrow> valid (bufs t j)" unfolding dev using D(8) by blast
  show "\<forall>j<30. dirty (bufs t j) \<or> j \<in> H - {i} \<longrightarrow> b_dev (bufs t j) = 1" unfolding dev using D(9) by blast
  show "\<forall>j<30. j \<notin> H - {i} \<longrightarrow> b_dev (bufs t j) = 1 \<longrightarrow> \<not> dirty (bufs t j) \<longrightarrow>
      b_data (bufs t j) = memdisk t (unat (b_blockno (bufs t j)))"
    unfolding dev rest(4) using D(10) clean by blast
qed

text \<open>What reading and releasing leave alone.\<close>

definition same_disk :: "'a disk_state_scheme \<Rightarrow> 'a disk_state_scheme \<Rightarrow> bool" where
  "same_disk s t \<longleftrightarrow> memdisk t = memdisk s \<and> disksize t = disksize s \<and> disk_writes t = disk_writes s \<and>
     disk_state.more t = disk_state.more s"

text \<open>\<open>got H s b i t\<close>: from \<open>s\<close>, reading block \<open>b\<close> gave the buffer \<open>i\<close> in the state \<open>t\<close>.\<close>

definition got :: "nat set \<Rightarrow> 'a disk_state_scheme \<Rightarrow> uint \<Rightarrow> nat \<Rightarrow> 'a disk_state_scheme \<Rightarrow> bool" where
  "got H s b i t \<longleftrightarrow> i < 30 \<and> i \<notin> H \<and> cache_inv (insert i H) t \<and> same_disk s t \<and>
     b_blockno (bufs t i) = b \<and> b_data (bufs t i) = content s b \<and> dirty (bufs t i) = (b \<in> pinned s) \<and>
     content t = content s \<and> pinned t = pinned s \<and> (\<forall>j. j \<noteq> i \<longrightarrow> bufs t j = bufs s j)"

lemma content_cases:
  assumes "cache_inv H s"
  obtains (hit) i where "i < 30" "b_dev (bufs s i) = 1" "b_blockno (bufs s i) = b" "content s b = b_data (bufs s i)"
  | (miss) "\<And>i. i < 30 \<Longrightarrow> b_dev (bufs s i) = 1 \<Longrightarrow> b_blockno (bufs s i) \<noteq> b" "content s b = memdisk s (unat b)"
proof (cases "\<exists>i<30. b_dev (bufs s i) = 1 \<and> b_blockno (bufs s i) = b")
  case True
  then obtain i where i: "i < 30" "b_dev (bufs s i) = 1" "b_blockno (bufs s i) = b" by blast
  then have "content s b = b_data (bufs s i)" using content_hit [OF assms i(1,2)] by simp
  with i show thesis by (rule hit)
next
  case False
  then have no: "\<And>i. i < 30 \<Longrightarrow> b_dev (bufs s i) = 1 \<Longrightarrow> b_blockno (bufs s i) \<noteq> b" by blast
  from no content_miss [OF no] show thesis by (rule miss) blast
qed

lemma pinned_hit:
  assumes "cache_inv H s" "i < 30" "b_dev (bufs s i) = 1"
  shows "b_blockno (bufs s i) \<in> pinned s \<longleftrightarrow> dirty (bufs s i)"
proof
  assume "b_blockno (bufs s i) \<in> pinned s"
  then obtain j where j: "j < 30" "dirty (bufs s j)" "b_blockno (bufs s j) = b_blockno (bufs s i)"
    unfolding pinned_def by auto
  then have "b_dev (bufs s j) = 1" using cache_invD(9) [OF assms(1) j(1)] by blast
  then have "j = i" using cache_invD(7) [OF assms(1) j(1) assms(2)] assms(3) j(3) by blast
  with j(2) show "dirty (bufs s i)" by simp
qed (use assms in \<open>auto simp: pinned_def\<close>)

lemma bread_hit:
  assumes inv: "cache_inv H s" and i: "i < 30" "b_dev (bufs s i) = 1" "b_blockno (bufs s i) = b" and h: "b \<notin> held H s"
  shows "\<exists>t. bread 1 b s = Inr (i, t) \<and> got H s b i t"
proof -
  note D = cache_invD [OF inv]
  have iH: "i \<notin> H" using h i(3) by (auto simp: held_def)
  define t where "t = sl_take (Buf_lk i) (upd_buf i (\<lambda>b. b\<lparr>b_refcnt := b_refcnt b + 1\<rparr>) s)"
  let ?P = "\<lambda>x. b_dev x = 1 \<and> b_blockno x = b"
  have "first_buf ?P (bcache_list s) s \<noteq> None"
    unfolding first_buf_None using i D(3) by (intro notI) (drule bspec [of _ _ i], simp_all)
  then obtain j where j: "first_buf ?P (bcache_list s) s = Some j" by blast
  have "j < 30" "?P (bufs s j)" using first_buf_Some [OF j] D(3) by auto
  then have "j = i" using D(7) [of j i] i by simp
  then have g: "bget 1 b s = Inr (i, t)"
    unfolding t_def using bget_hit [OF D(1), of 1 b i] j D(5) [OF i(1)] iH by simp
  have r1: "b_refcnt (bufs s i) + 1 = 1" using D(6) [OF i(1)] iH by simp
  have nb: "bufs t = (bufs s)(i := (bufs s i)\<lparr>b_refcnt := 1\<rparr>)" using r1 by (simp add: t_def)
  have val: "valid (bufs s i)" using D(8) i by blast
  then have run: "bread 1 b s = Inr (i, t)"
    using g by (simp add: bread_def nb flag_tests valid_def)
  have same: "b_dev (bufs t k) = b_dev (bufs s k)" "b_blockno (bufs t k) = b_blockno (bufs s k)"
    "b_data (bufs t k) = b_data (bufs s k)" "dirty (bufs t k) = dirty (bufs s k)" for k by (simp_all add: nb)
  have it: "cache_inv (insert i H) t"
  proof (rule cache_inv_take [OF inv i(1) nb])
    show "b_blockno (bufs s k) \<noteq> b_blockno ((bufs s i)\<lparr>b_refcnt := 1\<rparr>)"
      if "k < 30" "k \<noteq> i" "b_dev (bufs s k) = 1" for k
      using D(7) [OF that(1) i(1) that(3) i(2)] that(2) by auto
  qed (use i val D(1) in \<open>simp_all add: t_def\<close>)
  have sd: "same_disk s t" by (simp add: same_disk_def t_def)
  have "content t = content s"
  proof
    fix c
    have "first_buf (\<lambda>x. b_dev x = 1 \<and> b_blockno x = c) is t = first_buf (\<lambda>x. b_dev x = 1 \<and> b_blockno x = c) is s"
      for "is" by (induction "is") (simp_all add: same)
    then show "content t c = content s c"
      using sd by (simp add: content_def same same_disk_def split: option.splits)
  qed
  moreover have "pinned t = pinned s" by (simp add: pinned_def same)
  ultimately have "got H s b i t"
    unfolding got_def using i iH it sd content_hit [OF inv i(1,2)] pinned_hit [OF inv i(1,2)]
    by (simp add: same) (simp add: nb)
  with run show ?thesis by blast
qed

lemma bread_miss:
  assumes inv: "cache_inv H s" and no: "\<And>i. i < 30 \<Longrightarrow> b_dev (bufs s i) = 1 \<Longrightarrow> b_blockno (bufs s i) \<noteq> b"
    and room: "card (pinned s \<union> held H s) < 30" and b: "b < disksize s"
  shows "\<exists>i t. bread 1 b s = Inr (i, t) \<and> got H s b i t"
proof -
  note D = cache_invD [OF inv]
  let ?P = "\<lambda>b. b_refcnt b = 0 \<and> b_flags b AND 4 = 0"
  obtain k where k: "k < 30" "k \<notin> H" "\<not> dirty (bufs s k)" using recyclable [OF inv room] by blast
  have "first_buf ?P (rev (bcache_list s)) s \<noteq> None"
    unfolding first_buf_None using k D(3) D(6) [OF k(1)]
    by (intro notI) (drule bspec [of _ _ k], simp_all add: dirty_def flag_tests)
  then obtain i where f: "first_buf ?P (rev (bcache_list s)) s = Some i" by blast
  have i: "i < 30" "b_refcnt (bufs s i) = 0" "\<not> dirty (bufs s i)"
    using first_buf_Some [OF f] D(3) by (auto simp: dirty_def flag_tests)
  then have iH: "i \<notin> H" using D(6) [OF i(1)] by auto
  define u where "u = sl_take (Buf_lk i) (upd_buf i (\<lambda>x. x\<lparr>b_dev := 1, b_blockno := b, b_flags := 0, b_refcnt := 1\<rparr>) s)"
  define t where "t = upd_buf i (\<lambda>x. x\<lparr>b_data := memdisk u (unat (b_blockno x)), b_flags := b_flags x OR 2\<rparr>) u"
  have "first_buf (\<lambda>x. b_dev x = 1 \<and> b_blockno x = b) (bcache_list s) s = None"
    unfolding first_buf_None using no D(3) by auto
  then have g: "bget 1 b s = Inr (i, u)"
    unfolding u_def using bget_miss [OF D(1) _ f] D(5) [OF i(1)] iH by simp
  have ui: "b_flags (bufs u i) = 0" "b_dev (bufs u i) = 1" "b_blockno (bufs u i) = b" by (simp_all add: u_def)
  have "iderw i u = Inr t"
    unfolding t_def using ui b D(1) by (intro iderw_read) (simp_all add: u_def valid_def dirty_def)
  then have run: "bread 1 b s = Inr (i, t)" using g ui by (simp add: bread_def)
  define nb where "nb = (bufs s i)\<lparr>b_dev := 1, b_blockno := b, b_refcnt := 1, b_data := memdisk s (unat b), b_flags := 0 OR 2\<rparr>"
  have nb: "bufs t = (bufs s)(i := nb)" by (simp add: t_def u_def nb_def)
  have nbs: "b_dev nb = 1" "b_blockno nb = b" "b_refcnt nb = 1" "valid nb" "\<not> dirty nb" "b_data nb = memdisk s (unat b)"
    unfolding nb_def by (simp_all only: flag_updates) (simp_all)
  have it: "cache_inv (insert i H) t"
  proof (rule cache_inv_take [OF inv i(1) nb nbs(1,4,3)])
    show "quiet t" "bcache_list t = bcache_list s" "memdisk t = memdisk s" using D(1) by (simp_all add: t_def u_def)
    show "sl_locked (sleeplocks t (Buf_lk j)) = (if j = i then 1 else sl_locked (sleeplocks s (Buf_lk j)))" for j
      by (simp add: t_def u_def)
  qed (use no nbs in simp_all)
  have sd: "same_disk s t" by (simp add: same_disk_def t_def u_def)
  have cb: "content s b = memdisk s (unat b)" using no by (rule content_miss)
  have "content t c = content s c" for c
    using it
  proof (cases rule: content_cases [where b = c])
    case (hit j)
    show ?thesis
    proof (cases "j = i")
      case True
      then have "c = b" using hit(3) nbs(2) by (simp add: nb)
      then show ?thesis using hit(4) True nbs(6) cb by (simp add: nb)
    next
      case False
      then show ?thesis using hit content_hit [OF inv hit(1)] by (simp add: nb)
    qed
  next
    case miss
    have cnb: "c \<noteq> b" using miss(1) [OF i(1)] nbs(1,2) by (simp add: nb)
    show ?thesis
      using inv
    proof (cases rule: content_cases [where b = c])
      case (hit j)
      have "j = i" using miss(1) [OF hit(1)] hit(2,3) by (cases "j = i") (simp_all add: nb)
      then have "content s c = memdisk s (unat c)" using D(10) [OF i(1) iH] hit i(3) by simp
      then show ?thesis using miss(2) sd by (simp add: same_disk_def)
    next
      case m: miss
      then show ?thesis using miss(2) sd by (simp add: same_disk_def)
    qed
  qed
  then have "content t = content s" by blast
  moreover have "pinned t = pinned s"
    unfolding pinned_def nb using nbs(5) i(3) by (auto simp: fun_upd_def)
  moreover have "b \<notin> pinned s"
    using no cache_invD(9) [OF inv] by (auto simp: pinned_def)
  ultimately have "got H s b i t" unfolding got_def using i(1) iH it sd nbs cb by (simp add: nb)
  with run show ?thesis by blast
qed

lemma bread_spec:
  assumes "cache_inv H s" "b < disksize s" "b \<notin> held H s"
    and "b \<in> pinned s \<or> card (pinned s \<union> held H s) < 30"
  obtains i t where "bread 1 b s = Inr (i, t)" "got H s b i t"
proof (cases "\<exists>i<30. b_dev (bufs s i) = 1 \<and> b_blockno (bufs s i) = b")
  case True
  then show thesis using bread_hit [OF assms(1) _ _ _ assms(3)] that by blast
next
  case False
  have "b \<notin> pinned s"
  proof
    assume "b \<in> pinned s"
    then obtain i where "i < 30" "dirty (bufs s i)" "b_blockno (bufs s i) = b" by (auto simp: pinned_def)
    then show False using False cache_invD(9) [OF assms(1)] by blast
  qed
  then show thesis using bread_miss [OF assms(1) _ _ assms(2)] False assms(4) that by blast
qed

lemma bwrite_run:
  assumes inv: "cache_inv H s" and i: "i \<in> H" and b: "b_blockno (bufs s i) < disksize s"
  shows "bwrite i s = Inr (upd_buf i (\<lambda>b. b\<lparr>b_flags := ((b_flags b OR 4) AND NOT 4) OR 2\<rparr>)
    (disk_write (unat (b_blockno (bufs s i))) (b_data (bufs s i)) s))"
proof -
  note D = cache_invD [OF inv]
  have i30: "i < 30" using i D(4) by blast
  have lk: "sl_locked (sleeplocks s (Buf_lk i)) = 1" using D(5) [OF i30] i by simp
  let ?u = "upd_buf i (\<lambda>b. b\<lparr>b_flags := b_flags b OR 4\<rparr>) s"
  have "iderw i ?u = Inr (upd_buf i (\<lambda>b. b\<lparr>b_flags := (b_flags b AND NOT 4) OR 2\<rparr>)
      (disk_write (unat (b_blockno (bufs ?u i))) (b_data (bufs ?u i)) ?u))"
    using D(1) lk b D(9) [OF i30] i by (intro iderw_write) simp_all
  then show ?thesis using D(1) lk by (simp add: bwrite_def holdingsleep_quiet) (simp add: upd_buf_def disk_write_def)
qed

text \<open>Changing the data of a held buffer, and writing it.\<close>

lemma held_update:
  assumes inv: "cache_inv H s" and it: "cache_inv H t" and i: "i \<in> H" and nb: "bufs t = (bufs s)(i := nb)"
    and b: "b_blockno (bufs s i) = b" and nbs: "b_dev nb = 1" "b_blockno nb = b"
    and md: "\<And>n. n \<noteq> unat b \<Longrightarrow> memdisk t n = memdisk s n"
  shows "content t = (content s)(b := b_data nb)" "pinned t = (if dirty nb then insert b (pinned s) else pinned s - {b})"
proof -
  have i30: "i < 30" using i cache_invD(4) [OF inv] by blast
  have "content t c = ((content s)(b := b_data nb)) c" for c
    using it
  proof (cases rule: content_cases [where b = c])
    case (hit j)
    show ?thesis
    proof (cases "j = i")
      case True
      then show ?thesis using hit nbs by (simp add: nb)
    next
      case False
      have ti: "b_dev (bufs t i) = 1" "b_blockno (bufs t i) = b" by (simp_all add: nb nbs)
      have "c \<noteq> b" using cache_invD(7) [OF it hit(1) i30 hit(2) ti(1)] hit(3) False ti(2) by argo
      then show ?thesis using False hit content_hit [OF inv hit(1)] by (simp add: nb)
    qed
  next
    case miss
    have cb: "c \<noteq> b" using miss(1) [OF i30] nbs by (simp add: nb)
    have "content s c = memdisk s (unat c)"
    proof (rule content_miss)
      show "b_blockno (bufs s j) \<noteq> c" if "j < 30" "b_dev (bufs s j) = 1" for j
        using miss(1) [OF that(1)] that(2) b cb by (cases "j = i") (simp_all add: nb)
    qed
    moreover have "unat c \<noteq> unat b" using cb word_unat_eq_iff by blast
    ultimately show ?thesis using miss(2) cb md by simp
  qed
  then show "content t = (content s)(b := b_data nb)" by blast
  show "pinned t = (if dirty nb then insert b (pinned s) else pinned s - {b})"
  proof (rule set_eqI)
    fix c
    show "c \<in> pinned t \<longleftrightarrow> c \<in> (if dirty nb then insert b (pinned s) else pinned s - {b})"
    proof (cases "c = b")
      case True
      then show ?thesis using pinned_hit [OF it i30] nbs by (simp add: nb)
    next
      case False
      then show ?thesis unfolding pinned_def nb using b nbs(2) i30 by auto
    qed
  qed
qed

lemma write_held:
  assumes inv: "cache_inv H s" and i: "i \<in> H" and b: "b_blockno (bufs s i) = b" "b < disksize s"
  obtains t where "bwrite i (set_bdata i d s) = Inr t" "cache_inv H t" "memdisk t = (memdisk s)(unat b := d)"
    "content t = (content s)(b := d)" "pinned t = pinned s - {b}" "disksize t = disksize s"
    "disk_writes t = disk_writes s @ [(unat b, d)]" "disk_state.more t = disk_state.more s"
    "\<And>j. j \<noteq> i \<Longrightarrow> bufs t j = bufs s j" "b_blockno (bufs t i) = b" "b_data (bufs t i) = d" "\<not> dirty (bufs t i)"
proof -
  note D = cache_invD [OF inv]
  have i30: "i < 30" using i D(4) by blast
  have dev: "b_dev (bufs s i) = 1" using D(9) [OF i30] i by blast
  have rv: "b_refcnt (bufs s i) = 1" "valid (bufs s i)" using D(6) [OF i30] i D(8) [OF i30 dev] by simp_all
  have sb: "bufs (set_bdata i d s) = (bufs s)(i := (bufs s i)\<lparr>b_data := d\<rparr>)" by (simp add: set_bdata_def)
  have set: "cache_inv H (set_bdata i d s)"
    by (rule cache_inv_held [OF inv i sb]; use D(1) rv dev in \<open>simp add: set_bdata_def\<close>)
  define t where "t = upd_buf i (\<lambda>b. b\<lparr>b_flags := ((b_flags b OR 4) AND NOT 4) OR 2\<rparr>)
    (disk_write (unat b) d (set_bdata i d s))"
  have run: "bwrite i (set_bdata i d s) = Inr t"
    using bwrite_run [OF set i] b by (simp add: t_def set_bdata_def)
  define nb where "nb = (bufs s i)\<lparr>b_data := d, b_flags := ((b_flags (bufs s i) OR 4) AND NOT 4) OR 2\<rparr>"
  have nb: "bufs t = (bufs s)(i := nb)" by (simp add: t_def nb_def set_bdata_def)
  have nd: "\<not> dirty nb" unfolding nb_def by (rule flag_updates(5))
  then have nbs: "b_dev nb = 1" "b_blockno nb = b" "b_refcnt nb = 1" "valid nb" "\<not> dirty nb" "b_data nb = d"
    using dev b(1) D(6) [OF i30] i by (simp_all add: nb_def)
  have md: "memdisk t = (memdisk s)(unat b := d)" by (simp add: t_def set_bdata_def)
  have it: "cache_inv H t"
    by (rule cache_inv_held [OF inv i nb]; use nbs b D(1) md in \<open>simp add: t_def set_bdata_def\<close>)
  have ct: "content t = (content s)(b := d)" "pinned t = pinned s - {b}"
    using held_update [OF inv it i nb b(1) nbs(1,2)] md nbs(5,6) by simp_all
  moreover have "disksize t = disksize s" "disk_writes t = disk_writes s @ [(unat b, d)]"
    "disk_state.more t = disk_state.more s" by (simp_all add: t_def set_bdata_def)
  moreover have "bufs t j = bufs s j" if "j \<noteq> i" for j using that by (simp add: nb)
  moreover have "b_blockno (bufs t i) = b" "b_data (bufs t i) = d" "\<not> dirty (bufs t i)" using nbs by (simp_all add: nb)
  ultimately show thesis by (intro that [OF run it md ct])
qed

lemma brelse_spec:
  assumes inv: "cache_inv H s" and i: "i \<in> H"
    and clean: "\<not> dirty (bufs s i) \<Longrightarrow> b_data (bufs s i) = memdisk s (unat (b_blockno (bufs s i)))"
  obtains t where "brelse i s = Inr t" "cache_inv (H - {i}) t" "same_disk s t" "content t = content s"
    "pinned t = pinned s" "\<And>j. j \<noteq> i \<Longrightarrow> bufs t j = bufs s j"
proof -
  note D = cache_invD [OF inv]
  have i30: "i < 30" using i D(4) by blast
  have lk: "sl_locked (sleeplocks s (Buf_lk i)) = 1" using D(5) [OF i30] i by simp
  define u where "u = sl_drop (Buf_lk i) s"
  have qu: "quiet u" using D(1) by (simp add: u_def)
  have r0: "b_refcnt (bufs s i) - 1 = 0" using D(6) [OF i30] i by simp
  define v where "v = (upd_buf i (\<lambda>b. b\<lparr>b_refcnt := 0\<rparr>) u)\<lparr>bcache_list := i # remove1 i (bcache_list u)\<rparr>"
  let ?c = "cpu_enter (cpu u)" and ?L = "(locks u)(Bcache_lock := take_lock (cpu_id (cpu u)) (locks u Bcache_lock))"
  have dec: "upd_buf i (\<lambda>b. b\<lparr>b_refcnt := b_refcnt b - 1\<rparr>) x = upd_buf i (\<lambda>b. b\<lparr>b_refcnt := 0\<rparr>) x"
    if "bufs x = bufs s" for x using r0 that by (simp add: upd_buf_def)
  have "releasesleep (Buf_lk i) s = Inr u" using releasesleep_quiet [OF D(1)] by (simp add: u_def)
  moreover have rel: "release Bcache_lock (v\<lparr>cpu := ?c, locks := ?L\<rparr>) = Inr v"
  proof -
    have "v\<lparr>cpu := settle (cpu u)\<rparr> = v" using quietD(2) [OF qu] by (simp add: v_def upd_buf_def)
    then show ?thesis using release_after [of Bcache_lock u v] quietD [OF qu] by (simp add: v_def upd_buf_def)
  qed
  moreover define w where "w = u\<lparr>cpu := ?c, locks := ?L\<rparr>"
  have "acquire Bcache_lock u = Inr w" using bcache_section(1) [OF qu] by (simp add: w_def)
  ultimately have "brelse i s = (let s = upd_buf i (\<lambda>b. b\<lparr>b_refcnt := b_refcnt b - 1\<rparr>) w;
      s = (if b_refcnt (bufs s i) = 0 then s\<lparr>bcache_list := i # remove1 i (bcache_list s)\<rparr> else s)
      in release Bcache_lock s)"
    using lk by (simp add: brelse_def holdingsleep_quiet [OF D(1)] del: upd_buf_simps)
  also have "upd_buf i (\<lambda>b. b\<lparr>b_refcnt := b_refcnt b - 1\<rparr>) w = upd_buf i (\<lambda>b. b\<lparr>b_refcnt := 0\<rparr>) w"
    by (rule dec) (simp add: w_def u_def)
  also have "(let s = upd_buf i (\<lambda>b. b\<lparr>b_refcnt := 0\<rparr>) w;
      s = (if b_refcnt (bufs s i) = 0 then s\<lparr>bcache_list := i # remove1 i (bcache_list s)\<rparr> else s)
      in release Bcache_lock s) = release Bcache_lock (v\<lparr>cpu := ?c, locks := ?L\<rparr>)"
    by (simp add: Let_def v_def w_def upd_buf_def lock_outermost)
  also note rel
  finally have run: "brelse i s = Inr v" .
  have bv: "bufs v = (bufs s)(i := (bufs s i)\<lparr>b_refcnt := 0\<rparr>)" by (simp add: v_def u_def)
  have it: "cache_inv (H - {i}) v"
  proof (rule cache_inv_drop [OF inv i bv clean])
    show "quiet v" using qu by (simp add: v_def quiet_def lock_free_def upd_buf_def)
    show "distinct (bcache_list v)" using D(2) by (simp add: v_def u_def)
    have "i \<in> set (bcache_list s)" using D(3) i30 by simp
    then show "set (bcache_list v) = {..<30}" using D(2,3) by (auto simp: v_def u_def)
  qed (simp_all add: v_def u_def)
  have same: "b_dev (bufs v k) = b_dev (bufs s k)" "b_blockno (bufs v k) = b_blockno (bufs s k)"
    "b_data (bufs v k) = b_data (bufs s k)" "dirty (bufs v k) = dirty (bufs s k)" for k by (simp_all add: bv)
  have sd: "same_disk s v" by (simp add: same_disk_def v_def u_def)
  have "content v = content s"
  proof
    fix c
    have "first_buf (\<lambda>x. b_dev x = 1 \<and> b_blockno x = c) is v = first_buf (\<lambda>x. b_dev x = 1 \<and> b_blockno x = c) is s"
      for "is" by (induction "is") (simp_all add: same)
    then show "content v c = content s c"
      using sd by (simp add: content_def same same_disk_def split: option.splits)
  qed
  moreover have "pinned v = pinned s" by (simp add: pinned_def same)
  ultimately show thesis by (rule that [OF run it sd]) (simp add: bv)
qed

end
