(* ===== verification/LogProofs.thy ===== *)
theory LogProofs
  imports BioProofs Log
begin

text \<open>
  The redo log is crash safe: what \<^verbatim>\<open>commit\<close> writes to the disk, in which order, and what recovery
  makes of every disk a crash can leave behind.
\<close>

section \<open>Integers in blocks\<close>

lemma decode_encode32 [simp]: "decode32 (encode32 v) = v"
proof (rule bit_word_eqI)
  fix n assume "n < LENGTH(32)"
  then have "n < 32" by simp
  then have "n < 8 \<or> 8 \<le> n \<and> n < 16 \<or> 16 \<le> n \<and> n < 24 \<or> 24 \<le> n" by arith
  with \<open>n < 32\<close> show "bit (decode32 (encode32 v)) n = bit v n"
    by (auto simp: decode32_def encode32_def bit_or_iff bit_push_bit_iff bit_ucast_iff bit_drop_bit_eq)
qed

lemma length_encode32 [simp]: "length (encode32 v) = 4"
  by (simp add: encode32_def)

lemma length_set_field32 [simp]: "4 * k + 4 \<le> length d \<Longrightarrow> length (set_field32 d k v) = length d"
  by (simp add: set_field32_def)

lemma field32_set_same [simp]: "4 * k + 4 \<le> length d \<Longrightarrow> field32 (set_field32 d k v) k = v"
  by (simp add: field32_def set_field32_def)

lemma field32_set_other:
  assumes "j \<noteq> k" "4 * k + 4 \<le> length d"
  shows "field32 (set_field32 d k v) j = field32 d j"
proof (cases "j < k")
  case True
  then show ?thesis using assms(2) by (simp add: field32_def set_field32_def drop_take min_absorb1)
next
  case False
  then have "4 * k + 4 \<le> 4 * j" using assms(1) by simp
  then show ?thesis using assms(2) by (simp add: field32_def set_field32_def)
qed

lemma fold_fields:
  fixes f :: "nat \<Rightarrow> uint" and d :: block
  assumes "4 * n + 4 \<le> length d"
  defines "e \<equiv> fold (\<lambda>i d. set_field32 d (i + 1) (f i)) [0..<n] d"
  shows "length e = length d" "field32 e 0 = field32 d 0" "i < n \<Longrightarrow> field32 e (i + 1) = f i"
proof -
  have "length e = length d \<and> field32 e 0 = field32 d 0 \<and> (\<forall>i<n. field32 e (i + 1) = f i)"
    using assms
  proof (induction n arbitrary: e)
    case (Suc n)
    then show ?case by (auto simp: field32_set_other less_Suc_eq)
  qed simp
  then show "length e = length d" "field32 e 0 = field32 d 0" "i < n \<Longrightarrow> field32 e (i + 1) = f i" by simp_all
qed

lemma head_block_fields:
  assumes "length d = 512" "nat (sint (lh_n lh)) \<le> 30"
  shows "length (head_block lh d) = 512" "field32 (head_block lh d) 0 = lh_n lh"
    "i < nat (sint (lh_n lh)) \<Longrightarrow> field32 (head_block lh d) (i + 1) = lh_block lh ! i"
  using fold_fields [where n = "nat (sint (lh_n lh))" and d = "set_field32 d 0 (lh_n lh)" and f = "\<lambda>i. lh_block lh ! i"] assms
  by (simp_all add: head_block_def)

section \<open>Sequences of block writes\<close>

definition overlay :: "(uint \<times> block) list \<Rightarrow> (uint \<Rightarrow> block) \<Rightarrow> uint \<Rightarrow> block" where
  "overlay ws c = fold (\<lambda>(b, d) c. c(b := d)) ws c"

definition disk_overlay :: "(nat \<times> block) list \<Rightarrow> (nat \<Rightarrow> block) \<Rightarrow> nat \<Rightarrow> block" where
  "disk_overlay ws m = fold (\<lambda>(b, d) m. m(b := d)) ws m"

abbreviation on_disk :: "(uint \<times> block) list \<Rightarrow> (nat \<times> block) list" where
  "on_disk ws \<equiv> map (\<lambda>(b, d). (unat b, d)) ws"

lemma overlay_simps [simp]:
  "overlay [] c = c" "overlay ((b, d) # ws) c = overlay ws (c(b := d))" "overlay (ws @ vs) c = overlay vs (overlay ws c)"
  "disk_overlay [] m = m" "disk_overlay ((x, d) # us) m = disk_overlay us (m(x := d))"
  "disk_overlay (us @ us') m = disk_overlay us' (disk_overlay us m)"
  by (simp_all add: overlay_def disk_overlay_def)

lemma overlay_other: "b \<notin> fst ` set ws \<Longrightarrow> overlay ws c b = c b"
  by (induction ws arbitrary: c) auto

lemma overlay_at: "distinct (map fst ws) \<Longrightarrow> (b, d) \<in> set ws \<Longrightarrow> overlay ws c b = d"
  by (induction ws arbitrary: c) (auto simp: overlay_other)

lemma disk_overlay_other: "x \<notin> fst ` set ws \<Longrightarrow> disk_overlay ws m x = m x"
  by (induction ws arbitrary: m) auto

lemma disk_overlay_at: "distinct (map fst ws) \<Longrightarrow> (x, d) \<in> set ws \<Longrightarrow> disk_overlay ws m x = d"
  by (induction ws arbitrary: m) (auto simp: disk_overlay_other)

text \<open>
  \<open>flushed s ws t\<close>: from \<open>s\<close> to \<open>t\<close> the writes \<open>ws\<close> reached the disk through the cache, in this order;
  the blocks written are no longer pinned and nothing outside the disk layer changed.
\<close>

definition flushed :: "'a disk_state_scheme \<Rightarrow> (uint \<times> block) list \<Rightarrow> 'a disk_state_scheme \<Rightarrow> bool" where
  "flushed s ws t \<longleftrightarrow> cache_inv {} t \<and> memdisk t = disk_overlay (on_disk ws) (memdisk s) \<and>
     content t = overlay ws (content s) \<and> pinned t = pinned s - fst ` set ws \<and> disksize t = disksize s \<and>
     disk_writes t = disk_writes s @ on_disk ws \<and> disk_state.more t = disk_state.more s"

lemma flushedD:
  assumes "flushed s ws t"
  shows "cache_inv {} t" "memdisk t = disk_overlay (on_disk ws) (memdisk s)" "content t = overlay ws (content s)"
    "pinned t = pinned s - fst ` set ws" "disksize t = disksize s" "disk_writes t = disk_writes s @ on_disk ws"
    "disk_state.more t = disk_state.more s"
  using assms by (simp_all add: flushed_def)

lemma flushed_Nil: "cache_inv {} s \<Longrightarrow> flushed s [] s"
  by (simp add: flushed_def)

lemma flushed_trans: "flushed s ws t \<Longrightarrow> flushed t vs u \<Longrightarrow> flushed s (ws @ vs) u"
  by (simp add: flushed_def Diff_eq image_Un Int_assoc)

lemma copy_finish:
  assumes inv: "cache_inv {f, g} s" and fg: "f \<noteq> g" and ab: "a \<noteq> b" and b: "b < disksize s"
    and f: "b_blockno (bufs s f) = a" "b_data (bufs s f) = content s a"
    and clean: "\<not> dirty (bufs s f) \<Longrightarrow> content s a = memdisk s (unat a)"
    and g: "b_blockno (bufs s g) = b"
  obtains t1 t2 t where "bwrite g (set_bdata g (bdata f s) s) = Inr t1" "brelse f t1 = Inr t2" "brelse g t2 = Inr t"
    "flushed s [(b, content s a)] t"
proof -
  have bd: "bdata f s = content s a" using f(2) by (simp add: bdata_def)
  have gH: "g \<in> {f, g}" and fH: "f \<in> {f, g}" by simp_all
  obtain t1 where t1: "bwrite g (set_bdata g (content s a) s) = Inr t1" "cache_inv {f, g} t1"
    "memdisk t1 = (memdisk s)(unat b := content s a)" "content t1 = (content s)(b := content s a)"
    "pinned t1 = pinned s - {b}" "disksize t1 = disksize s"
    "disk_writes t1 = disk_writes s @ [(unat b, content s a)]" "disk_state.more t1 = disk_state.more s"
    and j1: "\<And>j. j \<noteq> g \<Longrightarrow> bufs t1 j = bufs s j"
    and g1: "b_blockno (bufs t1 g) = b" "b_data (bufs t1 g) = content s a" "\<not> dirty (bufs t1 g)"
    by (rule write_held [OF inv gH g b, of "content s a"]) (rule that)
  have f1: "bufs t1 f = bufs s f" using j1 fg by blast
  have "unat a \<noteq> unat b" using ab word_unat_eq_iff by blast
  then have "b_data (bufs t1 f) = memdisk t1 (unat (b_blockno (bufs t1 f)))" if "\<not> dirty (bufs t1 f)"
    using that clean f f1 t1(3) by simp
  note f_clean = this
  obtain t2 where t2: "brelse f t1 = Inr t2" "cache_inv ({f, g} - {f}) t2" "same_disk t1 t2"
    "content t2 = content t1" "pinned t2 = pinned t1" and j2: "\<And>j. j \<noteq> f \<Longrightarrow> bufs t2 j = bufs t1 j"
    by (rule brelse_spec [OF t1(2) fH f_clean]) (assumption, rule that)
  have inv2: "cache_inv {g} t2" using t2(2) fg by (simp add: insert_Diff_if)
  have g2: "bufs t2 g = bufs t1 g" using j2 [of g] fg by simp
  have "b_data (bufs t2 g) = memdisk t2 (unat (b_blockno (bufs t2 g)))"
    using g1 g2 t1(3) t2(3) by (simp add: same_disk_def)
  note g_clean = this
  obtain t where t: "brelse g t2 = Inr t" "cache_inv ({g} - {g}) t" "same_disk t2 t" "content t = content t2"
    "pinned t = pinned t2" and j3: "\<And>j. j \<noteq> g \<Longrightarrow> bufs t j = bufs t2 j"
    by (rule brelse_spec [OF inv2 singletonI g_clean]) (rule that)
  have "flushed s [(b, content s a)] t"
    using t(2-5) t2(3-5) t1(3-8) by (simp add: flushed_def same_disk_def)
  with t1(1) [folded bd] t2(1) t(1) show thesis by (rule that)
qed


lemma read_two:
  assumes inv: "cache_inv {} s" and "a < disksize s" "b < disksize s" "a \<noteq> b"
    and "a \<in> pinned s \<or> card (pinned s) < 30" "b \<in> pinned s \<or> card (insert a (pinned s)) < 30"
  obtains i j t u where "bread 1 a s = Inr (i, t)" "disk_state.more t = disk_state.more s" "bread 1 b t = Inr (j, u)"
    "i \<noteq> j" "cache_inv {i, j} u" "same_disk s u" "content u = content s" "pinned u = pinned s"
    "b_blockno (bufs u i) = a" "b_data (bufs u i) = content s a" "dirty (bufs u i) \<longleftrightarrow> a \<in> pinned s"
    "b_blockno (bufs u j) = b" "b_data (bufs u j) = content s b" "dirty (bufs u j) \<longleftrightarrow> b \<in> pinned s"
proof -
  have "a \<notin> held {} s" "a \<in> pinned s \<or> card (pinned s \<union> held {} s) < 30" using assms(5) by (simp_all add: held_def)
  then obtain i t where it: "bread 1 a s = Inr (i, t)" and g: "got {} s a i t"
    by (rule bread_spec [OF inv assms(2)])
  have t: "cache_inv {i} t" "same_disk s t" "b_blockno (bufs t i) = a" "b_data (bufs t i) = content s a"
    "dirty (bufs t i) = (a \<in> pinned s)" "content t = content s" "pinned t = pinned s"
    using g by (simp_all add: got_def)
  have "b < disksize t" "b \<notin> held {i} t" "b \<in> pinned t \<or> card (pinned t \<union> held {i} t) < 30"
    using assms(3,4,6) t(2,3,7) by (simp_all add: held_def same_disk_def)
  then obtain j u where ju: "bread 1 b t = Inr (j, u)" and g': "got {i} t b j u"
    by (rule bread_spec [OF t(1)])
  have ij: "i \<noteq> j" using g' by (auto simp: got_def)
  have u: "cache_inv {i, j} u" "same_disk t u" "b_blockno (bufs u j) = b" "b_data (bufs u j) = content t b"
    "dirty (bufs u j) = (b \<in> pinned t)" "content u = content t" "pinned u = pinned t" "bufs u i = bufs t i"
    using g' ij by (simp_all add: got_def insert_commute)
  show thesis
    by (rule that [OF it _ ju ij]) (use t u in \<open>simp_all add: same_disk_def\<close>)
qed

lemma same_disk_wrote: "same_disk s u \<Longrightarrow> content u = content s \<Longrightarrow> pinned u = pinned s \<Longrightarrow> flushed u ws t \<Longrightarrow> flushed s ws t"
  by (simp add: flushed_def same_disk_def)

section \<open>The two loops\<close>

lemma more_log: "disk_state.more (s :: 'a log_state_scheme) = \<lparr>fslog = fslog s, \<dots> = log_state.more s\<rparr>"
  by (cases s) simp

lemma more_fslog: "disk_state.more t = disk_state.more s \<Longrightarrow> fslog t = fslog (s :: 'a log_state_scheme)"
  unfolding more_log by simp

lemma flushed_fslog: "flushed s ws t \<Longrightarrow> fslog t = fslog (s :: 'a log_state_scheme)"
  by (rule more_fslog) (rule flushedD(7))

text \<open>The disk position of entry \<open>i\<close> of the log, and the home of the block logged there.\<close>

definition log_pos :: "'a log_state_scheme \<Rightarrow> nat \<Rightarrow> uint" where
  "log_pos s i = l_start (fslog s) + of_nat i + 1"

definition home :: "'a log_state_scheme \<Rightarrow> nat \<Rightarrow> uint" where
  "home s i = lh_block (l_lh (fslog s)) ! i"

definition apart :: "'a log_state_scheme \<Rightarrow> nat list \<Rightarrow> bool" where
  "apart s is \<longleftrightarrow> l_dev (fslog s) = 1 \<and> distinct (map (log_pos s) is) \<and> distinct (map (home s) is) \<and>
     log_pos s ` set is \<inter> home s ` set is = {} \<and> log_pos s ` set is \<inter> pinned s = {} \<and>
     (\<forall>i \<in> set is. log_pos s i < disksize s \<and> home s i < disksize s)"

lemma apart_other:
  assumes "apart s (i # is)" "j \<in> set is"
  shows "home s j \<noteq> log_pos s i" "log_pos s j \<noteq> home s i" "home s j \<noteq> home s i"
proof -
  have "log_pos s i \<notin> home s ` set is" "home s i \<notin> log_pos s ` set is" "home s i \<notin> home s ` set is"
    using assms(1) by (simp_all add: apart_def)
  then show "home s j \<noteq> log_pos s i" "log_pos s j \<noteq> home s i" "home s j \<noteq> home s i"
    using assms(2) by (metis imageI)+
qed

lemma write_log_loop_run:
  assumes "cache_inv {} s" "apart s is" "home s ` set is \<subseteq> pinned s" "card (pinned s) < 30"
  shows "\<exists>t. write_log_loop is s = Inr t \<and> flushed s (map (\<lambda>i. (log_pos s i, content s (home s i))) is) t"
  using assms
proof (induction "is" arbitrary: s)
  case Nil
  then show ?case by (simp add: flushed_Nil)
next
  case (Cons i "is")
  let ?a = "log_pos s i" and ?b = "home s i"
  have A: "l_dev (fslog s) = 1" "?a < disksize s" "?b < disksize s" "?a \<noteq> ?b" "?a \<notin> pinned s" "?b \<in> pinned s"
    using Cons.prems(2,3) by (auto simp: apart_def)
  obtain g f t u where r: "bread 1 ?a s = Inr (g, t)" "disk_state.more t = disk_state.more s"
    "bread 1 ?b t = Inr (f, u)" "g \<noteq> f" "cache_inv {g, f} u" "same_disk s u" "content u = content s"
    "pinned u = pinned s" "b_blockno (bufs u g) = ?a" "b_data (bufs u g) = content s ?a" "dirty (bufs u g) \<longleftrightarrow> ?a \<in> pinned s"
    "b_blockno (bufs u f) = ?b" "b_data (bufs u f) = content s ?b" "dirty (bufs u f) \<longleftrightarrow> ?b \<in> pinned s"
    by (rule read_two [OF Cons.prems(1) A(2-4) disjI2 [OF Cons.prems(4)] disjI1 [OF A(6)]]) (rule that)
  have c: "cache_inv {f, g} u" "f \<noteq> g" "?b \<noteq> ?a" "?a < disksize u" "b_data (bufs u f) = content u ?b"
    using r(4-7,13) A(2,4) by (simp_all add: insert_commute same_disk_def)
  have cl: "content u ?b = memdisk u (unat ?b)" if "\<not> dirty (bufs u f)" using that r(14) A(6) by simp
  obtain t1 t2 v where w: "bwrite g (set_bdata g (bdata f u) u) = Inr t1" "brelse f t1 = Inr t2"
    "brelse g t2 = Inr v" "flushed u [(?a, content u ?b)] v"
    by (rule copy_finish [OF c(1-4) r(12) c(5) cl r(9)]) (assumption, rule that)
  have v: "flushed s [(?a, content s ?b)] v" using same_disk_wrote [OF r(6-8) w(4)] r(7) by simp
  have fl: "fslog t = fslog s" "fslog v = fslog s" using r(2) more_fslog flushed_fslog [OF v] by blast+
  have eq: "log_pos v = log_pos s" "home v = home s" using fl by (simp_all add: log_pos_def home_def fun_eq_iff)
  have p: "pinned v = pinned s" using flushedD(4) [OF v] A(5) by simp
  have "apart v is" "home v ` set is \<subseteq> pinned v" "card (pinned v) < 30"
    using Cons.prems(2-4) flushedD(5) [OF v] by (simp_all add: apart_def eq fl p)
  then obtain w' where w': "write_log_loop is v = Inr w'"
    "flushed v (map (\<lambda>i. (log_pos v i, content v (home v i))) is) w'"
    using Cons.IH [OF flushedD(1) [OF v]] by blast
  have me: "map (\<lambda>i. (log_pos v i, content v (home v i))) is = map (\<lambda>i. (log_pos s i, content s (home s i))) is"
    using apart_other(1) [OF Cons.prems(2)] flushedD(3) [OF v] by (simp add: eq)
  have "flushed s (map (\<lambda>i. (log_pos s i, content s (home s i))) (i # is)) w'"
    using flushed_trans [OF v w'(2) [unfolded me]] by simp
  moreover have "write_log_loop (i # is) s = Inr w'"
    using r(1,3) w(1-3) w'(1) by (simp add: A(1) fl(1) log_pos_def home_def)
  ultimately show ?case by blast
qed

lemma install_trans_loop_run:
  assumes "cache_inv {} s" "apart s is" "home s ` set is \<subseteq> pinned s \<or> pinned s = {}" "card (pinned s) < 30"
  shows "\<exists>t. install_trans_loop is s = Inr t \<and> flushed s (map (\<lambda>i. (home s i, content s (log_pos s i))) is) t"
  using assms
proof (induction "is" arbitrary: s)
  case Nil
  then show ?case by (simp add: flushed_Nil)
next
  case (Cons i "is")
  let ?a = "log_pos s i" and ?b = "home s i"
  have A: "l_dev (fslog s) = 1" "?a < disksize s" "?b < disksize s" "?a \<noteq> ?b" "?a \<notin> pinned s"
    "?b \<in> pinned s \<or> card (insert ?a (pinned s)) < 30"
    using Cons.prems(2,3) by (auto simp: apart_def)
  obtain f g t u where r: "bread 1 ?a s = Inr (f, t)" "disk_state.more t = disk_state.more s"
    "bread 1 ?b t = Inr (g, u)" "f \<noteq> g" "cache_inv {f, g} u" "same_disk s u" "content u = content s"
    "pinned u = pinned s" "b_blockno (bufs u f) = ?a" "b_data (bufs u f) = content s ?a" "dirty (bufs u f) \<longleftrightarrow> ?a \<in> pinned s"
    "b_blockno (bufs u g) = ?b" "b_data (bufs u g) = content s ?b" "dirty (bufs u g) \<longleftrightarrow> ?b \<in> pinned s"
    by (rule read_two [OF Cons.prems(1) A(2-4) disjI2 [OF Cons.prems(4)] A(6)]) (rule that)
  have c: "?b < disksize u" "b_data (bufs u f) = content u ?a" "content u ?a = memdisk u (unat ?a)"
    using r(6,7,10) A(3) content_unpinned [OF Cons.prems(1) A(5)] by (simp_all add: same_disk_def)
  obtain t1 t2 v where w: "bwrite g (set_bdata g (bdata f u) u) = Inr t1" "brelse f t1 = Inr t2"
    "brelse g t2 = Inr v" "flushed u [(?b, content u ?a)] v"
    by (rule copy_finish [OF r(5,4) A(4) c(1) r(9) c(2,3) r(12)]) (rule that)
  have v: "flushed s [(?b, content s ?a)] v" using same_disk_wrote [OF r(6-8) w(4)] r(7) by simp
  have fl: "fslog t = fslog s" "fslog v = fslog s" using r(2) more_fslog flushed_fslog [OF v] by blast+
  have eq: "log_pos v = log_pos s" "home v = home s" using fl by (simp_all add: log_pos_def home_def fun_eq_iff)
  have p: "pinned v = pinned s - {?b}" using flushedD(4) [OF v] by simp
  have "card (pinned v) < 30"
    using Cons.prems(4) card_mono [OF finite_pinned, of "pinned s - {?b}" s] by (simp add: p)
  moreover have "apart v is" using Cons.prems(2) flushedD(5) [OF v] by (auto simp: apart_def eq fl p)
  moreover have "home v ` set is \<subseteq> pinned v \<or> pinned v = {}"
    using Cons.prems(3) apart_other(3) [OF Cons.prems(2)] by (auto simp: eq p)
  ultimately obtain w' where w': "install_trans_loop is v = Inr w'"
    "flushed v (map (\<lambda>i. (home v i, content v (log_pos v i))) is) w'"
    using Cons.IH [OF flushedD(1) [OF v]] by blast
  have me: "map (\<lambda>i. (home v i, content v (log_pos v i))) is = map (\<lambda>i. (home s i, content s (log_pos s i))) is"
    using apart_other(2) [OF Cons.prems(2)] flushedD(3) [OF v] by (simp add: eq)
  have "flushed s (map (\<lambda>i. (home s i, content s (log_pos s i))) (i # is)) w'"
    using flushed_trans [OF v w'(2) [unfolded me]] by simp
  moreover have "install_trans_loop (i # is) s = Inr w'"
    using r(1,3) w(1-3) w'(1) by (simp add: A(1) fl(1) log_pos_def home_def)
  ultimately show ?case by blast
qed

section \<open>The header block\<close>

lemma write_head_run:
  assumes inv: "cache_inv {} s" and dev: "l_dev (fslog s) = 1" and st: "l_start (fslog s) < disksize s"
    and room: "card (pinned s) < 30"
  shows "\<exists>t. write_head s = Inr t \<and>
           flushed s [(l_start (fslog s), head_block (l_lh (fslog s)) (content s (l_start (fslog s))))] t"
proof -
  let ?b = "l_start (fslog s)"
  define hd where "hd = head_block (l_lh (fslog s)) (content s ?b)"
  have "?b \<notin> held {} s" "?b \<in> pinned s \<or> card (pinned s \<union> held {} s) < 30" using room by (simp_all add: held_def)
  then obtain i t where it: "bread 1 ?b s = Inr (i, t)" and g: "got {} s ?b i t"
    by (rule bread_spec [OF inv st])
  have t: "cache_inv {i} t" "same_disk s t" "b_blockno (bufs t i) = ?b" "b_data (bufs t i) = content s ?b"
    "content t = content s" "pinned t = pinned s"
    using g by (simp_all add: got_def)
  have fl: "fslog t = fslog s" using t(2) by (intro more_fslog) (simp add: same_disk_def)
  have lt: "?b < disksize t" using st t(2) by (simp add: same_disk_def)
  obtain u where u: "bwrite i (set_bdata i hd t) = Inr u" "cache_inv {i} u"
    "memdisk u = (memdisk t)(unat ?b := hd)" "content u = (content t)(?b := hd)"
    "pinned u = pinned t - {?b}" "disksize u = disksize t"
    "disk_writes u = disk_writes t @ [(unat ?b, hd)]" "disk_state.more u = disk_state.more t"
    "\<And>j. j \<noteq> i \<Longrightarrow> bufs u j = bufs t j"
    "b_blockno (bufs u i) = ?b" "b_data (bufs u i) = hd" "\<not> dirty (bufs u i)"
    by (rule write_held [OF t(1) singletonI t(3) lt]) (rule that)
  have cl: "b_data (bufs u i) = memdisk u (unat (b_blockno (bufs u i)))" using u(3,10,11) by simp
  obtain v where v: "brelse i u = Inr v" "cache_inv ({i} - {i}) v" "same_disk u v" "content v = content u"
    "pinned v = pinned u" "\<And>j. j \<noteq> i \<Longrightarrow> bufs v j = bufs u j"
    by (rule brelse_spec [OF u(2) singletonI cl]) (rule that)
  have "flushed s [(?b, hd)] v"
    using v(2-5) u(3-8) t(2,5,6) by (simp add: flushed_def same_disk_def)
  moreover have "write_head s = Inr v"
    using it u(1) v(1) t(4) by (simp add: write_head_def dev fl bdata_def hd_def)
  ultimately show ?thesis unfolding hd_def by blast
qed

lemma first_buf_fslog [simp]: "first_buf P is (s\<lparr>fslog := l\<rparr>) = first_buf P is s"
  by (rule first_buf_cong) simp

lemma upd_lh_simps [simp]:
  "cache_inv H (upd_lh f s) = cache_inv H s" "content (upd_lh f s) = content s" "pinned (upd_lh f s) = pinned s"
  "bufs (upd_lh f s) = bufs s" "memdisk (upd_lh f s) = memdisk s" "disksize (upd_lh f s) = disksize s"
  "disk_writes (upd_lh f s) = disk_writes s" "fslog (upd_lh f s) = (fslog s)\<lparr>l_lh := f (l_lh (fslog s))\<rparr>"
  by (simp_all add: upd_lh_def upd_log_def cache_inv_def quiet_def lock_free_def content_def pinned_def fun_eq_iff cong: option.case_cong)

definition loaded :: "block \<Rightarrow> logheader \<Rightarrow> logheader" where
  "loaded d lh = lh\<lparr>lh_n := field32 d 0,
     lh_block := map (\<lambda>i. if i < nat (sint (field32 d 0)) then field32 d (i + 1) else lh_block lh ! i) [0..<LOGSIZE]\<rparr>"

lemma read_head_run:
  assumes inv: "cache_inv {} s" and dev: "l_dev (fslog s) = 1" and st: "l_start (fslog s) < disksize s"
    and room: "card (pinned s) < 30" and n: "sint (field32 (content s (l_start (fslog s))) 0) \<le> 30"
  shows "\<exists>t. read_head s = Inr t \<and> cache_inv {} t \<and> memdisk t = memdisk s \<and> content t = content s \<and>
           pinned t = pinned s \<and> disksize t = disksize s \<and> disk_writes t = disk_writes s \<and>
           fslog t = (fslog s)\<lparr>l_lh := loaded (content s (l_start (fslog s))) (l_lh (fslog s))\<rparr>"
proof -
  let ?b = "l_start (fslog s)"
  let ?f = "loaded (content s ?b)"
  have "?b \<notin> held {} s" "?b \<in> pinned s \<or> card (pinned s \<union> held {} s) < 30" using room by (simp_all add: held_def)
  then obtain i t where it: "bread 1 ?b s = Inr (i, t)" and g: "got {} s ?b i t"
    by (rule bread_spec [OF inv st])
  have t: "cache_inv {i} t" "same_disk s t" "b_blockno (bufs t i) = ?b" "b_data (bufs t i) = content s ?b"
    "content t = content s" "pinned t = pinned s" "dirty (bufs t i) = (?b \<in> pinned s)"
    using g by (simp_all add: got_def)
  have fl: "fslog t = fslog s" using t(2) by (intro more_fslog) (simp add: same_disk_def)
  define u where "u = upd_lh ?f t"
  have u: "cache_inv {i} u" using t(1) by (simp add: u_def)
  have cl: "b_data (bufs u i) = memdisk u (unat (b_blockno (bufs u i)))" if "\<not> dirty (bufs u i)"
    using that t(2-4,7) content_unpinned [OF inv, of ?b] by (simp add: u_def same_disk_def)
  obtain v where v: "brelse i u = Inr v" "cache_inv ({i} - {i}) v" "same_disk u v" "content v = content u"
    "pinned v = pinned u" "\<And>j. j \<noteq> i \<Longrightarrow> bufs v j = bufs u j"
    by (rule brelse_spec [OF u singletonI cl]) (assumption, rule that)
  have "fslog v = fslog u" using v(3) by (intro more_fslog) (simp add: same_disk_def)
  then have "fslog v = (fslog s)\<lparr>l_lh := ?f (l_lh (fslog s))\<rparr>" by (simp add: u_def fl)
  moreover have "read_head s = Inr v"
    using it v(1) t(4) n by (simp add: read_head_def dev bdata_def u_def loaded_def [abs_def] word_sless_alt Let_def cong: if_cong)
  moreover have "cache_inv {} v \<and> memdisk v = memdisk s \<and> content v = content s \<and> pinned v = pinned s \<and>
    disksize v = disksize s \<and> disk_writes v = disk_writes s"
    using v(2-5) t(2,5,6) by (simp add: u_def same_disk_def)
  ultimately show ?thesis by blast
qed

section \<open>Commit\<close>

definition log_count :: "'a log_state_scheme \<Rightarrow> nat" where
  "log_count s = nat (sint (lh_n (l_lh (fslog s))))"

definition log_area :: "log \<Rightarrow> uint set" where
  "log_area l = {b. unat (l_start l) \<le> unat b \<and> unat b < unat (l_start l) + unat (l_size l)}"

lemma log_area_lh [simp]: "log_area (l\<lparr>l_lh := h\<rparr>) = log_area l"
  by (simp add: log_area_def)

text \<open>
  The log as file system calls leave it: at most 29 distinct blocks outside the log, all of them
  still pinned in the cache, and an empty header on the disk.
\<close>

definition layout_ok :: "'a log_state_scheme \<Rightarrow> bool" where
  "layout_ok s \<longleftrightarrow> l_dev (fslog s) = 1 \<and> log_count s < unat (l_size (fslog s)) \<and> unat (l_size (fslog s)) \<le> 30 \<and>
     unat (l_start (fslog s)) + unat (l_size (fslog s)) \<le> unat (disksize s) \<and> distinct (map (home s) [0..<log_count s]) \<and>
     (\<forall>i<log_count s. home s i < disksize s \<and> home s i \<notin> log_area (fslog s))"

definition log_ready :: "'a log_state_scheme \<Rightarrow> bool" where
  "log_ready s \<longleftrightarrow> cache_inv {} s \<and> layout_ok s \<and> pinned s = home s ` {..<log_count s} \<and>
     length (memdisk s (unat (l_start (fslog s)))) = 512 \<and> field32 (memdisk s (unat (l_start (fslog s)))) 0 = 0"

lemma unat_log_pos:
  assumes "layout_ok s" "i < log_count s"
  shows "unat (log_pos s i) = unat (l_start (fslog s)) + i + 1"
proof -
  let ?a = "l_start (fslog s)"
  have "unat ?a + i + 1 < unat (disksize s)" using assms by (simp add: layout_ok_def)
  moreover have "unat (disksize s) < 2 ^ 32" using unsigned_less [of "disksize s"] by simp
  ultimately have "unat ?a + i + 1 < 2 ^ 32" by simp
  then have "unat (of_nat (unat ?a + i + 1) :: uint) = unat ?a + i + 1" by (simp only: unat_of_nat take_bit_nat_eq_self len_of_numeral_defs) simp
  then show ?thesis by (simp add: log_pos_def ac_simps)
qed

lemma layout_facts:
  assumes "layout_ok s"
  shows "i < log_count s \<Longrightarrow> log_pos s i \<in> log_area (fslog s)" "i < log_count s \<Longrightarrow> log_pos s i \<noteq> l_start (fslog s)"
    "distinct (map (log_pos s) [0..<log_count s])" "l_start (fslog s) \<in> log_area (fslog s)" "l_start (fslog s) < disksize s"
    "i < log_count s \<Longrightarrow> log_pos s i < disksize s"
proof -
  note U = unat_log_pos [OF assms]
  show "i < log_count s \<Longrightarrow> log_pos s i \<in> log_area (fslog s)"
    using U [of i] assms by (simp add: log_area_def layout_ok_def)
  show "i < log_count s \<Longrightarrow> log_pos s i \<noteq> l_start (fslog s)" using U [of i] by auto
  show "distinct (map (log_pos s) [0..<log_count s])"
    by (auto simp: distinct_map inj_on_def dest!: arg_cong [where f = unat] simp: U)
  show "l_start (fslog s) \<in> log_area (fslog s)" "l_start (fslog s) < disksize s"
    using assms by (auto simp: log_area_def layout_ok_def word_less_nat_alt)
  show "i < log_count s \<Longrightarrow> log_pos s i < disksize s"
    using U [of i] assms by (simp add: layout_ok_def word_less_nat_alt)
qed

lemma layout_apart:
  assumes "layout_ok s" "pinned s \<inter> log_area (fslog s) = {}"
  shows "apart s [0..<log_count s]"
proof -
  have h: "home s j \<notin> log_area (fslog s)" if "j < log_count s" for j using assms(1) that by (simp add: layout_ok_def)
  have "log_pos s i \<noteq> home s j" "log_pos s i \<notin> pinned s" if "i < log_count s" "j < log_count s" for i j
    using layout_facts(1) [OF assms(1) that(1)] h [OF that(2)] assms(2) by auto
  then show ?thesis
    using assms(1) layout_facts(3,6) [OF assms(1)] by (auto simp: apart_def layout_ok_def)
qed

text \<open>The writes of a commit, in order: the log blocks, the header, the home blocks, the empty header.\<close>

definition log_writes :: "'a log_state_scheme \<Rightarrow> (uint \<times> block) list" where
  "log_writes s = map (\<lambda>i. (log_pos s i, content s (home s i))) [0..<log_count s]"

definition home_writes :: "'a log_state_scheme \<Rightarrow> (uint \<times> block) list" where
  "home_writes s = map (\<lambda>i. (home s i, content s (home s i))) [0..<log_count s]"

definition full_header :: "'a log_state_scheme \<Rightarrow> block" where
  "full_header s = head_block (l_lh (fslog s)) (content s (l_start (fslog s)))"

definition empty_header :: "'a log_state_scheme \<Rightarrow> block" where
  "empty_header s = head_block ((l_lh (fslog s))\<lparr>lh_n := 0\<rparr>) (full_header s)"

definition commit_writes :: "'a log_state_scheme \<Rightarrow> (uint \<times> block) list" where
  "commit_writes s = log_writes s @ [(l_start (fslog s), full_header s)] @ home_writes s @
     [(l_start (fslog s), empty_header s)]"

lemma log_state_eqs:
  assumes "fslog t = fslog (s :: 'a log_state_scheme)"
  shows "log_pos t = log_pos s" "home t = home s" "log_count t = log_count s"
  using assms by (simp_all add: log_pos_def home_def log_count_def fun_eq_iff)

lemma ready_area:
  assumes "layout_ok s" "pinned s = home s ` {..<log_count s}"
  shows "pinned s \<inter> log_area (fslog s) = {}" "card (pinned s) < 30"
proof -
  show "pinned s \<inter> log_area (fslog s) = {}" using assms by (auto simp: layout_ok_def)
  have "card (pinned s) \<le> log_count s" using card_image_le [of "{..<log_count s}" "home s"] assms(2) by simp
  then show "card (pinned s) < 30" using assms(1) by (simp add: layout_ok_def)
qed

lemma log_phase:
  assumes inv: "cache_inv {} s" and l: "layout_ok s" and p: "pinned s = home s ` {..<log_count s}"
  obtains t where "write_log s = Inr t" "flushed s (log_writes s) t" "pinned t = pinned s"
    "\<And>i. i < log_count s \<Longrightarrow> content t (log_pos s i) = content s (home s i)"
    "content t (l_start (fslog s)) = content s (l_start (fslog s))"
proof -
  note A = ready_area [OF l p]
  have "home s ` set [0..<log_count s] \<subseteq> pinned s" by (simp add: p atLeast0LessThan)
  from write_log_loop_run [OF inv layout_apart [OF l A(1)] this A(2)]
  obtain t where t: "write_log s = Inr t" "flushed s (log_writes s) t"
    by (auto simp: write_log_def log_writes_def log_count_def)
  have k: "fst ` set (log_writes s) = log_pos s ` {..<log_count s}" by (auto simp: log_writes_def image_image)
  have "log_pos s ` {..<log_count s} \<subseteq> log_area (fslog s)" using layout_facts(1) [OF l] by auto
  then have 1: "pinned t = pinned s" using flushedD(4) [OF t(2)] A(1) k by auto
  have "distinct (map fst (log_writes s))" using layout_facts(3) [OF l] by (simp add: log_writes_def comp_def)
  then have 2: "content t (log_pos s i) = content s (home s i)" if "i < log_count s" for i
    unfolding flushedD(3) [OF t(2)] by (rule overlay_at) (use that in \<open>simp add: log_writes_def\<close>)
  have 3: "content t (l_start (fslog s)) = content s (l_start (fslog s))"
    unfolding flushedD(3) [OF t(2)] by (rule overlay_other) (unfold k, metis imageE layout_facts(2) [OF l] lessThan_iff)
  from t 1 2 3 show thesis by (rule that)
qed

lemma home_phase:
  assumes inv: "cache_inv {} s" and l: "layout_ok s" and p: "pinned s = home s ` {..<log_count s}"
    and c: "\<And>i. i < log_count s \<Longrightarrow> content s (log_pos s i) = f i"
  obtains t where "install_trans s = Inr t" "flushed s (map (\<lambda>i. (home s i, f i)) [0..<log_count s]) t" "pinned t = {}"
    "content t (l_start (fslog s)) = content s (l_start (fslog s))"
proof -
  note A = ready_area [OF l p]
  have "home s ` set [0..<log_count s] \<subseteq> pinned s \<or> pinned s = {}" by (simp add: p atLeast0LessThan)
  from install_trans_loop_run [OF inv layout_apart [OF l A(1)] this A(2)]
  obtain t where t: "install_trans s = Inr t"
    "flushed s (map (\<lambda>i. (home s i, content s (log_pos s i))) [0..<log_count s]) t"
    by (auto simp: install_trans_def log_count_def)
  have "map (\<lambda>i. (home s i, content s (log_pos s i))) [0..<log_count s] = map (\<lambda>i. (home s i, f i)) [0..<log_count s]"
    using c by simp
  note t2 = t(2) [unfolded this]
  have 1: "pinned t = {}" using flushedD(4) [OF t2] p by (auto simp: image_image)
  have "l_start (fslog s) \<notin> pinned s" using layout_facts(4) [OF l] A(1) by blast
  then have 2: "content t (l_start (fslog s)) = content s (l_start (fslog s))"
    unfolding flushedD(3) [OF t2] by (intro overlay_other) (auto simp: p image_image)
  from t(1) t2 1 2 show thesis by (rule that)
qed

lemma commit_run:
  assumes r: "log_ready s" and n: "0 < log_count s"
  shows "\<exists>t. commit s = Inr t \<and> cache_inv {} t \<and> memdisk t = disk_overlay (on_disk (commit_writes s)) (memdisk s) \<and>
           disk_writes t = disk_writes s @ on_disk (commit_writes s) \<and> pinned t = {} \<and> disksize t = disksize s \<and>
           fslog t = (fslog s)\<lparr>l_lh := (l_lh (fslog s))\<lparr>lh_n := 0\<rparr>\<rparr>"
proof -
  let ?st = "l_start (fslog s)"
  have inv: "cache_inv {} s" and l: "layout_ok s" and p: "pinned s = home s ` {..<log_count s}"
    using r by (simp_all add: log_ready_def)
  note A = ready_area [OF l p] and F = layout_facts [OF l]
  have dev: "l_dev (fslog s) = 1" using l by (simp add: layout_ok_def)
  obtain t1 where t1: "write_log s = Inr t1" "flushed s (log_writes s) t1" "pinned t1 = pinned s"
    "\<And>i. i < log_count s \<Longrightarrow> content t1 (log_pos s i) = content s (home s i)"
    "content t1 ?st = content s ?st"
    by (rule log_phase [OF inv l p]) (rule that)
  note f1 = flushed_fslog [OF t1(2)]
  have "l_start (fslog t1) < disksize t1" "card (pinned t1) < 30"
    using F(5) A(2) t1(3) flushedD(5) [OF t1(2)] f1 by simp_all
  from write_head_run [OF flushedD(1) [OF t1(2)] _ this] dev f1 t1(5)
  obtain t2 where t2: "write_head t1 = Inr t2" "flushed t1 [(?st, full_header s)] t2"
    by (auto simp: full_header_def)
  note f2 = flushed_fslog [OF t2(2)]
  have st: "?st \<notin> pinned s" using F(4) A(1) by blast
  have p2: "pinned t2 = pinned s" using flushedD(4) [OF t2(2)] t1(3) st by simp
  have c2: "content t2 (log_pos s i) = content s (home s i)" if "i < log_count s" for i
    using flushedD(3) [OF t2(2)] t1(4) [OF that] F(2) [OF that] by simp
  note E = log_state_eqs [OF f2 [unfolded f1]]
  have l2: "layout_ok t2"
    using l flushedD(5) [OF t1(2)] flushedD(5) [OF t2(2)] f1 f2 by (simp add: layout_ok_def E)
  have p2': "pinned t2 = home t2 ` {..<log_count t2}" by (simp add: p2 p E)
  have c2': "content t2 (log_pos t2 i) = content s (home s i)" if "i < log_count t2" for i using c2 that by (simp add: E)
  obtain t3 where t3: "install_trans t2 = Inr t3" "flushed t2 (map (\<lambda>i. (home t2 i, content s (home s i))) [0..<log_count t2]) t3"
    "pinned t3 = {}" "content t3 (l_start (fslog t2)) = content t2 (l_start (fslog t2))"
    by (rule home_phase [OF flushedD(1) [OF t2(2)] l2 p2' c2']) (assumption, rule that)
  have hw: "map (\<lambda>i. (home t2 i, content s (home s i))) [0..<log_count t2] = home_writes s"
    by (simp add: E home_writes_def)
  note t3 = t3(1) t3(2) [unfolded hw] t3(3,4)
  note f3 = flushed_fslog [OF t3(2)]
  let ?u = "upd_lh (\<lambda>lh. lh\<lparr>lh_n := 0\<rparr>) t3"
  have c3: "content t3 ?st = full_header s" using t3(4) flushedD(3) [OF t2(2)] f1 f2 by simp
  have "disksize t3 = disksize s" using flushedD(5) [OF t1(2)] flushedD(5) [OF t2(2)] flushedD(5) [OF t3(2)] by simp
  with write_head_run [of ?u] flushedD(1) [OF t3(2)] f1 f2 f3 dev F(5) t3(3) c3
  obtain t4 where t4: "write_head ?u = Inr t4" "flushed ?u [(?st, empty_header s)] t4"
    by (auto simp: empty_header_def)
  have "commit s = Inr t4"
    using n t1(1) t2(1) t3(1) t4(1) by (simp add: commit_def log_count_def word_sless_alt)
  moreover note flushed_trans [OF flushed_trans [OF t1(2) t2(2)] t3(2)]
  ultimately show ?thesis
    using flushed_fslog [OF t4(2)] f1 f2 f3 t3(3) t4(2) by (auto simp: flushed_def commit_writes_def)
qed

section \<open>Recovery\<close>

text \<open>What recovery writes when it finds the header \<open>d\<close> on the disk of \<open>r\<close>.\<close>

definition recovery_writes :: "'a log_state_scheme \<Rightarrow> (uint \<times> block) list" where
  "recovery_writes r =
     (let st = l_start (fslog r); d = memdisk r (unat st); lh = loaded d (l_lh (fslog r))
      in map (\<lambda>i. (field32 d (i + 1), memdisk r (unat (log_pos r i)))) [0..<nat (sint (field32 d 0))] @
         [(st, head_block (lh\<lparr>lh_n := 0\<rparr>) d)])"

definition header_ok :: "block \<Rightarrow> 'a log_state_scheme \<Rightarrow> bool" where
  "header_ok d s \<longleftrightarrow> (let n = nat (sint (field32 d 0)) in
     n < unat (l_size (fslog s)) \<and> distinct (map (\<lambda>i. field32 d (i + 1)) [0..<n]) \<and>
     (\<forall>i<n. field32 d (i + 1) < disksize s \<and> field32 d (i + 1) \<notin> log_area (fslog s)))"

lemma recover_run:
  assumes inv: "cache_inv {} r" and p: "pinned r = {}" and dev: "l_dev (fslog r) = 1"
    and size: "unat (l_start (fslog r)) + unat (l_size (fslog r)) \<le> unat (disksize r)" "0 < unat (l_size (fslog r))"
      "unat (l_size (fslog r)) \<le> 30"
    and ok: "header_ok (memdisk r (unat (l_start (fslog r)))) r"
  shows "\<exists>t. recover_from_log r = Inr t \<and> cache_inv {} t \<and> pinned t = {} \<and>
           memdisk t = disk_overlay (on_disk (recovery_writes r)) (memdisk r)"
proof -
  let ?st = "l_start (fslog r)"
  let ?d = "memdisk r (unat ?st)"
  have c: "content r b = memdisk r (unat b)" for b by (rule content_unpinned [OF inv]) (simp add: p)
  have st: "?st < disksize r" using size by (simp add: word_less_nat_alt)
  have "nat (sint (field32 ?d 0)) < 30" using ok size(3) by (simp add: header_ok_def Let_def)
  then have n: "sint (field32 ?d 0) \<le> 30" by arith
  obtain t1 where t1: "read_head r = Inr t1" "cache_inv {} t1" "memdisk t1 = memdisk r" "content t1 = content r"
    "pinned t1 = {}" "disksize t1 = disksize r" "fslog t1 = (fslog r)\<lparr>l_lh := loaded ?d (l_lh (fslog r))\<rparr>"
    using read_head_run [OF inv dev st] n p by (auto simp: c)
  have pos: "log_pos t1 = log_pos r" using t1(7) by (simp add: log_pos_def fun_eq_iff)
  have cnt: "log_count t1 = nat (sint (field32 ?d 0))" using t1(7) by (simp add: log_count_def loaded_def)
  have home: "home t1 i = field32 ?d (i + 1)" if "i < log_count t1" for i
    using that n cnt t1(7) by (simp add: home_def loaded_def)
  then have hm: "map (home t1) [0..<log_count t1] = map (\<lambda>i. field32 ?d (i + 1)) [0..<log_count t1]" by simp
  have l: "layout_ok t1" using ok size dev t1(6,7) home
    by (simp add: layout_ok_def header_ok_def Let_def hm) (simp add: cnt)
  from install_trans_loop_run [OF t1(2) layout_apart [OF l]] t1(5)
  obtain t2 where t2: "install_trans t1 = Inr t2"
    "flushed t1 (map (\<lambda>i. (home t1 i, content t1 (log_pos t1 i))) [0..<log_count t1]) t2"
    by (auto simp: install_trans_def log_count_def)
  note f2 = flushed_fslog [OF t2(2)]
  have st2: "?st \<notin> home t1 ` {..<log_count t1}"
    using layout_facts(4) [OF l] l t1(7) by (auto simp: layout_ok_def)
  then have c2: "content t2 ?st = ?d"
    using flushedD(3) [OF t2(2)] t1(4) c by (simp add: overlay_other image_image atLeast0LessThan)
  let ?u = "upd_lh (\<lambda>lh. lh\<lparr>lh_n := 0\<rparr>) t2"
  have "pinned t2 = {}" "disksize t2 = disksize r" using flushedD(4,5) [OF t2(2)] t1(5,6) by simp_all
  with write_head_run [of ?u] flushedD(1) [OF t2(2)] f2 t1(7) dev st c2
  obtain t3 where t3: "write_head ?u = Inr t3"
    "flushed ?u [(?st, head_block ((loaded ?d (l_lh (fslog r)))\<lparr>lh_n := 0\<rparr>) ?d)] t3"
    by auto
  have w: "map (\<lambda>i. (home t1 i, content t1 (log_pos t1 i))) [0..<log_count t1] @
      [(?st, head_block ((loaded ?d (l_lh (fslog r)))\<lparr>lh_n := 0\<rparr>) ?d)] = recovery_writes r"
    using home t1(4) c by (simp add: recovery_writes_def Let_def pos) (simp add: cnt)
  have "recover_from_log r = Inr t3" using t1(1) t2(1) t3(1) by (simp add: recover_from_log_def)
  moreover have "cache_inv {} t3 \<and> pinned t3 = {} \<and> memdisk t3 = disk_overlay (on_disk (recovery_writes r)) (memdisk r)"
    using t3(2) t2(2) t1(3,5) unfolding w [symmetric] by (simp add: flushed_def)
  ultimately show ?thesis by blast
qed

section \<open>Crashes\<close>

text \<open>The disk after a crash that lets only the first \<open>k\<close> writes of the commit through.\<close>

definition crash_disk :: "'a log_state_scheme \<Rightarrow> nat \<Rightarrow> nat \<Rightarrow> block" where
  "crash_disk s k = disk_overlay (take k (on_disk (commit_writes s))) (memdisk s)"

lemma write_keys:
  "fst ` set (on_disk (log_writes s)) = unat ` log_pos s ` {..<log_count s}"
  "fst ` set (on_disk (home_writes s)) = unat ` home s ` {..<log_count s}"
  by (auto simp: log_writes_def home_writes_def image_image)

lemma length_writes [simp]: "length (log_writes s) = log_count s" "length (home_writes s) = log_count s"
  by (simp_all add: log_writes_def home_writes_def)

text \<open>The three kinds of disks: before the header is written, while it is there, and after the end.\<close>

lemma crash_disk_early: "k \<le> log_count s \<Longrightarrow> crash_disk s k = disk_overlay (take k (on_disk (log_writes s))) (memdisk s)"
  by (simp add: crash_disk_def commit_writes_def)

lemma crash_disk_logged:
  "log_count s < k \<Longrightarrow> k \<le> 2 * log_count s + 1 \<Longrightarrow>
     crash_disk s k = disk_overlay (take (k - log_count s - 1) (on_disk (home_writes s)))
       ((disk_overlay (on_disk (log_writes s)) (memdisk s))(unat (l_start (fslog s)) := full_header s))"
  by (simp add: crash_disk_def commit_writes_def take_Cons' flip: take_map)

lemma crash_disk_done:
  "2 * log_count s + 1 < k \<Longrightarrow>
     crash_disk s k = (disk_overlay (on_disk (home_writes s))
       ((disk_overlay (on_disk (log_writes s)) (memdisk s))(unat (l_start (fslog s)) := full_header s)))
         (unat (l_start (fslog s)) := empty_header s)"
  by (simp add: crash_disk_def commit_writes_def take_Cons')

lemma take_keys: "x \<notin> fst ` set ws \<Longrightarrow> x \<notin> fst ` set (take k ws)"
  by (meson image_mono set_take_subset subsetD)

lemma area_keys:
  assumes "layout_ok s"
  shows "b \<notin> log_area (fslog s) \<Longrightarrow> unat b \<notin> fst ` set (on_disk (log_writes s))"
    "b \<notin> log_area (fslog s) \<Longrightarrow> unat b \<noteq> unat (l_start (fslog s))"
    "b \<in> log_area (fslog s) \<Longrightarrow> unat b \<notin> fst ` set (on_disk (home_writes s))"
    "unat (l_start (fslog s)) \<notin> fst ` set (on_disk (log_writes s))"
proof -
  note F = layout_facts [OF assms]
  show "b \<notin> log_area (fslog s) \<Longrightarrow> unat b \<notin> fst ` set (on_disk (log_writes s))"
    unfolding write_keys using F(1) by (auto simp: word_unat_eq_iff [symmetric])
  show "b \<notin> log_area (fslog s) \<Longrightarrow> unat b \<noteq> unat (l_start (fslog s))"
    using F(4) by (auto simp: word_unat_eq_iff [symmetric])
  show "b \<in> log_area (fslog s) \<Longrightarrow> unat b \<notin> fst ` set (on_disk (home_writes s))"
    unfolding write_keys using assms by (auto simp: word_unat_eq_iff [symmetric] layout_ok_def)
  show "unat (l_start (fslog s)) \<notin> fst ` set (on_disk (log_writes s))"
    unfolding write_keys by (auto simp: word_unat_eq_iff [symmetric]) (metis F(2))
qed

lemma crash_header:
  assumes "layout_ok s"
  defines "st \<equiv> unat (l_start (fslog s))"
  shows "crash_disk s k st = (if k \<le> log_count s then memdisk s st
           else if k \<le> 2 * log_count s + 1 then full_header s else empty_header s)"
proof -
  note K = area_keys [OF assms(1)]
  have "st \<notin> fst ` set (on_disk (log_writes s))" "st \<notin> fst ` set (on_disk (home_writes s))"
    using K(4) K(3) [OF layout_facts(4) [OF assms(1)]] by (simp_all add: st_def)
  then have "st \<notin> fst ` set (take j (on_disk (log_writes s)))" "st \<notin> fst ` set (take j (on_disk (home_writes s)))" for j
    using take_keys by metis+
  then show ?thesis
    by (simp add: crash_disk_early crash_disk_logged crash_disk_done disk_overlay_other flip: st_def)
qed

lemma crash_log_block:
  assumes "layout_ok s" "log_count s < k" "i < log_count s"
  shows "crash_disk s k (unat (log_pos s i)) = content s (home s i)"
proof -
  note F = layout_facts [OF assms(1)]
  let ?x = "unat (log_pos s i)"
  have h: "?x \<notin> fst ` set (on_disk (home_writes s))" using area_keys(3) [OF assms(1) F(1) [OF assms(3)]] .
  have s: "?x \<noteq> unat (l_start (fslog s))" using F(2) [OF assms(3)] by (simp add: word_unat_eq_iff [symmetric])
  have "distinct (map unat (map (log_pos s) [0..<log_count s]))"
    using F(3) by (simp add: distinct_map inj_on_def word_unat_eq_iff [symmetric] del: map_map)
  then have "distinct (map fst (on_disk (log_writes s)))" by (simp add: log_writes_def comp_def)
  moreover have "(?x, content s (home s i)) \<in> set (on_disk (log_writes s))" using assms(3) by (force simp: log_writes_def)
  ultimately have "disk_overlay (on_disk (log_writes s)) m ?x = content s (home s i)" for m by (rule disk_overlay_at)
  then show ?thesis
    using assms(2) h s take_keys [OF h]
    by (cases "k \<le> 2 * log_count s + 1") (simp_all add: crash_disk_logged crash_disk_done disk_overlay_other)
qed

lemma home_overlay:
  assumes "layout_ok s"
  shows "disk_overlay (on_disk (home_writes s)) m (unat b) =
           (if b \<in> home s ` {..<log_count s} then content s b else m (unat b))"
proof (cases "b \<in> home s ` {..<log_count s}")
  case True
  then have "(unat b, content s b) \<in> set (on_disk (home_writes s))" by (auto simp: home_writes_def)
  moreover have "distinct (map unat (map (home s) [0..<log_count s]))"
    using assms by (simp add: layout_ok_def distinct_map inj_on_def word_unat_eq_iff [symmetric] del: map_map)
  then have "distinct (map fst (on_disk (home_writes s)))" by (simp add: home_writes_def comp_def)
  ultimately show ?thesis using True by (simp add: disk_overlay_at)
next
  case False
  then have "unat b \<notin> fst ` set (on_disk (home_writes s))"
    unfolding write_keys by (auto simp: word_unat_eq_iff [symmetric])
  then show ?thesis using False by (simp add: disk_overlay_other)
qed

lemma crash_block:
  assumes l: "layout_ok s" and b: "b \<notin> log_area (fslog s)"
  shows "k \<le> log_count s \<or> b \<notin> home s ` {..<log_count s} \<Longrightarrow> crash_disk s k (unat b) = memdisk s (unat b)"
    "2 * log_count s + 1 < k \<Longrightarrow> b \<in> home s ` {..<log_count s} \<Longrightarrow> crash_disk s k (unat b) = content s b"
proof -
  note K = area_keys(1,2) [OF l b]
  have L: "disk_overlay (on_disk (log_writes s)) m (unat b) = m (unat b)"
    "disk_overlay (take j (on_disk (log_writes s))) m (unat b) = m (unat b)" for m j
    by (rule disk_overlay_other, rule K(1)) (rule disk_overlay_other, rule take_keys, rule K(1))
  have H: "disk_overlay (take j (on_disk (home_writes s))) m (unat b) = m (unat b)"
    if "b \<notin> home s ` {..<log_count s}" for j m
  proof (rule disk_overlay_other, rule take_keys)
    show "unat b \<notin> fst ` set (on_disk (home_writes s))"
      unfolding write_keys using that by (auto simp: word_unat_eq_iff [symmetric])
  qed
  show "crash_disk s k (unat b) = memdisk s (unat b)" if c: "k \<le> log_count s \<or> b \<notin> home s ` {..<log_count s}"
  proof -
    consider "k \<le> log_count s" | "log_count s < k" "k \<le> 2 * log_count s + 1" "b \<notin> home s ` {..<log_count s}"
      | "2 * log_count s + 1 < k" "b \<notin> home s ` {..<log_count s}" using c by linarith
    then show ?thesis
      using K(2) by cases (simp_all add: crash_disk_early crash_disk_logged crash_disk_done L H home_overlay [OF l])
  qed
  show "crash_disk s k (unat b) = content s b"
    if "2 * log_count s + 1 < k" "b \<in> home s ` {..<log_count s}"
    using that K(2) by (simp add: crash_disk_done home_overlay [OF l])
qed

lemma crash_header_facts:
  assumes r: "log_ready s"
  defines "d k \<equiv> crash_disk s k (unat (l_start (fslog s)))"
  shows "length (d k) = 512"
    "k \<le> log_count s \<or> 2 * log_count s + 1 < k \<Longrightarrow> field32 (d k) 0 = 0"
    "log_count s < k \<Longrightarrow> k \<le> 2 * log_count s + 1 \<Longrightarrow> nat (sint (field32 (d k) 0)) = log_count s"
    "log_count s < k \<Longrightarrow> k \<le> 2 * log_count s + 1 \<Longrightarrow> i < log_count s \<Longrightarrow> field32 (d k) (i + 1) = home s i"
proof -
  have l: "layout_ok s" and inv: "cache_inv {} s" and p: "pinned s = home s ` {..<log_count s}"
    and h: "length (memdisk s (unat (l_start (fslog s)))) = 512" "field32 (memdisk s (unat (l_start (fslog s)))) 0 = 0"
    using r by (simp_all add: log_ready_def)
  have "l_start (fslog s) \<notin> pinned s" using ready_area(1) [OF l p] layout_facts(4) [OF l] by blast
  then have "length (content s (l_start (fslog s))) = 512" using content_unpinned [OF inv] h(1) by simp
  moreover have "nat (sint (lh_n (l_lh (fslog s)))) \<le> 30" using l by (simp add: layout_ok_def log_count_def)
  ultimately have f: "length (full_header s) = 512" "field32 (full_header s) 0 = lh_n (l_lh (fslog s))"
    "j < log_count s \<Longrightarrow> field32 (full_header s) (j + 1) = home s j" for j
    unfolding full_header_def log_count_def home_def by (rule head_block_fields)+
  have e: "length (empty_header s) = 512" "field32 (empty_header s) 0 = 0"
    using head_block_fields(1,2) [OF f(1), of "(l_lh (fslog s))\<lparr>lh_n := 0\<rparr>"] by (simp_all add: empty_header_def)
  have d: "d k = (if k \<le> log_count s then memdisk s (unat (l_start (fslog s)))
      else if k \<le> 2 * log_count s + 1 then full_header s else empty_header s)"
    unfolding d_def by (rule crash_header [OF l])
  show "length (d k) = 512" "k \<le> log_count s \<or> 2 * log_count s + 1 < k \<Longrightarrow> field32 (d k) 0 = 0"
    "log_count s < k \<Longrightarrow> k \<le> 2 * log_count s + 1 \<Longrightarrow> nat (sint (field32 (d k) 0)) = log_count s"
    "log_count s < k \<Longrightarrow> k \<le> 2 * log_count s + 1 \<Longrightarrow> i < log_count s \<Longrightarrow> field32 (d k) (i + 1) = home s i"
    using f e h unfolding d by (auto simp: log_count_def)
qed

text \<open>The machine after a restart: an empty cache, and the log found where it was.\<close>

definition restarted :: "'a log_state_scheme \<Rightarrow> 'b log_state_scheme \<Rightarrow> bool" where
  "restarted s r \<longleftrightarrow> cache_inv {} r \<and> pinned r = {} \<and> disksize r = disksize s \<and> l_dev (fslog r) = l_dev (fslog s) \<and>
     l_start (fslog r) = l_start (fslog s) \<and> l_size (fslog r) = l_size (fslog s)"

lemma recovery_writes_crash:
  assumes r: "log_ready s" and b: "restarted s r" and m: "memdisk r = crash_disk s k"
  shows "\<exists>h. recovery_writes r =
           (if log_count s < k \<and> k \<le> 2 * log_count s + 1 then home_writes s else []) @ [(l_start (fslog s), h)] \<and>
           field32 h 0 = 0"
proof -
  note F = crash_header_facts [OF r, of k]
  have l: "layout_ok s" using r by (simp add: log_ready_def)
  have st: "l_start (fslog r) = l_start (fslog s)" and pos: "log_pos r = log_pos s"
    using b by (simp_all add: restarted_def log_pos_def fun_eq_iff)
  let ?d = "crash_disk s k (unat (l_start (fslog s)))"
  let ?h = "head_block ((loaded ?d (l_lh (fslog r)))\<lparr>lh_n := 0\<rparr>) ?d"
  have "field32 ?h 0 = 0" using head_block_fields(2) [OF F(1)] by simp
  moreover have "recovery_writes r =
      (if log_count s < k \<and> k \<le> 2 * log_count s + 1 then home_writes s else []) @ [(l_start (fslog s), ?h)]"
  proof (cases "log_count s < k \<and> k \<le> 2 * log_count s + 1")
    case True
    then have "map (\<lambda>i. (field32 ?d (i + 1), crash_disk s k (unat (log_pos s i)))) [0..<log_count s] = home_writes s"
      using F(4) crash_log_block [OF l] by (simp add: home_writes_def)
    then show ?thesis using True F(3) by (simp add: recovery_writes_def Let_def st pos m)
  next
    case False
    then have "field32 ?d 0 = 0" using F(2) by auto
    then show ?thesis using False by (auto simp: recovery_writes_def Let_def st pos m)
  qed
  ultimately show ?thesis by blast
qed

lemma crash_header_ok:
  assumes r: "log_ready s" and b: "restarted s r" and m: "memdisk r = crash_disk s k"
  shows "header_ok (memdisk r (unat (l_start (fslog r)))) r"
proof -
  note F = crash_header_facts [OF r, of k]
  have l: "layout_ok s" using r by (simp add: log_ready_def)
  have e: "l_start (fslog r) = l_start (fslog s)" "l_size (fslog r) = l_size (fslog s)" "disksize r = disksize s"
    "log_area (fslog r) = log_area (fslog s)"
    using b by (simp_all add: restarted_def log_area_def)
  let ?d = "crash_disk s k (unat (l_start (fslog s)))"
  show ?thesis
  proof (cases "log_count s < k \<and> k \<le> 2 * log_count s + 1")
    case True
    then have h: "\<And>i. i < log_count s \<Longrightarrow> field32 ?d (i + 1) = home s i" and n: "nat (sint (field32 ?d 0)) = log_count s"
      using F(3,4) by blast+
    then have "map (\<lambda>i. field32 ?d (i + 1)) [0..<log_count s] = map (home s) [0..<log_count s]" by simp
    then have "distinct (map (\<lambda>i. field32 ?d (i + 1)) [0..<log_count s])" using l unfolding layout_ok_def by argo
    then show ?thesis using l h by (simp add: header_ok_def Let_def m e n layout_ok_def)
  next
    case False
    then have "field32 ?d 0 = 0" using F(2) by auto
    then show ?thesis using l by (simp add: header_ok_def Let_def m e layout_ok_def)
  qed
qed

lemma crash_recovery:
  assumes r: "log_ready s" and b: "restarted s r" and m: "memdisk r = crash_disk s k"
  shows "\<exists>t. recover_from_log r = Inr t \<and> field32 (memdisk t (unat (l_start (fslog s)))) 0 = 0 \<and>
     (\<forall>b. b \<notin> log_area (fslog s) \<longrightarrow>
        memdisk t (unat b) = (if k \<le> log_count s then memdisk s (unat b) else content s b))"
proof -
  have l: "layout_ok s" and inv: "cache_inv {} s" and p: "pinned s = home s ` {..<log_count s}"
    using r by (simp_all add: log_ready_def)
  have "\<exists>t. recover_from_log r = Inr t \<and> cache_inv {} t \<and> pinned t = {} \<and>
      memdisk t = disk_overlay (on_disk (recovery_writes r)) (memdisk r)"
    by (rule recover_run [OF _ _ _ _ _ _ crash_header_ok [OF r b m]])
      (use b l in \<open>simp_all add: restarted_def layout_ok_def\<close>)
  then obtain t where t: "recover_from_log r = Inr t"
    "memdisk t = disk_overlay (on_disk (recovery_writes r)) (crash_disk s k)" by (auto simp: m)
  obtain h where w: "recovery_writes r = (if log_count s < k \<and> k \<le> 2 * log_count s + 1 then home_writes s else []) @
      [(l_start (fslog s), h)]" and h: "field32 h 0 = 0"
    using recovery_writes_crash [OF r b m] by blast
  have "memdisk t (unat b) = (if k \<le> log_count s then memdisk s (unat b) else content s b)"
    if b: "b \<notin> log_area (fslog s)" for b
  proof (cases "b \<in> home s ` {..<log_count s}")
    case True
    then show ?thesis using crash_block [OF l b, of k] area_keys(2) [OF l b]
      by (auto simp: t(2) w home_overlay [OF l])
  next
    case False
    then have "content s b = memdisk s (unat b)" using content_unpinned [OF inv] p by blast
    then show ?thesis using False crash_block(1) [OF l b, of k] area_keys(2) [OF l b]
      by (simp add: t(2) w home_overlay [OF l])
  qed
  then show ?thesis using t(1) h by (auto simp: t(2) w)
qed

lemma commit_idle: "log_count s = 0 \<Longrightarrow> commit s = Inr s"
  by (auto simp: commit_def log_count_def word_sless_alt)

lemma log_ready_committed:
  assumes r: "log_ready s" and w: "cache_inv {} w" "pinned w = {}" "disksize w = disksize s"
    and m: "memdisk w = disk_overlay (on_disk (commit_writes s)) (memdisk s)"
    and f: "fslog w = (fslog s)\<lparr>l_lh := (l_lh (fslog s))\<lparr>lh_n := 0\<rparr>\<rparr>"
  shows "log_ready w" "log_count w = 0"
    "b \<notin> log_area (fslog s) \<Longrightarrow> memdisk w (unat b) = content s b"
proof -
  have l: "layout_ok s" and inv: "cache_inv {} s" and p: "pinned s = home s ` {..<log_count s}"
    using r by (simp_all add: log_ready_def)
  have k: "memdisk w = crash_disk s (2 * log_count s + 2)" by (simp add: m crash_disk_def commit_writes_def)
  show n: "log_count w = 0" by (simp add: log_count_def f)
  have "layout_ok w" using l w(3) n by (auto simp: layout_ok_def f)
  then show "log_ready w"
    using w(1,2) n crash_header_facts(1,2) [OF r, of "2 * log_count s + 2"] by (simp add: log_ready_def f k)
  show "memdisk w (unat b) = content s b" if "b \<notin> log_area (fslog s)"
    using crash_block [OF l that, of "2 * log_count s + 2"] content_unpinned [OF inv, of b] p
    by (cases "b \<in> pinned s") (simp_all add: k)
qed

section \<open>Logging a block\<close>

definition enter_block :: "uint \<Rightarrow> logheader \<Rightarrow> logheader" where
  "enter_block b lh = (let i = log_slot b lh in
     lh\<lparr>lh_block := (lh_block lh)[i := b], lh_n := if i = nat (sint (lh_n lh)) then lh_n lh + 1 else lh_n lh\<rparr>)"

lemma log_write_quiet:
  assumes "quiet s" "\<not> of_nat 30 \<le>s lh_n (l_lh (fslog s))" "\<not> l_size (fslog s) - 1 \<le>s lh_n (l_lh (fslog s))"
    and "\<not> l_outstanding (fslog s) <s 1"
  shows "log_write i s =
    Inr (upd_buf i (\<lambda>b. b\<lparr>b_flags := b_flags b OR 4\<rparr>) (upd_lh (enter_block (b_blockno (bufs s i))) s))"
proof -
  define f where "f = (\<lambda>s :: 'a log_state_scheme.
    upd_buf i (\<lambda>b. b\<lparr>b_flags := b_flags b OR 4\<rparr>) (upd_lh (enter_block (b_blockno (bufs s i))) s))"
  have "log_write i s = andthen (acquire Log_lock s) (\<lambda>s. release Log_lock (f s))"
    using assms(2-4)
    by (simp add: log_write_def Let_def f_def enter_block_def upd_lh_def upd_log_def cong: if_cong)
  also have "\<dots> = Inr (f s)"
    using assms(1) by (rule quiet_section) (simp_all add: f_def upd_buf_def upd_lh_def upd_log_def)
  finally show ?thesis by (simp add: f_def)
qed

definition logged_blocks :: "logheader \<Rightarrow> uint list" where
  "logged_blocks lh = take (nat (sint (lh_n lh))) (lh_block lh)"

text \<open>A header in memory that uses the first entries of its array; the number is at most \<open>m\<close>.\<close>

definition lh_ok :: "nat \<Rightarrow> logheader \<Rightarrow> bool" where
  "lh_ok m lh \<longleftrightarrow> length (lh_block lh) = 30 \<and> unat (lh_n lh) \<le> m \<and> m \<le> 30"

lemma lh_ok_count: "lh_ok m lh \<Longrightarrow> nat (sint (lh_n lh)) = unat (lh_n lh)"
  using sint_small [of "lh_n lh"] by (simp add: lh_ok_def)

lemma log_slot_cases:
  assumes "lh_ok m lh"
  shows "b \<in> set (logged_blocks lh) \<Longrightarrow> log_slot b lh < unat (lh_n lh) \<and> lh_block lh ! log_slot b lh = b"
    "b \<notin> set (logged_blocks lh) \<Longrightarrow> log_slot b lh = unat (lh_n lh)"
proof -
  have n: "nat (sint (lh_n lh)) = unat (lh_n lh)" using lh_ok_count [OF assms] by simp
  have l: "length (logged_blocks lh) = unat (lh_n lh)" using assms by (simp add: logged_blocks_def n lh_ok_def)
  show "log_slot b lh < unat (lh_n lh) \<and> lh_block lh ! log_slot b lh = b" if b: "b \<in> set (logged_blocks lh)"
  proof -
    obtain i where i: "scan (\<lambda>x. x = b) (logged_blocks lh) = Some i" using scan_total [of _ "\<lambda>x. x = b"] b by blast
    then have "i < unat (lh_n lh)" "logged_blocks lh ! i = b" using scan_SomeD(1,2) [OF i] l by simp_all
    then show ?thesis using i by (simp add: log_slot_def logged_blocks_def n)
  qed
  show "log_slot b lh = unat (lh_n lh)" if "b \<notin> set (logged_blocks lh)"
  proof -
    have "scan (\<lambda>x. x = b) (logged_blocks lh) = None" using that by (auto simp: scan_None_iff)
    then show ?thesis by (simp add: log_slot_def logged_blocks_def n)
  qed
qed

lemma enter_block_spec:
  assumes "lh_ok m lh" "unat (lh_n lh) < m"
  shows "lh_ok m (enter_block b lh)"
    "logged_blocks (enter_block b lh) =
       (if b \<in> set (logged_blocks lh) then logged_blocks lh else logged_blocks lh @ [b])"
proof -
  have n: "nat (sint (lh_n lh)) = unat (lh_n lh)" using lh_ok_count [OF assms(1)] by simp
  have "unat (lh_n lh) < 30" using assms by (simp add: lh_ok_def)
  then have s: "unat (lh_n lh + 1) = unat (lh_n lh) + 1" by (simp add: unat_word_ariths)
  have *: "lh_ok m (enter_block b lh) \<and> logged_blocks (enter_block b lh) =
       (if b \<in> set (logged_blocks lh) then logged_blocks lh else logged_blocks lh @ [b])"
  proof (cases "b \<in> set (logged_blocks lh)")
    case True
    then have i: "log_slot b lh < unat (lh_n lh)" "lh_block lh ! log_slot b lh = b"
      using log_slot_cases(1) [OF assms(1)] by blast+
    then have "(lh_block lh)[log_slot b lh := b] = lh_block lh" by (metis list_update_id)
    then have "enter_block b lh = lh" using i by (simp add: enter_block_def n Let_def)
    then show ?thesis using True assms(1) by simp
  next
    case False
    then have "log_slot b lh = unat (lh_n lh)" using log_slot_cases(2) [OF assms(1)] by blast
    then have e: "enter_block b lh = lh\<lparr>lh_block := (lh_block lh)[unat (lh_n lh) := b], lh_n := lh_n lh + 1\<rparr>"
      by (simp add: enter_block_def n Let_def)
    have ok: "lh_ok m (enter_block b lh)" using assms s by (simp add: e lh_ok_def)
    have "nat (sint (lh_n lh + 1)) = unat (lh_n lh) + 1" using lh_ok_count [OF ok] s by (simp add: e)
    then have "logged_blocks (enter_block b lh) = logged_blocks lh @ [b]"
      using assms by (simp add: logged_blocks_def e n lh_ok_def take_Suc_conv_app_nth)
    then show ?thesis using False ok by simp
  qed
  show "lh_ok m (enter_block b lh)" "logged_blocks (enter_block b lh) =
       (if b \<in> set (logged_blocks lh) then logged_blocks lh else logged_blocks lh @ [b])" using * by blast+
qed

text \<open>
  Inside a transaction, with the buffers in \<open>H\<close> held: the pinned blocks are the logged ones, and the
  header on the disk is still empty.
\<close>

definition in_transaction :: "nat set \<Rightarrow> 'a log_state_scheme \<Rightarrow> bool" where
  "in_transaction H s \<longleftrightarrow> cache_inv H s \<and> layout_ok s \<and> lh_ok (unat (l_size (fslog s)) - 1) (l_lh (fslog s)) \<and>
     pinned s = set (logged_blocks (l_lh (fslog s))) \<and>
     length (memdisk s (unat (l_start (fslog s)))) = 512 \<and> field32 (memdisk s (unat (l_start (fslog s)))) 0 = 0"

lemma home_blocks:
  assumes "lh_ok m (l_lh (fslog s))"
  shows "map (home s) [0..<log_count s] = logged_blocks (l_lh (fslog s))"
    "home s ` {..<log_count s} = set (logged_blocks (l_lh (fslog s)))"
    "log_count s = length (logged_blocks (l_lh (fslog s)))" "log_count s = unat (lh_n (l_lh (fslog s)))"
proof -
  show n: "log_count s = unat (lh_n (l_lh (fslog s)))" using lh_ok_count [OF assms] by (simp add: log_count_def)
  show l: "log_count s = length (logged_blocks (l_lh (fslog s)))"
    using assms n by (simp add: logged_blocks_def log_count_def lh_ok_def)
  show m: "map (home s) [0..<log_count s] = logged_blocks (l_lh (fslog s))"
    by (rule nth_equalityI) (use l in \<open>simp_all add: home_def logged_blocks_def log_count_def\<close>)
  show "home s ` {..<log_count s} = set (logged_blocks (l_lh (fslog s)))"
    unfolding m [symmetric] by (simp add: atLeast0LessThan)
qed

lemma transaction_ready: "in_transaction {} s \<Longrightarrow> log_ready s"
  using home_blocks(2) [of _ s] by (auto simp: in_transaction_def log_ready_def)

lemma enter_layout:
  assumes l: "layout_ok s" and h: "lh_ok (unat (l_size (fslog s)) - 1) (l_lh (fslog s))"
    and n: "log_count s + 1 < unat (l_size (fslog s))" and b: "b < disksize s" "b \<notin> log_area (fslog s)"
    and t: "fslog t = (fslog s)\<lparr>l_lh := enter_block b (l_lh (fslog s))\<rparr>" "disksize t = disksize s"
  shows "layout_ok t" "lh_ok (unat (l_size (fslog t)) - 1) (l_lh (fslog t))"
    "set (logged_blocks (l_lh (fslog t))) = insert b (set (logged_blocks (l_lh (fslog s))))"
    "log_count t = log_count s + (if b \<in> set (logged_blocks (l_lh (fslog s))) then 0 else 1)"
proof -
  let ?bs = "logged_blocks (l_lh (fslog s))"
  note H = home_blocks [OF h]
  have "unat (lh_n (l_lh (fslog s))) < unat (l_size (fslog s)) - 1" using n H(4) by simp
  note E = enter_block_spec [OF h this, of b]
  show h': "lh_ok (unat (l_size (fslog t)) - 1) (l_lh (fslog t))" using E(1) by (simp add: t)
  note H' = home_blocks [OF h']
  have bs: "logged_blocks (l_lh (fslog t)) = (if b \<in> set ?bs then ?bs else ?bs @ [b])" using E(2) by (simp add: t)
  show "set (logged_blocks (l_lh (fslog t))) = insert b (set ?bs)" by (auto simp: bs)
  show c: "log_count t = log_count s + (if b \<in> set ?bs then 0 else 1)" using H(3) H'(3) by (simp add: bs)
  have old: "distinct ?bs" "\<forall>c \<in> set ?bs. c < disksize s \<and> c \<notin> log_area (fslog s)"
    using l unfolding layout_ok_def H(1) unfolding H(2) [symmetric] by auto
  have "distinct (map (home t) [0..<log_count t])" unfolding H'(1) bs using old(1) by simp
  moreover have "\<forall>c \<in> home t ` {..<log_count t}. c < disksize t \<and> c \<notin> log_area (fslog t)"
    unfolding H'(2) bs using old(2) b by (auto simp: t)
  ultimately show "layout_ok t" using l n unfolding layout_ok_def c by (auto simp: t)
qed

lemma guards_pass:
  assumes "lh_ok (unat (l_size (fslog s)) - 1) (l_lh (fslog s))" "log_count s + 1 < unat (l_size (fslog s))"
    "unat (l_size (fslog s)) \<le> 30"
  shows "\<not> of_nat 30 \<le>s lh_n (l_lh (fslog s))" "\<not> l_size (fslog s) - 1 \<le>s lh_n (l_lh (fslog s))"
proof -
  let ?n = "lh_n (l_lh (fslog s))"
  have n: "unat ?n + 1 < unat (l_size (fslog s))" using assms(2) home_blocks(4) [OF assms(1)] by simp
  then have "1 \<le> l_size (fslog s)" by (simp add: word_le_nat_alt)
  then have "unat (l_size (fslog s) - 1) = unat (l_size (fslog s)) - 1" by (simp add: unat_sub)
  then show "\<not> of_nat 30 \<le>s ?n" "\<not> l_size (fslog s) - 1 \<le>s ?n" using n assms(3) by (simp_all add: signed_small)
qed

lemma logged_write:
  assumes tr: "in_transaction H s" and i: "i \<in> H" and b: "b_blockno (bufs s i) = b" "b < disksize s" "b \<notin> log_area (fslog s)"
    and n: "log_count s + 1 < unat (l_size (fslog s))" and o: "1 \<le> sint (l_outstanding (fslog s))"
  obtains u where "log_write i (set_bdata i d s) = Inr u" "in_transaction H u" "content u = (content s)(b := d)"
    "memdisk u = memdisk s" "disk_writes u = disk_writes s" "dirty (bufs u i)"
    "log_count u = log_count s + (if b \<in> pinned s then 0 else 1)"
    "fslog u = (fslog s)\<lparr>l_lh := enter_block b (l_lh (fslog s))\<rparr>" "disksize u = disksize s"
proof -
  have inv: "cache_inv H s" and l: "layout_ok s" and h: "lh_ok (unat (l_size (fslog s)) - 1) (l_lh (fslog s))"
    and p: "pinned s = set (logged_blocks (l_lh (fslog s)))" using tr by (simp_all add: in_transaction_def)
  note D = cache_invD [OF inv]
  have i30: "i < 30" using i D(4) by blast
  define u where "u = upd_buf i (\<lambda>b. b\<lparr>b_flags := b_flags b OR 4\<rparr>) (upd_lh (enter_block b) (set_bdata i d s))"
  have fl: "fslog (set_bdata i d s) = fslog s" by (simp add: set_bdata_def upd_buf_def)
  have "quiet (set_bdata i d s)" using D(1) by (simp add: set_bdata_def)
  then have run: "log_write i (set_bdata i d s) = Inr u"
    using guards_pass [OF h n] l o log_write_quiet [of "set_bdata i d s" i] b(1)
    by (simp add: u_def fl layout_ok_def word_sless_alt) (simp add: set_bdata_def)
  define nb where "nb = (bufs s i)\<lparr>b_data := d, b_flags := b_flags (bufs s i) OR 4\<rparr>"
  have nb: "bufs u = (bufs s)(i := nb)" by (simp add: u_def nb_def set_bdata_def)
  have dev: "b_dev (bufs s i) = 1" using D(9) [OF i30] i by blast
  have nbs: "b_dev nb = 1" "b_blockno nb = b" "b_refcnt nb = 1" "valid nb" "dirty nb" "b_data nb = d"
    using dev b(1) D(6) [OF i30] D(8) [OF i30 dev, unfolded valid_def] i by (simp_all add: nb_def)
  have q: "quiet u" "bcache_list u = bcache_list s" "sleeplocks u = sleeplocks s" "memdisk u = memdisk s"
    "disksize u = disksize s" "disk_writes u = disk_writes s"
    "fslog u = (fslog s)\<lparr>l_lh := enter_block b (l_lh (fslog s))\<rparr>"
    using D(1) by (simp_all add: u_def set_bdata_def upd_lh_def upd_log_def upd_buf_def quiet_def lock_free_def)
  have iu: "cache_inv H u"
    by (rule cache_inv_held [OF inv i nb]; use nbs b(1) q in simp)
  have hu: "content u = (content s)(b := d)" "pinned u = insert b (pinned s)"
    using held_update [OF inv iu i nb b(1) nbs(1,2)] q(4) nbs(5,6) by simp_all
  note E = enter_layout [OF l h n b(2,3) q(7,5)]
  have "in_transaction H u" using tr iu E q(4,7) hu(2) p by (simp add: in_transaction_def)
  moreover have "dirty (bufs u i)" using nbs(5) by (simp add: nb)
  ultimately show thesis using that [OF run] hu(1) q(4-7) E(4) p by simp
qed

section \<open>An example\<close>

definition demo_disk :: "(nat \<Rightarrow> block) \<Rightarrow> (nat \<Rightarrow> buf) \<Rightarrow> log_state" where
  "demo_disk m bs = pipe_state.extend (demo_pipe\<lparr>cpu := settle (cpu demo_pipe), curproc := Some 0\<rparr>)
     \<lparr>sleeplocks = (\<lambda>_. \<lparr>sl_locked = 0, sl_name = ''buffer'', sl_pid = 0\<rparr>), bufs = bs, bcache_list = [0..<30],
      memdisk = m, disksize = 1000, disk_writes = [],
      fslog = \<lparr>l_start = 2, l_size = 30, l_outstanding = 1, l_committing = 0, l_dev = 1,
        l_lh = \<lparr>lh_n = 1, lh_block = replicate 30 59\<rparr>\<rparr>\<rparr>"

definition clean_buf :: buf where
  "clean_buf = \<lparr>b_flags = 0, b_dev = 0, b_blockno = 0, b_refcnt = 0, b_data = []\<rparr>"

definition dirty_buf :: buf where
  "dirty_buf = \<lparr>b_flags = 6, b_dev = 1, b_blockno = 59, b_refcnt = 0, b_data = replicate 512 7\<rparr>"

text \<open>A transaction that changed one block, number 59.\<close>

definition demo_txn :: log_state where
  "demo_txn = demo_disk (\<lambda>_. replicate 512 0) ((\<lambda>_. clean_buf)(3 := dirty_buf))"

lemma demo_disk_simps [simp]:
  "quiet (demo_disk m bs)" "bufs (demo_disk m bs) = bs" "bcache_list (demo_disk m bs) = [0..<30]"
  "sleeplocks (demo_disk m bs) l = \<lparr>sl_locked = 0, sl_name = ''buffer'', sl_pid = 0\<rparr>"
  "memdisk (demo_disk m bs) = m" "disk_writes (demo_disk m bs) = []" "disksize (demo_disk m bs) = 1000"
  "fslog (demo_disk m bs) = \<lparr>l_start = 2, l_size = 30, l_outstanding = 1, l_committing = 0, l_dev = 1,
        l_lh = \<lparr>lh_n = 1, lh_block = replicate 30 59\<rparr>\<rparr>"
  by (simp_all add: demo_disk_def quiet_def lock_free_def settle_def pipe_state.defs
    demo_pipe_def demo_cons_def demo_kmem_def demo_trace_def traceinit_def initlock_def ktrace.defs
      kproc.defs kalloc_state.defs vm_state.defs cons_state.defs demo_sys_def kmem_ready_def cpu_ok_def)

lemma demo_in_transaction: "in_transaction {} demo_txn"
proof -
  have "cache_inv {} demo_txn"
    by (auto simp: demo_txn_def cache_inv_def clean_buf_def dirty_buf_def valid_def dirty_def)
  moreover have "pinned demo_txn = {59}" by (auto simp: demo_txn_def pinned_def clean_buf_def dirty_buf_def dirty_def)
  moreover have "log_count demo_txn = 1" "home demo_txn 0 = 59" by (simp_all add: demo_txn_def log_count_def home_def)
  moreover have "59 \<notin> log_area (fslog demo_txn)" by (simp add: demo_txn_def log_area_def)
  moreover have "field32 (replicate 512 0) 0 = 0" by (simp add: field32_def decode32_def)
  ultimately show ?thesis by (simp add: demo_txn_def in_transaction_def layout_ok_def lh_ok_def logged_blocks_def)
qed

lemmas demo_log_ready = transaction_ready [OF demo_in_transaction]

lemma demo_txn_facts:
  "log_count demo_txn = 1" "content demo_txn 59 = replicate 512 7" "59 \<notin> log_area (fslog demo_txn)"
  by (simp_all add: demo_txn_def log_count_def content_def upt_rec clean_buf_def dirty_buf_def log_area_def)

lemma demo_pinned: "59 \<in> pinned demo_txn"
  by (auto simp: demo_txn_def pinned_def clean_buf_def dirty_buf_def dirty_def intro!: exI [of _ 3])

lemma demo_restarted: "restarted (demo_disk m bs) (demo_disk m' (\<lambda>_. clean_buf))"
  by (auto simp: restarted_def cache_inv_def pinned_def clean_buf_def valid_def dirty_def)

lemma quiet_initlock: "quiet s \<Longrightarrow> quiet (initlock l name s)"
  by (simp add: quiet_def lock_free_def initlock_def)

lemma binit_loop:
  assumes "quiet s" "bcache_list s = []"
  defines "t n \<equiv> fold (\<lambda>i s. initsleeplock (Buf_lk i) ''buffer'' (s\<lparr>bcache_list := i # bcache_list s\<rparr>)) [0..<n] s"
  shows "quiet (t n) \<and> bufs (t n) = bufs s \<and> bcache_list (t n) = rev [0..<n] \<and> memdisk (t n) = memdisk s \<and>
           (\<forall>i<n. sl_locked (sleeplocks (t n) (Buf_lk i)) = 0)"
proof (induction n)
  case 0
  then show ?case using assms(1,2) by (simp add: t_def)
next
  case (Suc n)
  have "t (Suc n) = initsleeplock (Buf_lk n) ''buffer'' ((t n)\<lparr>bcache_list := n # bcache_list (t n)\<rparr>)" by (simp add: t_def)
  then show ?case
    using Suc by (auto simp: initsleeplock_def initlock_def quiet_def lock_free_def less_Suc_eq)
qed

section \<open>Properties\<close>



text \<open>
  C9. \<^verbatim>\<open>bread\<close> returns the block: unless the caller already holds it, and while fewer than 30 blocks
  are pinned or held, it returns a locked buffer with the block's latest contents, the modified
  ones if the block is pinned, and changes neither the disk nor what any other block shows.
\<close>

theorem bread_returns_block:
  assumes "cache_inv H s" "b < disksize s" "b \<notin> held H s" "b \<in> pinned s \<or> card (pinned s \<union> held H s) < 30"
  shows "\<exists>i t. bread 1 b s = Inr (i, t) \<and> i \<notin> H \<and> cache_inv (insert i H) t \<and> b_blockno (bufs t i) = b \<and>
     bdata i t = content s b \<and> content t = content s \<and> pinned t = pinned s \<and> memdisk t = memdisk s"
proof -
  obtain i t where "bread 1 b s = Inr (i, t)" and g: "got H s b i t" by (rule bread_spec [OF assms])
  moreover have "i \<notin> H \<and> cache_inv (insert i H) t \<and> b_blockno (bufs t i) = b \<and> bdata i t = content s b \<and>
    content t = content s \<and> pinned t = pinned s \<and> memdisk t = memdisk s"
    using g by (simp add: got_def bdata_def same_disk_def)
  ultimately show ?thesis by blast
qed

theorem bread_returns_block_witness: "\<exists>i t. bread 1 59 demo_txn = Inr (i, t) \<and> bdata i t = replicate 512 7"
proof -
  have "cache_inv {} demo_txn" using demo_in_transaction by (simp add: in_transaction_def)
  moreover have "59 \<in> pinned demo_txn" by (rule demo_pinned)
  ultimately show ?thesis
    using bread_returns_block [of "{}" demo_txn 59] demo_txn_facts(2) by (auto simp: held_def demo_txn_def)
qed

text \<open>
  C7. Changing a block inside a transaction, as every file system routine does it (read the buffer,
  change it, \<^verbatim>\<open>log_write\<close>, release): the calls return, the cache shows the new contents, the disk
  is untouched, and the transaction's invariant is kept. A block already in the log is absorbed:
  it takes no second entry.
\<close>

theorem logged_update:
  assumes tr: "in_transaction {} s" and b: "b < disksize s" "b \<notin> log_area (fslog s)"
    and n: "log_count s + 1 < unat (l_size (fslog s))" and o: "1 \<le> sint (l_outstanding (fslog s))"
  shows "\<exists>i t u v. bread 1 b s = Inr (i, t) \<and> log_write i (set_bdata i (f (bdata i t)) t) = Inr u \<and> brelse i u = Inr v \<and>
     in_transaction {} v \<and> content v = (content s)(b := f (content s b)) \<and> memdisk v = memdisk s \<and>
     disk_writes v = disk_writes s \<and> log_count v = log_count s + (if b \<in> pinned s then 0 else 1)"
proof -
  have inv: "cache_inv {} s" and room: "card (pinned s) < 30"
    using tr ready_area(2) [of s] transaction_ready [OF tr] by (simp_all add: in_transaction_def log_ready_def)
  have "b \<notin> held {} s" "b \<in> pinned s \<or> card (pinned s \<union> held {} s) < 30" using room by (simp_all add: held_def)
  then obtain i t where it: "bread 1 b s = Inr (i, t)" and g: "got {} s b i t" by (rule bread_spec [OF inv b(1)])
  have t: "cache_inv {i} t" "same_disk s t" "b_blockno (bufs t i) = b" "bdata i t = content s b"
    "content t = content s" "pinned t = pinned s"
    using g by (simp_all add: got_def bdata_def)
  have d: "memdisk t = memdisk s" "disksize t = disksize s" "disk_writes t = disk_writes s"
    using t(2) by (simp_all add: same_disk_def)
  have fl: "fslog t = fslog s" using t(2) by (intro more_fslog) (simp add: same_disk_def)
  note E = log_state_eqs [OF fl]
  have "layout_ok s" using tr by (simp add: in_transaction_def)
  then have "layout_ok t" using d(2) by (simp add: layout_ok_def fl E)
  then have trt: "in_transaction {i} t" using tr t(1,6) d(1) by (simp add: in_transaction_def fl)
  have h: "b < disksize t" "b \<notin> log_area (fslog t)" "log_count t + 1 < unat (l_size (fslog t))"
    "1 \<le> sint (l_outstanding (fslog t))" using b n o d(2) by (simp_all add: fl E)
  obtain u where u: "log_write i (set_bdata i (f (content s b)) t) = Inr u" "in_transaction {i} u"
    "content u = (content t)(b := f (content s b))" "memdisk u = memdisk t" "disk_writes u = disk_writes t"
    "dirty (bufs u i)" "log_count u = log_count t + (if b \<in> pinned t then 0 else 1)"
    "fslog u = (fslog t)\<lparr>l_lh := enter_block b (l_lh (fslog t))\<rparr>" "disksize u = disksize t"
    by (rule logged_write [OF trt singletonI t(3) h]) (rule that)
  have iu: "cache_inv {i} u" using u(2) by (simp add: in_transaction_def)
  obtain v where v: "brelse i u = Inr v" "cache_inv ({i} - {i}) v" "same_disk u v" "content v = content u"
    "pinned v = pinned u" "\<And>j. j \<noteq> i \<Longrightarrow> bufs v j = bufs u j"
    by (rule brelse_spec [OF iu singletonI]) (use u(6) in blast, rule that)
  have fv: "fslog v = fslog u" using v(3) by (intro more_fslog) (simp add: same_disk_def)
  have "layout_ok u" using u(2) by (simp add: in_transaction_def)
  then have "layout_ok v" using v(3) by (simp add: layout_ok_def fv log_state_eqs [OF fv] same_disk_def)
  then have "in_transaction {} v" using u(2) v(2,3,5) by (simp add: in_transaction_def fv same_disk_def)
  then show ?thesis
    using it u(1,3-5,7) v(1,3,4) t(4-6) d by (simp add: same_disk_def log_state_eqs [OF fv] E)
qed

theorem logged_update_witness:
  "\<exists>i t u v. bread 1 59 demo_txn = Inr (i, t) \<and> log_write i (set_bdata i ((bdata i t)[0 := 9]) t) = Inr u \<and>
     brelse i u = Inr v \<and> content v 59 = (replicate 512 7)[0 := 9] \<and> log_count v = 1"
proof -
  have 1: "59 < disksize demo_txn" "1 \<le> sint (l_outstanding (fslog demo_txn))" "log_count demo_txn + 1 < unat (l_size (fslog demo_txn))"
    by (simp_all add: demo_txn_def log_count_def)
  show ?thesis
    using demo_pinned logged_update [OF demo_in_transaction 1(1) demo_txn_facts(3) 1(3,2), of "\<lambda>d. d[0 := 9]"] demo_txn_facts(1,2)
    by fastforce
qed

text \<open>
  C6. Commit installs the transaction: with the log as the file system calls leave it, commit
  returns, every block of the disk outside the log then holds what the cache held for it, no
  buffer stays pinned, and the log is empty and ready for the next transaction.
\<close>

theorem commit_installs:
  assumes "log_ready s"
  shows "\<exists>w. commit s = Inr w \<and> log_ready w \<and> log_count w = 0 \<and> pinned w = {} \<and>
           (\<forall>b. b \<notin> log_area (fslog s) \<longrightarrow> memdisk w (unat b) = content s b)"
proof (cases "log_count s = 0")
  case True
  then have "pinned s = {}" using assms by (simp add: log_ready_def)
  then show ?thesis
    using True commit_idle [OF True] assms content_unpinned [of s] by (intro exI [of _ s]) (simp add: log_ready_def)
next
  case False
  obtain w where w: "commit s = Inr w" "cache_inv {} w" "pinned w = {}" "disksize w = disksize s"
    "memdisk w = disk_overlay (on_disk (commit_writes s)) (memdisk s)"
    "fslog w = (fslog s)\<lparr>l_lh := (l_lh (fslog s))\<lparr>lh_n := 0\<rparr>\<rparr>"
    using commit_run [OF assms] False by auto
  from log_ready_committed [OF assms w(2-6)] w(1,3) show ?thesis by blast
qed

theorem commit_installs_witness:
  "\<exists>w. commit demo_txn = Inr w \<and> log_count w = 0 \<and> memdisk w 59 = replicate 512 7"
  using commit_installs [OF demo_log_ready] demo_txn_facts(2,3) by fastforce

text \<open>
  C1. A commit is atomic. However many of its disk writes \<open>k\<close> a crash lets through, recovery of the
  restarted machine returns with the log empty and with every block outside the log as before the
  transaction, if the crash came before the header was written, or as after it otherwise.
\<close>

theorem commit_crash_atomic:
  assumes "log_ready s" "0 < log_count s"
  shows "\<exists>w. commit s = Inr w \<and> (\<forall>k r. restarted s r \<and>
     memdisk r = disk_overlay (take k (drop (length (disk_writes s)) (disk_writes w))) (memdisk s) \<longrightarrow>
     (\<exists>t. recover_from_log r = Inr t \<and> field32 (memdisk t (unat (l_start (fslog s)))) 0 = 0 \<and>
        (\<forall>b. b \<notin> log_area (fslog s) \<longrightarrow>
           memdisk t (unat b) = (if k \<le> log_count s then memdisk s (unat b) else content s b))))"
proof -
  obtain w where w: "commit s = Inr w" "disk_writes w = disk_writes s @ on_disk (commit_writes s)"
    using commit_run [OF assms] by blast
  have "disk_overlay (take k (drop (length (disk_writes s)) (disk_writes w))) (memdisk s) = crash_disk s k" for k
    by (simp add: w(2) crash_disk_def)
  then show ?thesis using w(1) crash_recovery [OF assms(1)] by metis
qed

theorem commit_crash_atomic_witness:
  "\<exists>w t u. commit demo_txn = Inr w \<and>
     recover_from_log (demo_disk (disk_overlay (take 1 (disk_writes w)) (memdisk demo_txn)) (\<lambda>_. clean_buf)) = Inr t \<and>
     memdisk t 59 = replicate 512 0 \<and>
     recover_from_log (demo_disk (disk_overlay (take 2 (disk_writes w)) (memdisk demo_txn)) (\<lambda>_. clean_buf)) = Inr u \<and>
     memdisk u 59 = replicate 512 7"
proof -
  let ?m = "\<lambda>w k. disk_overlay (take k (disk_writes w)) (memdisk demo_txn)"
  have 0: "disk_writes demo_txn = []" "memdisk demo_txn 59 = replicate 512 0" by (simp_all add: demo_txn_def)
  obtain w where w: "commit demo_txn = Inr w"
    and rec: "\<forall>k (r :: log_state). restarted demo_txn r \<and> memdisk r = ?m w k \<longrightarrow> (\<exists>t. recover_from_log r = Inr t \<and>
      field32 (memdisk t (unat (l_start (fslog demo_txn)))) 0 = 0 \<and> (\<forall>b. b \<notin> log_area (fslog demo_txn) \<longrightarrow>
         memdisk t (unat b) = (if k \<le> 1 then memdisk demo_txn (unat b) else content demo_txn b)))"
    using commit_crash_atomic [OF demo_log_ready, unfolded demo_txn_facts(1) 0(1) list.size drop_0] by auto
  have "restarted demo_txn (demo_disk (?m w k) (\<lambda>_. clean_buf))" for k
    using demo_restarted by (simp add: demo_txn_def)
  then have "\<exists>t. recover_from_log (demo_disk (?m w k) (\<lambda>_. clean_buf)) = Inr t \<and>
      memdisk t 59 = (if k \<le> 1 then replicate 512 0 else replicate 512 7)" for k
    using rec [rule_format, of "demo_disk (?m w k) (\<lambda>_. clean_buf)" k] demo_txn_facts(2,3) 0(2) by fastforce
  from this [of 1] this [of 2] w show ?thesis by auto
qed

end
