(* ===== verification/ProcProofs.thy ===== *)
theory ProcProofs
  imports Proc LogProofs
begin

text \<open>
  The life of a process: what \<^verbatim>\<open>fork\<close> puts in the table, how \<^verbatim>\<open>exit\<close> passes children on and wakes
  the parent, and what \<^verbatim>\<open>wait\<close> returns.
\<close>

section \<open>What memory and file operations leave alone\<close>

definition same_procs :: "'a kproc_scheme \<Rightarrow> 'a kproc_scheme \<Rightarrow> bool" where
  "same_procs s t \<longleftrightarrow> ptable t = ptable s \<and> curproc t = curproc s \<and> nextpid t = nextpid s \<and> initproc t = initproc s"

lemma same_procsD:
  assumes "same_procs s t"
  shows "ptable t = ptable s" "curproc t = curproc s" "nextpid t = nextpid s" "initproc t = initproc s"
  using assms by (simp_all add: same_procs_def)

lemma same_procs_refl [simp]: "same_procs s s"
  by (simp add: same_procs_def)

lemma same_procs_trans [trans]: "same_procs s t \<Longrightarrow> same_procs t u \<Longrightarrow> same_procs s u"
  by (simp add: same_procs_def)

lemma same_procs_update [simp]:
  fixes s t :: "'a ktrace_scheme"
  shows "same_procs s (t\<lparr>mem := m\<rparr>) = same_procs s t" "same_procs s (t\<lparr>traceBuffer := b\<rparr>) = same_procs s t"
  by (simp_all add: same_procs_def)

lemma same_procs_freelist [simp]: "same_procs s (t\<lparr>kmem_freelist := a\<rparr>) = same_procs s t"
  by (simp add: same_procs_def)

lemma acquire_procs: "acquire l s = Inr t \<Longrightarrow> same_procs s t"
  by (auto dest: acquire_frame simp: same_procs_def)

lemma release_procs: "release l s = Inr t \<Longrightarrow> same_procs s t"
  by (auto dest: release_frame simp: same_procs_def)

named_theorems keeps_procs

lemma traceevent_procs [keeps_procs]: "traceevent ty p a b c n s = Inr t \<Longrightarrow> same_procs s t"
  by (auto simp: traceevent_def andthen_Inr_iff dest!: acquire_frame release_frame split: if_splits)
    (simp_all add: same_procs_def)

lemma kalloc_procs [keeps_procs]: "kalloc s = Inr (p, t) \<Longrightarrow> same_procs s t"
  unfolding kalloc_def
  by (auto simp: andthen_Inr_iff Let_def same_procs_def dest!: acquire_procs release_procs traceevent_procs split: if_splits)

lemma kfree_procs [keeps_procs]: "kfree v s = Inr t \<Longrightarrow> same_procs s t"
  unfolding kfree_def
  by (auto simp: andthen_Inr_iff Let_def same_procs_def dest!: acquire_procs release_procs traceevent_procs split: if_splits)

lemma walk_level_procs: "walk_level e al s = Inr (r, t) \<Longrightarrow> same_procs s t"
  unfolding walk_level_def
  by (auto simp: andthen_Inr_iff Let_def dest!: kalloc_procs split: if_splits)

lemma walkpgdir_procs: "walkpgdir d va al s = Inr (r, t) \<Longrightarrow> same_procs s t"
  unfolding walkpgdir_def
  by (auto simp: andthen_Inr_iff same_procs_def dest!: walk_level_procs split: option.splits)

lemma mappages_loop_procs: "mappages_loop d n a pa perm s = Inr (r, t) \<Longrightarrow> same_procs s t"
proof (induction n arbitrary: a pa s)
  case 0
  then show ?case
    by (subst (asm) mappages_loop.simps) (auto simp: andthen_Inr_iff Let_def dest!: walkpgdir_procs split: if_splits)
next
  case (Suc n)
  from Suc.prems obtain pte s1 where w: "walkpgdir d a True s = Inr (pte, s1)"
    and r: "s1 = t \<or> mappages_loop d n (a + PGSIZE) (pa + PGSIZE) perm
      (s1\<lparr>mem := store64 (mem s1) pte (pa OR scast perm OR PTE_P)\<rparr>) = Inr (r, t)"
    by (subst (asm) mappages_loop.simps) (auto simp: andthen_Inr_iff Let_def split: if_splits)
  from r show ?case using walkpgdir_procs [OF w] by (auto dest!: Suc.IH simp: same_procs_def)
qed

lemma mappages_procs: "mappages d va n pa perm s = Inr (r, t) \<Longrightarrow> same_procs s t"
  by (auto simp: mappages_def Let_def dest: mappages_loop_procs)

lemma setupkvm_procs: "setupkvm s = Inr (d, t) \<Longrightarrow> same_procs s t"
  by (auto simp: setupkvm_def andthen_Inr_iff Let_def dest!: kalloc_procs)

lemma free_entries_procs: "free_entries l d is s = Inr t \<Longrightarrow> same_procs s t"
proof (induction l d "is" s arbitrary: t rule: free_entries.induct)
  case (1 l d s)
  then show ?case by simp
next
  case (2 l d i "is" s)
  let ?e = "load64 (mem s) (d + 8 * of_nat i)"
  show ?case
  proof (cases "?e AND PTE_P \<noteq> 0")
    case True
    then obtain s1 s2 where s1: "(case l of 0 \<Rightarrow> Inr s | Suc k \<Rightarrow> free_entries k (P2V (PTE_ADDR ?e)) [0..<512] s) = Inr s1"
      and s2: "kfree (P2V (PTE_ADDR ?e)) s1 = Inr s2" "free_entries l d is s2 = Inr t"
      using 2(4) by (auto simp: Let_def andthen_Inr_iff)
    have "same_procs s s1" using s1 2(1) [OF refl refl True] by (cases l) auto
    also have "same_procs s1 s2" using kfree_procs [OF s2(1)] .
    also have "same_procs s2 t" using 2(2) [OF refl refl True s1 s2] .
    finally show ?thesis .
  next
    case False
    then show ?thesis using 2(3) [OF refl refl] 2(4) by (simp add: Let_def)
  qed
qed

lemma freevm_procs [keeps_procs]: "freevm d s = Inr t \<Longrightarrow> same_procs s t"
  by (auto simp: freevm_def andthen_Inr_iff same_procs_def dest!: free_entries_procs kfree_procs split: if_splits)

lemma copyuvm_loop_procs: "copyuvm_loop d e is s = Inr (r, t) \<Longrightarrow> same_procs s t"
proof (induction "is" arbitrary: s)
  case Nil
  then show ?case by simp
next
  case (Cons i "is")
  then show ?case
    by (auto simp: andthen_Inr_iff Let_def same_procs_def
        dest!: walkpgdir_procs kalloc_procs mappages_procs freevm_procs Cons.IH split: if_splits)
qed

lemma copyuvm_procs [keeps_procs]: "copyuvm d n s = Inr (r, t) \<Longrightarrow> same_procs s t"
  by (auto simp: copyuvm_def andthen_Inr_iff same_procs_def dest!: setupkvm_procs copyuvm_loop_procs split: if_splits)

lemma filedup_procs [keeps_procs]: "filedup f s = Inr (g, t) \<Longrightarrow> g = f \<and> same_procs s t"
  by (auto simp: filedup_def andthen_Inr_iff same_procs_def upd_file_def dest!: acquire_procs release_procs split: if_splits)

lemma idup_procs [keeps_procs]: "idup ip s = Inr (jp, t) \<Longrightarrow> jp = ip \<and> same_procs s t"
  by (auto simp: idup_def andthen_Inr_iff same_procs_def upd_inode_def dest!: acquire_procs release_procs)

section \<open>Fork\<close>

lemma allocproc_table:
  assumes "allocproc im s = Inr (Some j, t)"
  shows "scan (\<lambda>p. pstate p = UNUSED) (ptable s) = Some j" "nextpid t = nextpid s + 1" "curproc t = curproc s"
    "initproc t = initproc s"
    "\<exists>k. ptable t = (ptable s)[j := (ptable s ! j)\<lparr>pstate := EMBRYO, pid := nextpid s, kstack := k\<rparr>]"
proof -
  obtain s1 s2 k s3 where a: "acquire Ptable_lock s = Inr s1" "scan (\<lambda>p. pstate p = UNUSED) (ptable s1) = Some j"
    "release Ptable_lock ((upd_proc j (\<lambda>p. p\<lparr>pstate := EMBRYO, pid := nextpid s1\<rparr>) s1)\<lparr>nextpid := nextpid s1 + 1\<rparr>) = Inr s2"
    "kalloc s2 = Inr (k, s3)"
    "t = (upd_proc j (\<lambda>p. p\<lparr>kstack := k\<rparr>) s3)\<lparr>mem := stack_top im k (mem (upd_proc j (\<lambda>p. p\<lparr>kstack := k\<rparr>) s3))\<rparr>"
    using assms by (auto simp: allocproc_def andthen_Inr_iff Let_def split: option.splits if_splits)
  note P = same_procsD [OF acquire_procs [OF a(1)]] and Q = same_procsD [OF release_procs [OF a(3)]]
    and R = same_procsD [OF kalloc_procs [OF a(4)]]
  show sc: "scan (\<lambda>p. pstate p = UNUSED) (ptable s) = Some j" using a(2) P by simp
  then have j: "j < length (ptable s)" by (rule scan_SomeD)
  show "nextpid t = nextpid s + 1" "curproc t = curproc s" "initproc t = initproc s"
    using P Q R by (simp_all add: a(5) upd_proc_def)
  have "ptable t = (ptable s)[j := (ptable s ! j)\<lparr>pstate := EMBRYO, pid := nextpid s, kstack := k\<rparr>]"
    using P Q R j by (simp add: a(5) upd_proc_def)
  then show "\<exists>k. ptable t = (ptable s)[j := (ptable s ! j)\<lparr>pstate := EMBRYO, pid := nextpid s, kstack := k\<rparr>]" ..
qed

text \<open>The descriptors of the child after the loop over \<open>fds\<close>.\<close>

definition shared_files :: "nat option list \<Rightarrow> nat list \<Rightarrow> nat option list \<Rightarrow> nat option list" where
  "shared_files pf fds cf = fold (\<lambda>fd cf. case pf ! fd of None \<Rightarrow> cf | Some f \<Rightarrow> cf[fd := Some f]) fds cf"

lemma fork_files_table:
  assumes "fork_files i j fds s = Inr t" "i \<noteq> j" "j < length (ptable s)"
  shows "curproc t = curproc s" "nextpid t = nextpid s" "initproc t = initproc s"
    "ptable t = (ptable s)[j := (ptable s ! j)\<lparr>ofile := shared_files (ofile (ptable s ! i)) fds (ofile (ptable s ! j))\<rparr>]"
proof -
  have "curproc t = curproc s \<and> nextpid t = nextpid s \<and> initproc t = initproc s \<and>
    ptable t = (ptable s)[j := (ptable s ! j)\<lparr>ofile := shared_files (ofile (ptable s ! i)) fds (ofile (ptable s ! j))\<rparr>]"
    using assms
  proof (induction fds arbitrary: s)
    case Nil
    then show ?case by (simp add: shared_files_def)
  next
    case (Cons fd fds)
    show ?case
    proof (cases "ofile (ptable s ! i) ! fd")
      case None
      then show ?thesis using Cons by (simp add: shared_files_def)
    next
      case (Some f)
      then obtain g s1 where g: "filedup f s = Inr (g, s1)"
        "fork_files i j fds (upd_proc j (\<lambda>p. p\<lparr>ofile := (ofile p)[fd := Some g]\<rparr>) s1) = Inr t"
        using Cons.prems(1) by (auto simp: andthen_Inr_iff)
      have gf: "g = f" and "same_procs s s1" using filedup_procs [OF g(1)] by simp_all
      note P = same_procsD [OF this(2)] and s1 = g [unfolded gf]
      show ?thesis
        using Cons.IH [OF s1(2) Cons.prems(2)] Cons.prems(2,3) P Some by (simp add: shared_files_def upd_proc_def)
    qed
  qed
  then show "curproc t = curproc s" "nextpid t = nextpid s" "initproc t = initproc s"
    "ptable t = (ptable s)[j := (ptable s ! j)\<lparr>ofile := shared_files (ofile (ptable s ! i)) fds (ofile (ptable s ! j))\<rparr>]"
    by simp_all
qed

lemma length_shared_files [simp]: "length (shared_files pf fds cf) = length cf"
  unfolding shared_files_def by (induction fds arbitrary: cf) (auto split: option.split)

lemma nth_shared_files:
  "fd < length cf \<Longrightarrow> shared_files pf fds cf ! fd =
     (if fd \<in> set fds then (case pf ! fd of None \<Rightarrow> cf ! fd | Some f \<Rightarrow> Some f) else cf ! fd)"
proof (induction fds arbitrary: cf)
  case Nil
  then show ?case by (simp add: shared_files_def)
next
  case (Cons a fds)
  then show ?case by (cases "a = fd"; cases "pf ! a") (auto simp: shared_files_def split: option.split)
qed

text \<open>What \<^verbatim>\<open>fork\<close> makes of slot \<open>q\<close> for the child of \<open>p\<close>, process \<open>i\<close>.\<close>

definition child_of :: "nat \<Rightarrow> proc \<Rightarrow> cint \<Rightarrow> proc \<Rightarrow> proc \<Rightarrow> bool" where
  "child_of i p n q c \<longleftrightarrow> pid c = n \<and> pstate c = RUNNABLE \<and> parent c = Some i \<and> sz c = sz p \<and>
     tf c = (tf p)\<lparr>tf_rax := 0\<rparr> \<and> cwd c = cwd p \<and> killed c = killed q \<and>
     ofile c = shared_files (ofile p) [0..<NOFILE] (ofile q) \<and> pname c = safestrcpy_arr (pname q) (pname p) 0 15"

lemma fork_table:
  assumes f: "fork im s = Inr (r, t)" and i: "curproc s = Some i" "i < length (ptable s)" "pstate (ptable s ! i) \<noteq> UNUSED"
    and j: "allocproc im s = Inr (Some j, s1)" and d: "copyuvm (pgdir (ptable s1 ! i)) (ucast (sz (ptable s1 ! i))) s1 = Inr (d, s2)"
    and nz: "d \<noteq> 0"
  shows "r = nextpid s \<and> nextpid t = nextpid s + 1 \<and> curproc t = Some i \<and>
    (\<exists>c. ptable t = (ptable s)[j := c] \<and> child_of i (ptable s ! i) (nextpid s) (ptable s ! j) c)"
proof -
  note A = allocproc_table [OF j]
  obtain k where pt1: "ptable s1 = (ptable s)[j := (ptable s ! j)\<lparr>pstate := EMBRYO, pid := nextpid s, kstack := k\<rparr>]"
    using A(5) by blast
  have jl: "j < length (ptable s)" and ij: "i \<noteq> j" using scan_SomeD(1,2) [OF A(1)] i(3) by auto
  note P2 = same_procsD [OF copyuvm_procs [OF d]]
  define s3 where "s3 = upd_proc j (\<lambda>p. p\<lparr>pgdir := d\<rparr>) s2"
  define s4 where "s4 = upd_proc j (\<lambda>p. p\<lparr>sz := sz (ptable s3 ! i), parent := Some i,
      tf := (tf (ptable s3 ! i))\<lparr>tf_rax := 0\<rparr>\<rparr>) s3"
  obtain s5 ip jp s6 where s5: "fork_files i j [0..<NOFILE] s4 = Inr s5" "cwd (ptable s5 ! i) = Some ip"
    and s6: "idup ip s5 = Inr (jp, s6)"
    and t: "let s = upd_proc j (\<lambda>p. p\<lparr>cwd := Some jp, pname := safestrcpy_arr (pname p) (pname (ptable s6 ! i)) 0 15\<rparr>) s6;
                npid = pid (ptable s ! j); s = upd_proc j (\<lambda>p. p\<lparr>pstate := RUNNABLE\<rparr>) s
            in r = npid \<and> traceevent TRACE_TYPE_PROC npid (pid (ptable s ! i)) 0 0 (Some (cbytes ''fork'')) s = Inr t"
    using f i(1) j d nz by (auto simp: fork_def andthen_Inr_iff Let_def s3_def s4_def split: option.splits)
  have l4: "j < length (ptable s4)" using jl P2 by (simp add: s4_def s3_def pt1)
  note P5 = fork_files_table [OF s5(1) ij l4]
  have jp: "jp = ip" and "same_procs s5 s6" using idup_procs [OF s6] by simp_all
  note P6 = same_procsD [OF this(2)]
  note P7 = same_procsD [OF traceevent_procs [OF conjunct2 [OF t [unfolded Let_def]]]]
  have "ptable t = (ptable s)[j := ptable t ! j]" "child_of i (ptable s ! i) (nextpid s) (ptable s ! j) (ptable t ! j)"
    "r = nextpid s" "nextpid t = nextpid s + 1" "curproc t = Some i"
    using t P7 P6 P5 P2 jl ij s5(2) A(2,3) i(1)
    by (simp_all add: Let_def jp child_of_def s4_def s3_def pt1 upd_proc_def)
  then show ?thesis by blast
qed

text \<open>A failed \<^verbatim>\<open>fork\<close> gives its slot back.\<close>

definition slot_returned :: "proc list \<Rightarrow> proc list \<Rightarrow> bool" where
  "slot_returned ps qs \<longleftrightarrow> ps = qs \<or>
     (\<exists>j < length ps. \<exists>q. qs = ps[j := q] \<and> pstate (ps ! j) = UNUSED \<and> pstate q = UNUSED)"

lemma allocproc_fails:
  assumes "allocproc im s = Inr (None, t)"
  shows "slot_returned (ptable s) (ptable t)" "curproc t = curproc s"
proof -
  obtain s1 where s1: "acquire Ptable_lock s = Inr s1" using assms by (auto simp: allocproc_def andthen_Inr_iff)
  note P = same_procsD [OF acquire_procs [OF s1]]
  have "slot_returned (ptable s) (ptable t) \<and> curproc t = curproc s"
  proof (cases "scan (\<lambda>p. pstate p = UNUSED) (ptable s)")
    case None
    then show ?thesis using assms s1 P
      by (auto simp: allocproc_def andthen_Inr_iff slot_returned_def same_procs_def dest!: release_procs)
  next
    case (Some j)
    then obtain s2 s3 where
      r: "release Ptable_lock ((upd_proc j (\<lambda>p. p\<lparr>pstate := EMBRYO, pid := nextpid s1\<rparr>) s1)\<lparr>nextpid := nextpid s1 + 1\<rparr>) = Inr s2"
      and k: "kalloc s2 = Inr (0, s3)" and t: "t = upd_proc j (\<lambda>p. p\<lparr>pstate := UNUSED\<rparr>) (upd_proc j (\<lambda>p. p\<lparr>kstack := 0\<rparr>) s3)"
      using assms s1 P by (auto simp: allocproc_def andthen_Inr_iff Let_def split: if_splits)
    note Q = same_procsD [OF release_procs [OF r]] same_procsD [OF kalloc_procs [OF k]]
    define q where "q = (ptable s ! j)\<lparr>pid := nextpid s, kstack := 0, pstate := UNUSED\<rparr>"
    have j: "j < length (ptable s)" "pstate (ptable s ! j) = UNUSED" using scan_SomeD(1,2) [OF Some] by simp_all
    have "ptable t = (ptable s)[j := q]" "curproc t = curproc s" using j(1) P Q by (simp_all add: t upd_proc_def q_def)
    moreover have "pstate q = UNUSED" by (simp add: q_def)
    ultimately show ?thesis using j unfolding slot_returned_def by blast
  qed
  then show "slot_returned (ptable s) (ptable t)" "curproc t = curproc s" by simp_all
qed

lemma fork_no_memory:
  assumes f: "fork im s = Inr (r, t)" and i: "curproc s = Some i"
    and j: "allocproc im s = Inr (Some j, s1)" and d: "copyuvm (pgdir (ptable s1 ! i)) (ucast (sz (ptable s1 ! i))) s1 = Inr (0, s2)"
  shows "r = - 1 \<and> slot_returned (ptable s) (ptable t)"
proof -
  note A = allocproc_table [OF j] and P = same_procsD [OF copyuvm_procs [OF d]]
  obtain s3 where k: "kfree (kstack (ptable (upd_proc j (\<lambda>p. p\<lparr>pgdir := 0\<rparr>) s2) ! j)) (upd_proc j (\<lambda>p. p\<lparr>pgdir := 0\<rparr>) s2) = Inr s3"
    and t: "r = - 1" "t = upd_proc j (\<lambda>p. p\<lparr>kstack := 0, pstate := UNUSED\<rparr>) s3"
    using f i j d by (auto simp: fork_def andthen_Inr_iff Let_def)
  note Q = same_procsD [OF kfree_procs [OF k]]
  obtain k where k: "ptable s1 = (ptable s)[j := (ptable s ! j)\<lparr>pstate := EMBRYO, pid := nextpid s, kstack := k\<rparr>]"
    using A(5) by blast
  define q where "q = (ptable s ! j)\<lparr>pid := nextpid s, pgdir := 0, kstack := 0, pstate := UNUSED\<rparr>"
  have j: "j < length (ptable s)" "pstate (ptable s ! j) = UNUSED" using scan_SomeD(1,2) [OF A(1)] by simp_all
  have "ptable t = (ptable s)[j := q]" using P(1) Q(1) k j(1) by (simp add: t upd_proc_def q_def)
  moreover have "pstate q = UNUSED" by (simp add: q_def)
  ultimately show ?thesis using t(1) j unfolding slot_returned_def by blast
qed

section \<open>Exit\<close>

lemma wakeup1_sleepers: "p \<in> set (ptable (wakeup1 c s)) \<Longrightarrow> pstate p = SLEEPING \<Longrightarrow> chan p \<noteq> c"
proof -
  assume p: "p \<in> set (ptable (wakeup1 c s))" "pstate p = SLEEPING"
  have "ptable (wakeup1 c s) = map (\<lambda>p. if pstate p = SLEEPING \<and> chan p = c then p\<lparr>pstate := RUNNABLE\<rparr> else p) (ptable s)"
    by (simp add: wakeup1_def)
  from p(1) [unfolded this set_map] obtain q where
    "p = (if pstate q = SLEEPING \<and> chan q = c then q\<lparr>pstate := RUNNABLE\<rparr> else q)" by (rule imageE)
  then show ?thesis using p(2) by (cases "pstate q = SLEEPING \<and> chan q = c") simp_all
qed

lemma wakeup1_initproc [simp]: "initproc (wakeup1 c s) = initproc s"
  by (simp add: wakeup1_def)

text \<open>What \<^verbatim>\<open>exit\<close> of \<open>i\<close> may do to another process: pass it on to \<open>ini\<close>, and wake it.\<close>

definition passed_on :: "nat \<Rightarrow> nat option \<Rightarrow> proc \<Rightarrow> proc \<Rightarrow> bool" where
  "passed_on i ini p q \<longleftrightarrow>
     (pstate q = pstate p \<or> pstate p = SLEEPING \<and> pstate q = RUNNABLE) \<and>
     parent q = (if parent p = Some i then ini else parent p) \<and> pid q = pid p \<and> chan q = chan p"

lemma passed_on_wakeup1:
  assumes "j < length (ptable s)"
  shows "passed_on i (Some i) (ptable s ! j) (ptable (wakeup1 c s) ! j)"
  using wakeup1_nth [OF assms, of c] by (auto simp: passed_on_def)

lemma passed_on_trans:
  assumes "passed_on i (Some i) p q" "passed_on i ini q r"
  shows "passed_on i ini p r"
  using assms by (auto simp: passed_on_def split: if_splits)

lemma reparent_length [simp]:
  "length (ptable (reparent i js s)) = length (ptable s)" "initproc (reparent i js s) = initproc s"
  "curproc (reparent i js s) = curproc s"
  by (induction js arbitrary: s) (simp_all add: Let_def upd_proc_def)

lemma passed_on_trans':
  assumes "passed_on i ini p q" "passed_on i (Some i) q r"
  shows "passed_on i ini p r"
  using assms by (auto simp: passed_on_def split: if_splits)

lemma reparent_run:
  assumes "distinct js" "j < length (ptable s)"
  shows "passed_on i (if j \<in> set js then initproc s else Some i) (ptable s ! j) (ptable (reparent i js s) ! j)"
  using assms
proof (induction js arbitrary: s)
  case Nil
  then show ?case by (simp add: passed_on_def)
next
  case (Cons a js)
  define u where "u = (if parent (ptable s ! a) = Some i then upd_proc a (\<lambda>p. p\<lparr>parent := initproc s\<rparr>) s else s)"
  define v where "v = (if parent (ptable s ! a) = Some i \<and> pstate (ptable u ! a) = ZOMBIE
      then wakeup1 (proc_chan (initproc s)) u else u)"
  have r: "reparent i (a # js) s = reparent i js v" by (simp add: u_def v_def Let_def upd_proc_def)
  have l: "j < length (ptable u)" "initproc u = initproc s" using Cons.prems(2) by (simp_all add: u_def upd_proc_def)
  have lv: "j < length (ptable v)" "initproc v = initproc s" using l by (simp_all add: v_def)
  have 1: "passed_on i (if j = a then initproc s else Some i) (ptable s ! j) (ptable u ! j)"
    using Cons.prems(2) by (auto simp: u_def passed_on_def nth_list_update upd_proc_def)
  have 2: "passed_on i (Some i) (ptable u ! j) (ptable v ! j)"
    using passed_on_wakeup1 [OF l(1)] by (auto simp: v_def) (auto simp: passed_on_def)
  have 3: "passed_on i (if j \<in> set js then initproc s else Some i) (ptable v ! j) (ptable (reparent i js v) ! j)"
    using Cons.IH [OF _ lv(1)] Cons.prems(1) unfolding lv(2) by simp
  show ?case
  proof (cases "j = a")
    case True
    then have "j \<notin> set js" using Cons.prems(1) by simp
    then show ?thesis using True passed_on_trans' [OF passed_on_trans' [OF 1 2]] 3 unfolding r by simp
  next
    case False
    then show ?thesis using passed_on_trans [OF passed_on_trans [OF _ 2] 3] 1 unfolding r by simp
  qed
qed

lemma exit_zombie_table:
  assumes "exit_zombie i s = Inr (ie, t)" "length (ptable s) = 64" "i < 64" "initproc s \<noteq> Some i"
  shows "length (ptable t) = 64" "pstate (ptable t ! i) = ZOMBIE" "pid (ptable t ! i) = pid (ptable s ! i)"
    "parent (ptable t ! i) = (if parent (ptable s ! i) = Some i then initproc s else parent (ptable s ! i))"
    "j < 64 \<Longrightarrow> j \<noteq> i \<Longrightarrow> passed_on i (initproc s) (ptable s ! j) (ptable t ! j)"
    "p \<in> set (ptable t) \<Longrightarrow> pstate p = SLEEPING \<Longrightarrow> chan p \<noteq> proc_chan (parent (ptable s ! i))"
    "holding Ptable_lock t"
proof -
  obtain s1 where s1: "acquire Ptable_lock s = Inr s1" using assms(1) by (auto simp: exit_zombie_def andthen_Inr_iff)
  note P = same_procsD [OF acquire_procs [OF s1]]
  define w where "w = wakeup1 (proc_chan (parent (ptable s ! i))) s1"
  define u where "u = reparent i [0..<64] w"
  have t: "t = upd_proc i (\<lambda>p. p\<lparr>pstate := ZOMBIE\<rparr>) u" "holding Ptable_lock t"
    using assms(1) s1 P by (auto simp: exit_zombie_def andthen_Inr_iff Let_def sched_def w_def u_def split: if_splits)
  have lw: "length (ptable w) = 64" "length (ptable u) = 64" using P assms(2) by (simp_all add: w_def u_def)
  have po: "passed_on i (initproc s) (ptable s ! j) (ptable u ! j)" if "j < 64" for j
  proof (rule passed_on_trans)
    show "passed_on i (Some i) (ptable s ! j) (ptable w ! j)"
      using passed_on_wakeup1 [of j s1 i] that assms(2) P by (simp add: w_def)
    show "passed_on i (initproc s) (ptable w ! j) (ptable u ! j)"
      using reparent_run [of "[0..<64]" j w i] that lw P by (simp add: u_def w_def)
  qed
  show "length (ptable t) = 64" "holding Ptable_lock t" "pstate (ptable t ! i) = ZOMBIE"
    using lw assms(3) t by simp_all
  show "pid (ptable t ! i) = pid (ptable s ! i)"
    "parent (ptable t ! i) = (if parent (ptable s ! i) = Some i then initproc s else parent (ptable s ! i))"
    using po [OF assms(3)] lw(2) assms(3) by (simp_all add: t(1) passed_on_def)
  show "passed_on i (initproc s) (ptable s ! j) (ptable t ! j)" if "j < 64" "j \<noteq> i"
    using po [OF that(1)] that(2) by (simp add: t(1))
  show "chan p \<noteq> proc_chan (parent (ptable s ! i))" if p: "p \<in> set (ptable t)" "pstate p = SLEEPING"
  proof -
    obtain j where j: "j < 64" "p = ptable t ! j" using p(1) lw(2) by (auto simp: in_set_conv_nth t(1))
    have "j \<noteq> i" using j p(2) lw(2) by (auto simp: t(1))
    then have pj: "p = ptable u ! j" using j by (simp add: t(1))
    have "passed_on i (initproc w) (ptable w ! j) (ptable u ! j)"
      using reparent_run [of "[0..<64]" j w i] j(1) lw by (simp add: u_def)
    then have "pstate (ptable w ! j) = SLEEPING" "chan (ptable w ! j) = chan p" using p(2) by (auto simp: passed_on_def pj)
    then show ?thesis using wakeup1_sleepers [of "ptable w ! j" _ s1] j(1) lw(1) unfolding w_def by (metis nth_mem)
  qed
qed

section \<open>Wait\<close>

definition reaped :: "proc \<Rightarrow> proc" where
  "reaped p = p\<lparr>kstack := 0, pid := 0, parent := None, pname := (pname p)[0 := 0], killed := 0, pstate := UNUSED\<rparr>"

lemma reap_table:
  assumes "reap j s = Inr t" "j < length (ptable s)"
  shows "ptable t = (ptable s)[j := reaped (ptable s ! j)]"
proof -
  obtain s1 s2 where r: "kfree (kstack (ptable s ! j)) s = Inr s1"
    "freevm (pgdir (ptable s1 ! j)) (upd_proc j (\<lambda>p. p\<lparr>kstack := 0\<rparr>) s1) = Inr s2"
    "t = upd_proc j (\<lambda>p. p\<lparr>pid := 0, parent := None, pname := (pname p)[0 := 0], killed := 0, pstate := UNUSED\<rparr>) s2"
    using assms(1) by (auto simp: reap_def andthen_Inr_iff)
  show ?thesis
    using same_procsD(1) [OF kfree_procs [OF r(1)]] same_procsD(1) [OF freevm_procs [OF r(2)]] assms(2)
    by (simp add: r(3) upd_proc_def reaped_def)
qed

lemma sleeping_table:
  assumes "sleeping k c Ptable_lock s = Inr (out, t)" "curproc s = Some i"
  shows "\<exists>ie. out = Sleeps k ie" "ptable t = (ptable s)[i := (ptable s ! i)\<lparr>chan := c, pstate := SLEEPING\<rparr>]"
  using assms by (auto simp: sleeping_def sleep_enter_def sleep_locks_def sched_def andthen_Inr_iff upd_proc_def split: if_splits)

lemma returning_table:
  assumes "returning r l s = Inr (out, t)"
  shows "out = Returns r" "ptable t = ptable s"
  using assms release_procs [of l s] by (auto simp: returning_def andthen_Inr_iff same_procs_def)

section \<open>An example\<close>

text \<open>Three processes: the first one, a parent asleep in \<^verbatim>\<open>wait\<close>, and its running child.\<close>

definition demo_family :: kalloc_state where
  "demo_family = (demo_kmem [])\<lparr>curproc := Some 2, ptable :=
     [free_proc\<lparr>pid := 1, pstate := RUNNABLE, pgdir := 4096\<rparr>,
      free_proc\<lparr>pid := 2, pstate := SLEEPING, chan := Proc_chan 1, parent := Some 0\<rparr>,
      free_proc\<lparr>pid := 3, pstate := RUNNING, parent := Some 1\<rparr>] @ replicate 61 free_proc\<rparr>"

lemma reparent_locks [simp]: "locks (reparent i js s) = locks s" "cpu (reparent i js s) = cpu s"
  by (induction js arbitrary: s) (simp_all add: Let_def upd_proc_def wakeup1_def)

lemma demo_family_simps [simp]:
  "length (ptable demo_family) = 64" "lock_free l demo_family" "cpu demo_family = cpu demo_sys"
  "curproc demo_family = Some 2" "initproc demo_family = Some 0"
  "ptable demo_family ! 2 = free_proc\<lparr>pid := 3, pstate := RUNNING, parent := Some 1\<rparr>"
  "ptable demo_family ! Suc 0 = free_proc\<lparr>pid := 2, pstate := SLEEPING, chan := Proc_chan 1, parent := Some 0\<rparr>"
  by (simp_all add: demo_family_def demo_kmem_def demo_trace_def traceinit_def initlock_def ktrace.defs kproc.defs
      demo_sys_def lock_free_def)

lemma demo_exit: "\<exists>ie t. exit_zombie 2 demo_family = Inr (ie, t)"
proof -
  have "acquire Ptable_lock demo_family = Inr (demo_family\<lparr>cpu := cpu_enter (cpu demo_family),
      locks := (locks demo_family)(Ptable_lock := take_lock (cpu_id (cpu demo_family)) (locks demo_family Ptable_lock))\<rparr>)"
    by (rule acquire_free) simp
  then show ?thesis
    by (auto simp: exit_zombie_def Let_def sched_def holding_def take_lock_def cpu_enter_def upd_proc_def)
qed

definition demo_files :: file_state where
  "demo_files = log_state.extend (demo_disk (\<lambda>_. replicate 512 0) (\<lambda>_. clean_buf))
     \<lparr>sb = \<lparr>sb_size = 1000, sb_nblocks = 941, sb_ninodes = 200, sb_nlog = 30, sb_logstart = 2,
        sb_inodestart = 32, sb_bmapstart = 58\<rparr>,
      inodes = (\<lambda>_. \<lparr>i_dev = 1, i_inum = 1, i_ref = 1, i_flags = 0, i_dinode = fresh_dinode 0\<rparr>),
      ftable = (\<lambda>_. \<lparr>f_type = FD_NONE, f_ref = 0, f_readable = 0, f_writable = 0, f_pipe = 0, f_ip = 0, f_off = 0\<rparr>)\<rparr>"

text \<open>One process that owns no user pages, and two free pages of memory.\<close>

definition demo_fork :: file_state where
  "demo_fork = demo_files\<lparr>mem := store64 (\<lambda>_. 0) (KERNBASE + 0x101000) (KERNBASE + 0x102000),
     kmem_use_lock := 0, kmem_freelist := KERNBASE + 0x101000, traceBuffer := (traceBuffer demo_files)\<lparr>tb_enabled := 0\<rparr>,
     ptable := free_proc\<lparr>pid := 1, pstate := RUNNING, pgdir := 4096, sz := 4096, cwd := Some 0\<rparr> # replicate 63 free_proc,
     curproc := Some 0, nextpid := 7\<rparr>"

lemma demo_fork_simps [simp]:
  "lock_free l demo_fork" "cpu_ok (cpu demo_fork)" "kmem_ready demo_fork" "curproc demo_fork = Some 0"
  "ptable demo_fork = free_proc\<lparr>pid := 1, pstate := RUNNING, pgdir := 4096, sz := 4096, cwd := Some 0\<rparr> # replicate 63 free_proc"
  "kmem_freelist demo_fork = KERNBASE + 0x101000" "load64 (mem demo_fork) (KERNBASE + 0x101000) = KERNBASE + 0x102000"
  "nextpid demo_fork = 7" "tb_enabled (traceBuffer demo_fork) = 0" "kmem_use_lock demo_fork = 0"
  by (simp_all add: demo_fork_def demo_files_def log_state.defs demo_disk_def quiet_def lock_free_def settle_def pipe_state.defs
    demo_pipe_def demo_cons_def demo_kmem_def demo_trace_def traceinit_def initlock_def ktrace.defs
      kproc.defs kalloc_state.defs vm_state.defs cons_state.defs demo_sys_def kmem_ready_def cpu_ok_def)

lemma allocproc_run:
  assumes "lock_free Ptable_lock s" "cpu_ok (cpu s)" "kmem_ready s" "kmem_use_lock s = 0" "kmem_freelist s \<noteq> 0"
    "scan (\<lambda>p. pstate p = UNUSED) (ptable s) = Some j"
  obtains t where "allocproc im s = Inr (Some j, t)" "locks t = locks s" "cpu t = settle (cpu s)" "kmem_use_lock t = 0"
    "kmem_freelist t = load64 (mem s) (kmem_freelist s)" "kmem_ready t" "traceBuffer t = traceBuffer s"
proof -
  let ?k = "kmem_freelist s"
  define b where "b = (upd_proc j (\<lambda>p. p\<lparr>pstate := EMBRYO, pid := nextpid s\<rparr>) s)\<lparr>nextpid := nextpid s + 1\<rparr>"
  define c where "c = b\<lparr>cpu := settle (cpu s)\<rparr>"
  have bf: "cpu b = cpu s" "locks b = locks s" by (simp_all add: b_def)
  let ?a = "s\<lparr>cpu := cpu_enter (cpu s), locks := (locks s)(Ptable_lock := take_lock (cpu_id (cpu s)) (locks s Ptable_lock))\<rparr>"
  have eq: "(upd_proc j (\<lambda>p. p\<lparr>pstate := EMBRYO, pid := nextpid s\<rparr>) ?a)\<lparr>nextpid := nextpid s + 1\<rparr> =
    b\<lparr>cpu := cpu_enter (cpu s), locks := (locks s)(Ptable_lock := take_lock (cpu_id (cpu s)) (locks s Ptable_lock))\<rparr>"
    by (simp add: b_def upd_proc_def)
  have rel: "release Ptable_lock ((upd_proc j (\<lambda>p. p\<lparr>pstate := EMBRYO, pid := nextpid s\<rparr>) ?a)\<lparr>nextpid := nextpid s + 1\<rparr>) = Inr c"
    unfolding eq c_def by (rule release_after [OF assms(1,2) bf])
  have k: "kalloc c = Inr (?k, c\<lparr>kmem_freelist := load64 (mem s) ?k\<rparr>)"
    using assms(4,5) by (subst kalloc_run) (simp_all add: c_def b_def upd_proc_def kmem_ready_def mem_event_def)
  define t where "t = (upd_proc j (\<lambda>p. p\<lparr>kstack := ?k\<rparr>) (c\<lparr>kmem_freelist := load64 (mem s) ?k\<rparr>))
    \<lparr>mem := stack_top im ?k (mem (upd_proc j (\<lambda>p. p\<lparr>kstack := ?k\<rparr>) (c\<lparr>kmem_freelist := load64 (mem s) ?k\<rparr>)))\<rparr>"
  have "allocproc im s = Inr (Some j, t)"
    using assms(1,5,6) rel k by (simp add: allocproc_def run_simps Let_def t_def)
  moreover have "locks t = locks s" "cpu t = settle (cpu s)" "kmem_use_lock t = 0"
    "kmem_freelist t = load64 (mem s) (kmem_freelist s)" "kmem_ready t" "traceBuffer t = traceBuffer s"
    using assms(4) by (simp_all add: t_def c_def b_def upd_proc_def kmem_ready_def)
  ultimately show thesis by (rule that)
qed

lemma upd_proc_traceBuffer [simp]: "traceBuffer (upd_proc i f s) = traceBuffer s"
  by (simp add: upd_proc_def)

lemma fork_files_none: "(\<And>fd. fd \<in> set fds \<Longrightarrow> ofile (ptable s ! i) ! fd = None) \<Longrightarrow> fork_files i j fds s = Inr s"
  by (induction fds) auto

lemma demo_fork_scan: "scan (\<lambda>p. pstate p = UNUSED) (ptable demo_fork) = Some 1"
  by (simp add: free_proc_def numeral_nat)

lemma demo_fork_run: "\<exists>t. fork im demo_fork = Inr (7, t)"
proof -
  note sc = demo_fork_scan
  have nz: "kmem_freelist demo_fork \<noteq> 0" by simp
  obtain s1 where s1: "allocproc im demo_fork = Inr (Some 1, s1)" "locks s1 = locks demo_fork"
    "cpu s1 = settle (cpu demo_fork)" "kmem_use_lock s1 = 0"
    "kmem_freelist s1 = load64 (mem demo_fork) (kmem_freelist demo_fork)" "kmem_ready s1" "traceBuffer s1 = traceBuffer demo_fork"
    by (rule allocproc_run [OF demo_fork_simps(1-3,10) nz sc]) (rule that)
  have fl: "kmem_freelist s1 = KERNBASE + 0x102000" using s1(5) demo_fork_simps(6,7) by argo
  obtain k where pt: "ptable s1 = (ptable demo_fork)[1 := (ptable demo_fork ! 1)\<lparr>pstate := EMBRYO, pid := nextpid demo_fork, kstack := k\<rparr>]"
    using allocproc_table(5) [OF s1(1)] by blast
  have p0: "ptable s1 ! 0 = free_proc\<lparr>pid := 1, pstate := RUNNING, pgdir := 4096, sz := 4096, cwd := Some 0\<rparr>"
    "ptable s1 ! 1 = free_proc\<lparr>pstate := EMBRYO, pid := 7, kstack := k\<rparr>" "length (ptable s1) = 64" by (simp_all add: pt numeral_nat)
  obtain s2 where s2: "copyuvm 4096 4096 s1 = Inr (KERNBASE + 0x102000, s2)" "locks s2 = locks s1" "cpu s2 = cpu s1"
    "traceBuffer s2 = traceBuffer s1" "ptable s2 = ptable s1"
    using s1(4,6) fl by (auto simp: copyuvm_def setupkvm_def kalloc_run Let_def page_range_def mem_event_def)
  define s3 where "s3 = upd_proc 1 (\<lambda>p. p\<lparr>pgdir := KERNBASE + 0x102000\<rparr>) s2"
  define s4 where "s4 = upd_proc 1 (\<lambda>p. p\<lparr>sz := sz (ptable s3 ! 0), parent := Some 0, tf := (tf (ptable s3 ! 0))\<lparr>tf_rax := 0\<rparr>\<rparr>) s3"
  have s4: "upd_proc (Suc 0) (\<lambda>p. p\<lparr>sz := sz (ptable s2 ! 0), parent := Some 0, tf := (tf (ptable s2 ! 0))\<lparr>tf_rax := 0\<rparr>\<rparr>)
      (upd_proc (Suc 0) (pgdir_update (\<lambda>_. 18446603336222253056)) s2) = s4" by (simp add: s4_def s3_def)
  have p4: "ptable s4 ! 0 = ptable s1 ! 0" "pid (ptable s4 ! 1) = 7" "length (ptable s4) = 64" "locks s4 = locks demo_fork"
    "cpu s4 = settle (cpu demo_fork)" "traceBuffer s4 = traceBuffer demo_fork"
    using p0 s2 s1 by (simp_all add: s4_def s3_def upd_proc_def)
  have ff: "fork_files 0 1 [0..<16] s4 = Inr s4" by (rule fork_files_none) (simp add: p4(1) p0(1) free_proc_def)
  define s5 where "s5 = upd_inode 0 (\<lambda>i. i\<lparr>i_ref := i_ref i + 1\<rparr>) s4"
  have free: "lock_free Icache_lock s4" "cpu_ok (cpu s4)"
    using demo_fork_simps(1) [of Icache_lock] demo_fork_simps(2) p4(4,5) by (simp_all add: lock_free_def)
  have "andthen (acquire Icache_lock s4) (\<lambda>s. release Icache_lock (upd_inode 0 (\<lambda>i. i\<lparr>i_ref := i_ref i + 1\<rparr>) s)) = Inr (s5\<lparr>cpu := settle (cpu s4)\<rparr>)"
    unfolding s5_def by (rule critical_section [OF free]) (simp_all add: upd_inode_def)
  then have id: "idup 0 s4 = Inr (0, s5\<lparr>cpu := settle (cpu s4)\<rparr>)" by (auto simp: idup_def andthen_Inr_iff)
  have tb: "tb_enabled (traceBuffer s5) = 0" "pid (ptable s5 ! 1) = 7" "length (ptable s5) = 64" using p4 by (simp_all add: s5_def upd_inode_def)
  show ?thesis
    using s1(1) s2(1) ff id p0 p4 tb by (simp add: fork_def s4 Let_def free_proc_def traceevent_def)
qed

section \<open>Properties\<close>







end
