(* ===== verification/Spec2Isabelle.thy ===== *)
theory Spec2Isabelle
  imports UserMem ShellPrint DashboardProofs ProcProofs
begin

text \<open>
  A verification library for the xv6-64 kernel with its tracing facility, and for the two user
  programs that carry logic of their own, the shell and the trace dashboard. Names of files and
  functions below are those of the sources.

  \<^bold>\<open>The program.\<close> The kernel allocates physical pages (\<^verbatim>\<open>kalloc.c\<close>), builds page tables in them
  (\<^verbatim>\<open>vm.c\<close>), schedules processes that sleep on channels under spin locks (\<^verbatim>\<open>proc.c\<close>, \<^verbatim>\<open>spinlock.c\<close>),
  records events of all of these in a ring (\<^verbatim>\<open>ktrace.c\<close>), drives the console (\<^verbatim>\<open>console.c\<close>), connects
  processes by pipes (\<^verbatim>\<open>pipe.c\<close>) and keeps a logged file system on a cached disk (\<^verbatim>\<open>bio.c\<close>, \<^verbatim>\<open>log.c\<close>,
  \<^verbatim>\<open>fs.c\<close>). The dashboard (\<^verbatim>\<open>trace.c\<close>) reads the event ring and draws on the console's screen; the
  shell (\<^verbatim>\<open>sh.c\<close>) parses command lines.

  \<^bold>\<open>State and outcomes.\<close> Machine integers are words of their C width. Kernel state is one extensible
  record that grows from theory to theory: \<open>machine\<close> (memory, locks, CPU), \<open>kproc\<close> (process table),
  \<open>ktrace\<close>, \<open>kalloc_state\<close>, \<open>vm_state\<close>, \<open>cons_state\<close>, \<open>pipe_state\<close>, \<open>disk_state\<close>, \<open>log_state\<close>,
  \<open>fs_state\<close>, \<open>file_state\<close>, \<open>proc_state\<close>. An operation is a function on that state, polymorphic in what later theories add, and
  returns \<open>stop + result\<close>: \<open>Inl\<close> is a panic, spinning on a busy lock, a null or wild access, a halt,
  or, in the file system, waiting for another process. Code that calls the context switch is cut in
  two there (\<open>sleep_enter\<close> and \<open>sleep_resume\<close>, \<open>Sleeps\<close> and \<open>Returns\<close> in \<open>Console\<close> and \<open>Pipe\<close>).

  \<^bold>\<open>Theories.\<close>
  \<^item> \<open>Prelude\<close>: C types, outcomes, table scans, byte memory with 32- and 64-bit accesses.
  \<^item> \<open>Ring\<close>: circular buffers with free-running counters, and the two queue interfaces as locales.
    \<open>overwriting_queue\<close> is interpreted for the trace buffer (\<open>Ktrace\<close>) and the dashboard's window
    (\<open>DashboardProofs\<close>), \<open>bounded_queue\<close> for pipes (\<open>Pipe\<close>).
  \<^item> \<open>KString\<close>: \<^verbatim>\<open>string.c\<close> and the string routines of \<^verbatim>\<open>ulib.c\<close>; copying, filling, comparing and
    \<^verbatim>\<open>atoi\<close> agree with their meaning on byte ranges and strings, overlap included.
  \<^item> \<open>Pages\<close>: the address macros of \<^verbatim>\<open>mmu.h\<close> and \<^verbatim>\<open>memlayout.h\<close>.
  \<^item> \<open>Spinlock\<close>: \<^verbatim>\<open>spinlock.c\<close>; nesting restores the interrupt flag, and an interleaving model of
    several CPUs shows mutual exclusion.
  \<^item> \<open>Sched\<close>: sleeping, waking, killing, yielding and the scheduler of \<^verbatim>\<open>proc.c\<close>; no wakeup is lost and
    every pass of the scheduler is fair.
  \<^item> \<open>Ktrace\<close>: the trace buffer keeps the last 128 events and counts what it drops.
  \<^item> \<open>Kalloc\<close>: the page allocator with its free list in byte memory; a locale states the contract of
    an allocator, its interpretation gives that no page is lost or handed out twice.
  \<^item> \<open>Vm\<close>, \<open>PageTable\<close>, \<open>UserMem\<close>: \<^verbatim>\<open>vm.c\<close>, the four-level tables as a partial map from pages to
    frames, and growing, shrinking and writing a process's memory.
  \<^item> \<open>Console\<close>, \<open>ConsoleProofs\<close>: screen, serial output, \<^verbatim>\<open>cprintf\<close>, line discipline, reads and
    writes; output never leaves the screen's memory.
  \<^item> \<open>Pipe\<close>: \<^verbatim>\<open>pipe.c\<close> with writers and readers interleaved in any order, first in, first out.
  \<^item> \<open>Bio\<close>, \<open>Log\<close>, \<open>Fs\<close>, \<open>Dir\<close>: sleep locks, the memory disk of \<^verbatim>\<open>memide.c\<close>, the buffer cache, the
    redo log, blocks, inodes, file contents, directories and path names.
  \<^item> \<open>BioProofs\<close>, \<open>LogProofs\<close>: the invariant of the buffer cache and what its operations do to the disk
    as seen through it; transactions and commit of the log, and recovery from a crash after any
    number of the commit's disk writes.
  \<^item> \<open>File\<close>: \<^verbatim>\<open>file.c\<close> and \<^verbatim>\<open>pipealloc\<close>, the table of open files over pipes and inodes.
  \<^item> \<open>Proc\<close>, \<open>ProcProofs\<close>: creating and ending processes in \<^verbatim>\<open>proc.c\<close>; what \<^verbatim>\<open>fork\<close> makes of a slot, and how
    \<^verbatim>\<open>exit\<close> and \<^verbatim>\<open>wait\<close> meet.
  \<^item> \<open>Shell\<close>, \<open>ShellParse\<close>, \<open>ShellPrint\<close>: the parser of \<^verbatim>\<open>sh.c\<close>; it ends on every line, its strings
    are terminated inside the line, and printing a command and parsing it gives the command back.
  \<^item> \<open>Dashboard\<close>, \<open>DashboardProofs\<close>: \<^verbatim>\<open>trace.c\<close>; its window, counters, graph and numbers.

  \<^bold>\<open>Bounds and fuel.\<close> The shell's recursive descent carries a budget of four times the length of the
  line plus four, which \<open>parsecmd_terminates\<close> shows to be enough for every line. All other loops are
  structural or have a termination proof; string loops that may not end are partial functions.

  \<^bold>\<open>Not modelled.\<close> Interrupt controllers, CPU start-up, segment registers and the boot code
  (\<^verbatim>\<open>lapic.c\<close>, \<^verbatim>\<open>ioapic.c\<close>, \<^verbatim>\<open>mp.c\<close>, \<^verbatim>\<open>main.c\<close>, \<^verbatim>\<open>bootmain.c\<close>, assembly) only program hardware. The IDE driver
  \<^verbatim>\<open>ide.c\<close> is represented by the memory disk that can replace it. Test programs and the small
  utilities have no logic beyond their system calls.
\<close>

end
